(* ===== verification/Prelude.thy ===== *)
theory Prelude
  imports Main "HOL-Library.Word" "HOL-Library.Monad_Syntax"
begin

text \<open>
  Shared vocabulary of the development.

  \<^item> A Go byte slice is a list of \<open>8 word\<close>; its capacity is taken to be its length. A Go
    \<open>string\<close> is its bytes, so it has the same type.
  \<^item> Fixed-width integers are words (\<open>int64\<close> and \<open>uint64\<close> are both \<open>64 word\<close>, read by
    \<open>sint\<close> and \<open>uint\<close>). A Go \<open>int\<close> that is an index, an offset or a length is a HOL
    \<open>int\<close>: it is at most a slice length plus \<open>2 ^ 32\<close>, so it does not wrap.
  \<^item> A run-time panic is the value \<open>None\<close> of \<open>'a go\<close>, so that every operation that can
    panic has it in its type. Errors that the code returns are ordinary values.
  \<^item> \<open>go_index\<close>, \<open>go_slice\<close> and \<open>go_store\<close> are the checked slice operations;
    \<open>byte_at\<close> is the conversion \<open>byte(v >> k)\<close>; \<open>uint16_be\<close>, \<open>uint32_be\<close> and
    \<open>uint64_be\<close> are \<open>binary.BigEndian\<close>.
\<close>

unbundle bit_operations_syntax

named_theorems go_simps "checked slice operations on known shapes"
named_theorems be_simps "big-endian conversions"

type_synonym byte = "8 word"
type_synonym bytes = "byte list"
type_synonym u32 = "32 word"
type_synonym u64 = "64 word"
type_synonym 'a go = "'a option"

abbreviation (input) Panic :: "'a go" where
  "Panic \<equiv> None"

abbreviation (input) Ret :: "'a \<Rightarrow> 'a go" where
  "Ret x \<equiv> Some x"

abbreviation len :: "'a list \<Rightarrow> int" where
  "len xs \<equiv> int (length xs)"

subsection \<open>Checked slice operations\<close>

text \<open>\<open>xs[i]\<close>\<close>

definition go_index :: "'a list \<Rightarrow> int \<Rightarrow> 'a go" where
  "go_index xs i = (if 0 \<le> i \<and> i < len xs then Ret (xs ! nat i) else Panic)"

text \<open>\<open>xs[lo:hi]\<close>\<close>

definition go_slice :: "'a list \<Rightarrow> int \<Rightarrow> int \<Rightarrow> 'a list go" where
  "go_slice xs lo hi =
     (if 0 \<le> lo \<and> lo \<le> hi \<and> hi \<le> len xs
      then Ret (take (nat (hi - lo)) (drop (nat lo) xs)) else Panic)"

text \<open>\<open>xs[i] = v\<close>\<close>

definition go_store :: "'a list \<Rightarrow> int \<Rightarrow> 'a \<Rightarrow> 'a list go" where
  "go_store xs i v = (if 0 \<le> i \<and> i < len xs then Ret (xs[nat i := v]) else Panic)"

lemma go_index_append [go_simps, simp]: "go_index (xs @ y # ys) (len xs) = Ret y"
  by (simp add: go_index_def)

lemma go_index_Cons_0 [go_simps, simp]: "go_index (y # ys) 0 = Ret y"
  by (simp add: go_index_def)

lemma go_index_None: "go_index xs i = Panic \<longleftrightarrow> i < 0 \<or> len xs \<le> i"
  by (auto simp: go_index_def)

lemma go_index_Some:
  "0 \<le> i \<Longrightarrow> i < len xs \<Longrightarrow> go_index xs i = Ret (xs ! nat i)"
  by (simp add: go_index_def)

lemma go_slice_Some:
  "0 \<le> lo \<Longrightarrow> lo \<le> hi \<Longrightarrow> hi \<le> len xs \<Longrightarrow>
    go_slice xs lo hi = Ret (take (nat (hi - lo)) (drop (nat lo) xs))"
  by (simp add: go_slice_def)

lemma go_slice_append [go_simps]:
  assumes "lo = len xs" and "hi = len xs + len ys"
  shows "go_slice (xs @ ys @ zs) lo hi = Ret ys"
  using assms by (simp add: go_slice_def)

lemma go_slice_Panic: "hi < lo \<Longrightarrow> go_slice xs lo hi = Panic"
  by (simp add: go_slice_def)

lemma go_slice_length: "go_slice xs lo hi = Ret ys \<Longrightarrow> len ys = hi - lo"
  by (auto simp: go_slice_def split: if_splits)

lemma go_store_append [go_simps, simp]:
  "go_store (xs @ y # ys) (len xs) v = Ret (xs @ v # ys)"
  by (simp add: go_store_def list_update_append)

subsection \<open>Bytes of an integer, big-endian reads\<close>

text \<open>\<open>byte(v >> k)\<close> for a word and for a Go \<open>int\<close>\<close>

definition byte_at :: "nat \<Rightarrow> 'a::len word \<Rightarrow> byte" where
  "byte_at k v = ucast (drop_bit k v)"

definition ibyte_at :: "nat \<Rightarrow> int \<Rightarrow> byte" where
  "ibyte_at k n = word_of_int (drop_bit k n)"

text \<open>\<open>byte(v >> k)\<close> for a signed \<open>v\<close>: Go shifts a signed integer arithmetically.\<close>

definition sbyte_at :: "nat \<Rightarrow> 'a::len word \<Rightarrow> byte" where
  "sbyte_at k v = ucast (signed_drop_bit k v)"

text \<open>\<open>binary.BigEndian.Uint16\<close>, \<open>Uint32\<close>, \<open>Uint64\<close>: they panic on a shorter slice.\<close>

fun uint16_be :: "bytes \<Rightarrow> 16 word go" where
  "uint16_be (b0 # b1 # _) = Ret (ucast b1 OR push_bit 8 (ucast b0))"
| "uint16_be _ = Panic"

fun uint32_be :: "bytes \<Rightarrow> u32 go" where
  "uint32_be (b0 # b1 # b2 # b3 # _) =
     Ret (ucast b3 OR push_bit 8 (ucast b2) OR push_bit 16 (ucast b1) OR push_bit 24 (ucast b0))"
| "uint32_be _ = Panic"

fun uint64_be :: "bytes \<Rightarrow> u64 go" where
  "uint64_be (b0 # b1 # b2 # b3 # b4 # b5 # b6 # b7 # _) =
     Ret (ucast b7 OR push_bit 8 (ucast b6) OR push_bit 16 (ucast b5) OR push_bit 24 (ucast b4)
       OR push_bit 32 (ucast b3) OR push_bit 40 (ucast b2) OR push_bit 48 (ucast b1)
       OR push_bit 56 (ucast b0))"
| "uint64_be _ = Panic"

declare uint16_be.simps [simp del] uint32_be.simps [simp del] uint64_be.simps [simp del]

lemmas be_eval = uint16_be.simps uint32_be.simps uint64_be.simps

lemma bit_push_byte_at:
  fixes v :: "'a::len word"
  assumes "k + 8 \<le> LENGTH('a)"
  shows "bit (push_bit k (ucast (byte_at k v)) :: 'a word) n \<longleftrightarrow> k \<le> n \<and> n < k + 8 \<and> bit v n"
  using assms by (auto simp: byte_at_def bit_simps)

lemma bit_byte_at_0:
  fixes v :: "'a::len word"
  assumes "8 \<le> LENGTH('a)"
  shows "bit (ucast (byte_at 0 v) :: 'a word) n \<longleftrightarrow> n < 8 \<and> bit v n"
  using assms bit_push_byte_at [of 0 v n] by simp

lemma uint16_be_bytes [be_simps]:
  "uint16_be (byte_at 8 v # byte_at 0 v # rest) = Ret v"
proof -
  have "n < 16 \<Longrightarrow> n < 8 \<or> 8 \<le> n \<and> n < 16" for n :: nat by linarith
  then show ?thesis
    by (auto simp: be_eval bit_or_iff bit_push_byte_at bit_byte_at_0 intro!: bit_word_eqI)
qed

lemma uint32_be_bytes [be_simps]:
  "uint32_be (byte_at 24 v # byte_at 16 v # byte_at 8 v # byte_at 0 v # rest) = Ret v"
proof -
  have "n < 32 \<Longrightarrow> n < 8 \<or> 8 \<le> n \<and> n < 16 \<or> 16 \<le> n \<and> n < 24 \<or> 24 \<le> n \<and> n < 32" for n :: nat
    by linarith
  then show ?thesis
    by (auto simp: be_eval bit_or_iff bit_push_byte_at bit_byte_at_0 intro!: bit_word_eqI)
qed

lemma uint64_be_bytes [be_simps]:
  "uint64_be (byte_at 56 v # byte_at 48 v # byte_at 40 v # byte_at 32 v #
     byte_at 24 v # byte_at 16 v # byte_at 8 v # byte_at 0 v # rest) = Ret v"
proof -
  have "n < 64 \<Longrightarrow> n < 8 \<or> 8 \<le> n \<and> n < 16 \<or> 16 \<le> n \<and> n < 24 \<or> 24 \<le> n \<and> n < 32 \<or>
      32 \<le> n \<and> n < 40 \<or> 40 \<le> n \<and> n < 48 \<or> 48 \<le> n \<and> n < 56 \<or> 56 \<le> n \<and> n < 64" for n :: nat
    by linarith
  then show ?thesis
    by (auto simp: be_eval bit_or_iff bit_push_byte_at bit_byte_at_0 intro!: bit_word_eqI)
qed

text \<open>The bytes of a Go \<open>int\<close> are those of any word it is truncated to.\<close>

lemma ibyte_at_word:
  assumes "k + 8 \<le> LENGTH('a::len)"
  shows "ibyte_at k n = byte_at k (word_of_int n :: 'a word)"
  using assms by (auto simp: ibyte_at_def byte_at_def bit_simps intro!: bit_word_eqI)

lemma sbyte_at_byte_at:
  fixes v :: "'a::len word"
  assumes "k + 8 \<le> LENGTH('a)"
  shows "sbyte_at k v = byte_at k v"
  using assms by (auto simp: sbyte_at_def byte_at_def bit_simps intro!: bit_word_eqI split: if_splits)

lemma unat_byte_le: "unat (c :: byte) \<le> 255"
  using unsigned_less [of c, where 'a = nat] by simp

subsection \<open>Shifting a slice operation past a known prefix\<close>

lemma go_index_shift [go_simps]: "len xs \<le> i \<Longrightarrow> go_index (xs @ ys) i = go_index ys (i - len xs)"
  by (auto simp: go_index_def nth_append nat_diff_distrib)

lemma go_index_Cons [go_simps]: "1 \<le> i \<Longrightarrow> go_index (x # ys) i = go_index ys (i - 1)"
  using go_index_shift [of "[x]" i ys] by simp

lemma go_slice_shift [go_simps]: "len xs \<le> lo \<Longrightarrow> go_slice (xs @ ys) lo hi = go_slice ys (lo - len xs) (hi - len xs)"
  by (auto simp: go_slice_def nat_diff_distrib)

lemma go_slice_Cons [go_simps]: "1 \<le> lo \<Longrightarrow> go_slice (x # ys) lo hi = go_slice ys (lo - 1) (hi - 1)"
  using go_slice_shift [of "[x]" lo ys hi] by simp

lemma go_slice_take [go_simps]: "0 \<le> n \<Longrightarrow> n \<le> len xs \<Longrightarrow> go_slice xs 0 n = Ret (take (nat n) xs)"
  by (simp add: go_slice_def)

subsection \<open>Widths and truncation\<close>

lemma byte_at_ucast:
  fixes v :: "'a::len word"
  assumes "k + 8 \<le> LENGTH('b::len)" "k + 8 \<le> LENGTH('a::len)"
  shows "byte_at k (ucast v :: 'b word) = byte_at k v"
  using assms by (auto simp: byte_at_def bit_simps intro!: bit_word_eqI)

lemma cast_cast_bits:
  fixes v :: u64
  shows "ucast (ucast v :: byte) = take_bit 8 v" "scast (ucast v :: byte) = signed_take_bit 7 v"
    and "ucast (ucast v :: 16 word) = take_bit 16 v" "scast (ucast v :: 16 word) = signed_take_bit 15 v"
    and "ucast (ucast v :: u32) = take_bit 32 v" "scast (ucast v :: u32) = signed_take_bit 31 v"
  by (rule bit_word_eqI; auto simp: bit_simps min_def)+

lemma take_bit_self: "unat (v::u64) < 2 ^ n \<Longrightarrow> take_bit n v = v"
  by (metis take_bit_nat_eq_self unsigned_take_bit_eq word_unat_eq_iff)

lemma signed_take_bit_self:
  fixes v :: u64
  assumes "- (2 ^ n) \<le> sint v" and "sint v < 2 ^ n"
  shows "signed_take_bit n v = v"
proof (rule bit_word_eqI)
  fix i assume i: "i < LENGTH(64)"
  have "signed_take_bit n (sint v) = sint v"
    using assms by (rule signed_take_bit_int_eq_self)
  then have "bit (signed_take_bit n (sint v)) i = bit (sint v) i"
    by simp
  with i show "bit (signed_take_bit n v) i = bit v i"
    by (simp add: bit_signed_take_bit_iff bit_sint_iff min_def split: if_splits)
qed

lemma sint_nonneg_iff: "0 \<le> sint (v :: u64) \<longleftrightarrow> v \<le> 0x7fffffffffffffff"
proof -
  have "sint v < 0 \<longleftrightarrow> bit (uint v) 63"
    using bit_last_iff [of v] by (simp add: bit_uint_iff)
  also have "\<dots> \<longleftrightarrow> 2 ^ 63 \<le> uint v"
  proof -
    have "uint v < 2 ^ 64" using uint_bounded [of v] by simp
    then have "uint v div 2 ^ 63 = (if 2 ^ 63 \<le> uint v then 1 else 0)"
      by auto
    then show ?thesis by (simp add: bit_iff_odd)
  qed
  finally show ?thesis by (auto simp: word_le_def)
qed

lemma byte_at_0: "byte_at 0 v = ucast v"
  by (simp add: byte_at_def)

lemma cast_byte_at_0:
  fixes v :: u64
  shows "ucast (byte_at 0 v) = take_bit 8 v" "scast (byte_at 0 v) = signed_take_bit 7 v"
  by (simp_all add: byte_at_0 cast_cast_bits)

lemma byte_at_0_le: "v \<le> 127 \<Longrightarrow> byte_at 0 (v::u64) \<le> 127"
  by (simp add: byte_at_def word_le_nat_alt unsigned_ucast_eq take_bit_nat_eq_self)

lemma take_bit_selfs:
  fixes v :: u64
  shows "v \<le> 127 \<Longrightarrow> take_bit 8 v = v" "v \<le> 255 \<Longrightarrow> take_bit 8 v = v"
    "v \<le> 65535 \<Longrightarrow> take_bit 16 v = v" "v \<le> 4294967295 \<Longrightarrow> take_bit 32 v = v"
  by (simp_all add: take_bit_self word_le_nat_alt)

lemma sint_eq_uint_nonneg: "v \<le> 0x7fffffffffffffff \<Longrightarrow> sint (v :: u64) = uint v"
proof -
  assume "v \<le> 0x7fffffffffffffff"
  then have "uint v < 2 ^ 63" by (simp add: word_le_def)
  then have "signed_take_bit 63 (uint v) = uint v"
    by (intro signed_take_bit_int_eq_self) (simp_all add: order.trans [of _ 0])
  then show ?thesis by (simp add: sint_uint)
qed

lemma small_sint: "v \<le> 127 \<Longrightarrow> signed_take_bit 7 v = (v :: u64)"
proof -
  assume a: "v \<le> 127"
  then have "v \<le> 0x7fffffffffffffff" by (rule order.trans) simp
  then have "sint v = uint v" by (rule sint_eq_uint_nonneg)
  with a show ?thesis by (intro signed_take_bit_self) (simp_all add: word_le_def order.trans [of _ 0])
qed

lemma byte_at_0_ge: "-32 \<le> sint v \<Longrightarrow> sint v < 0 \<Longrightarrow> 0xe0 \<le> byte_at 0 (v::u64)"
proof -
  assume a: "-32 \<le> sint v" "sint v < 0"
  have "byte_at 0 v = word_of_int (sint v)"
    by (auto simp: byte_at_0 bit_simps intro!: bit_word_eqI)
  then have "uint (byte_at 0 v) = sint v mod 256"
    by (simp only: uint_word_of_int) simp
  also have "\<dots> = sint v + 256"
    using a mod_pos_pos_trivial [of "sint v + 256" 256] by simp
  finally show ?thesis using a by (simp add: word_le_def)
qed

lemma sint_uint_cases: "sint (v::u64) < 0 \<or> sint v = uint v"
  using sint_eq_uint_nonneg [of v] sint_nonneg_iff [of v] by linarith

lemma sint_eq_uint_pos: "0 \<le> sint (v :: u64) \<Longrightarrow> uint v = sint v"
  using sint_uint_cases [of v] uint_ge_0 [of v] by simp

lemma sint_ranges:
  "- 128 \<le> sint (b :: byte)" "sint b < 128"
  "- 32768 \<le> sint (h :: 16 word)" "sint h < 32768"
  "- 2147483648 \<le> sint (w :: u32)" "sint w < 2147483648"
  using sint_greater_eq [of b] sint_less [of b] sint_greater_eq [of h] sint_less [of h]
    sint_greater_eq [of w] sint_less [of w] by simp_all

lemma uint_ranges:
  "uint (b :: byte) < 256" "uint (h :: 16 word) < 65536" "uint (w :: u32) < 4294967296"
  using uint_bounded [of b] uint_bounded [of h] uint_bounded [of w] by simp_all

lemma sint_scast_up:
  "sint (scast (b :: byte) :: u64) = sint b" "sint (scast (h :: 16 word) :: u64) = sint h"
  "sint (scast (w :: u32) :: u64) = sint w"
  using sint_ranges(1,2) [of b] sint_ranges(3,4) [of h] sint_ranges(5,6) [of w]
  by (simp_all add: signed_scast_eq signed_take_bit_int_eq_self)

lemma sint_ucast_up:
  "sint (ucast (b :: byte) :: u64) = uint b" "sint (ucast (h :: 16 word) :: u64) = uint h"
  "sint (ucast (w :: u32) :: u64) = uint w"
  using uint_ranges(1) [of b] uint_ranges(2) [of h] uint_ranges(3) [of w]
  by (simp_all add: signed_ucast_eq signed_take_bit_int_eq_self order.trans [OF _ uint_ge_0])

lemma sint_fixint:
  fixes c :: byte
  assumes "c \<le> 0x7f \<or> 0xe0 \<le> c"
  shows "- 32 \<le> sint c"
proof (cases "c \<le> 0x7f")
  case True
  then have "sint c = uint c"
    using signed_take_bit_int_eq_self [of 7 "uint c"] order.trans [of "- 128" 0 "uint c"]
    by (simp add: sint_uint word_le_def)
  moreover have "0 \<le> uint c" by simp
  ultimately show ?thesis by linarith
next
  case False
  with assms have "0xe0 \<le> uint c" by (simp add: word_le_def)
  moreover have "sint c = signed_take_bit 7 (uint c - 256)"
    by (simp add: sint_uint signed_take_bit_eq_iff_take_bit_eq take_bit_eq_mod)
  moreover have "uint c < 256" by (rule uint_ranges)
  ultimately show ?thesis
    using signed_take_bit_int_eq_self [of 7 "uint c - 256"] by simp
qed

lemma sint_word_of_int: "- (2 ^ 63) \<le> k \<Longrightarrow> k < 2 ^ 63 \<Longrightarrow> sint (word_of_int k :: u64) = k"
  by (simp add: sint_sbintrunc' signed_take_bit_int_eq_self)

lemma take_bit_word_of_int: "0 \<le> k \<Longrightarrow> k < 2 ^ n \<Longrightarrow> n \<le> 64 \<Longrightarrow> take_bit n (word_of_int k :: u64) = word_of_int k"
  by (simp add: take_bit_of_int take_bit_int_eq_self)

lemma signed_take_bit_word_of_int:
  "signed_take_bit n (word_of_int k :: u64) = word_of_int (signed_take_bit n k)"
  by (rule signed_take_bit_of_int)

lemma signed_take_bit_wrap:
  fixes k :: int
  assumes "0 \<le> k" and "k < 2 ^ Suc n"
  shows "signed_take_bit n k = (if k < 2 ^ n then k else k - 2 ^ Suc n)"
proof (cases "k < 2 ^ n")
  case True
  with assms(1) show ?thesis
    using signed_take_bit_int_eq_self [of n k] order.trans [of "- (2 ^ n)" 0 k] by simp
next
  case False
  have "signed_take_bit n k = signed_take_bit n (k - 2 ^ Suc n)"
    by (simp add: signed_take_bit_eq_iff_take_bit_eq take_bit_eq_mod)
  with False assms show ?thesis
    using signed_take_bit_int_eq_self [of n "k - 2 ^ Suc n"] by simp
qed

lemma word_of_int_le_MaxInt: "0 \<le> l \<Longrightarrow> l < 2 ^ 63 \<Longrightarrow> (word_of_int l :: u64) \<le> 0x7fffffffffffffff"
  by (simp add: sint_word_of_int flip: sint_nonneg_iff)

lemma MaxInt_sint: "\<not> 0x7fffffffffffffff < (v :: u64) \<Longrightarrow> 0 \<le> sint v"
  by (simp add: sint_nonneg_iff not_less)

lemma go_store_shift [go_simps]:
  "len xs \<le> i \<Longrightarrow> go_store (xs @ ys) i v = map_option ((@) xs) (go_store ys (i - len xs) v)"
  by (auto simp: go_store_def list_update_append nat_diff_distrib)

lemma go_store_0 [go_simps]: "go_store (x # ys) 0 v = Ret (v # ys)"
  by (simp add: go_store_def)

lemma go_store_Cons [go_simps]: "1 \<le> i \<Longrightarrow> go_store (x # ys) i v = map_option ((#) x) (go_store ys (i - 1) v)"
proof -
  assume "1 \<le> i"
  moreover have "(@) [x] = (#) x" by (simp add: fun_eq_iff)
  ultimately show ?thesis using go_store_shift [of "[x]" i ys v] by simp
qed

lemma go_slice_prefix [go_simps]:
  "len xs \<le> n \<Longrightarrow> go_slice (xs @ ys) 0 n = map_option ((@) xs) (go_slice ys 0 (n - len xs))"
  by (auto simp: go_slice_def nat_diff_distrib)

lemma go_slice_all: "go_slice s 0 (len s) = Ret s"
  by (simp add: go_slice_def)

lemma nat_add_len_diff [go_simps]:
  "0 \<le> k \<Longrightarrow> nat (k + len xs) - length xs = nat k" "0 \<le> k \<Longrightarrow> nat (len xs + k) - length xs = nat k"
  by simp_all

end
