(* ===== verification/Types.thy ===== *)
theory Types
  imports Prelude
begin

text \<open>
  \<open>pkg/msgpack/types/types.go\<close> and \<open>pkg/msgpack/errors.go\<close>: the MessagePack value types, the
  three lookup tables that \<open>init\<close> fills, \<open>Get\<close>, and the error values of the codec.
  \<open>Get\<close> is compared with \<open>format_of\<close>, the table of the MessagePack specification
  (\<open>docs/msgpack-specification.md\<close>) written as a function of the first byte.
\<close>

datatype Type =
  InvalidT | NilT | BoolT | IntT | UintT | FloatT | StrT | BinT | ExtT | ArrayT | MapT

text \<open>The value of a constant (\<open>iota\<close>)\<close>

definition type_code :: "Type \<Rightarrow> nat" where
  "type_code t = (case t of InvalidT \<Rightarrow> 0 | NilT \<Rightarrow> 1 | BoolT \<Rightarrow> 2 | IntT \<Rightarrow> 3 | UintT \<Rightarrow> 4 | FloatT \<Rightarrow> 5
     | StrT \<Rightarrow> 6 | BinT \<Rightarrow> 7 | ExtT \<Rightarrow> 8 | ArrayT \<Rightarrow> 9 | MapT \<Rightarrow> 10)"

instantiation Type :: linorder
begin

definition less_eq_Type :: "Type \<Rightarrow> Type \<Rightarrow> bool" where
  "less_eq_Type s t \<longleftrightarrow> type_code s \<le> type_code t"

definition less_Type :: "Type \<Rightarrow> Type \<Rightarrow> bool" where
  "less_Type s t \<longleftrightarrow> type_code s < type_code t"

instance
proof
  fix s t :: Type
  assume "s \<le> t" and "t \<le> s"
  then show "s = t"
    by (cases s; cases t) (simp_all add: less_eq_Type_def type_code_def)
qed (auto simp: less_eq_Type_def less_Type_def)

end

text \<open>\<open>func (t Type) String\<close>; a \<open>Type\<close> is a \<open>uint8\<close>, so the constants index the array.\<close>

definition typeStrings :: "string list" where
  "typeStrings = [''invalid'', ''nil'', ''bool'', ''int'', ''uint'', ''float'', ''str'', ''bin'',
     ''ext'', ''array'', ''map'']"

definition type_String :: "Type \<Rightarrow> string" where
  "type_String t = typeStrings ! type_code t"

subsection \<open>Errors\<close>

text \<open>
  The sentinel errors, and one constructor for every \<open>fmt.Errorf\<close> of the codec with its
  arguments. \<open>ExpectedType\<close> and \<open>ExpectedExtType\<close> are the results of \<open>expectedType\<close> and
  \<open>expectedExtType\<close>, which wrap \<open>ErrInvalidHeaderByte\<close> and \<open>ErrInvalidExtByte\<close>.
\<close>

datatype err =
    ErrShortBuffer
  | ErrInvalidFormat
  | ErrUnexpectedEOF
  | EOF
  | ExpectedType byte Type
  | ExpectedExtType byte byte
  | ExpectedNil byte
  | UnexpectedFixint Type byte
  | InvalidIntHeader byte
  | InvalidUintHeader byte
  | OverflowsInt64 u64
  | LengthExceedsMaxInt u64
  | ExpectedAnyOf "Type list" Type byte
  | InvalidValueType

definition expectedType :: "byte \<Rightarrow> Type \<Rightarrow> err" where
  "expectedType c expected = ExpectedType c expected"

definition expectedExtType :: "byte \<Rightarrow> byte \<Rightarrow> err" where
  "expectedExtType got expected = ExpectedExtType got expected"

subsection \<open>Lookup tables\<close>

record tables =
  typeLookup :: "nat \<Rightarrow> Type"
  lengthLookup :: "nat \<Rightarrow> byte"
  isLengthValue :: "nat \<Rightarrow> bool"

text \<open>The zero values of the three package-level arrays.\<close>

definition zero_tables :: tables where
  "zero_tables = \<lparr>typeLookup = (\<lambda>_. InvalidT), lengthLookup = (\<lambda>_. 0), isLengthValue = (\<lambda>_. False)\<rparr>"

definition set_entry :: "nat \<Rightarrow> Type \<Rightarrow> byte \<Rightarrow> bool \<Rightarrow> tables \<Rightarrow> tables" where
  "set_entry i t l v tb = tb\<lparr>typeLookup := (typeLookup tb)(i := t),
     lengthLookup := (lengthLookup tb)(i := l), isLengthValue := (isLengthValue tb)(i := v)\<rparr>"

text \<open>\<open>for i := lo; i <= hi; i++\<close> over the three assignments of a loop body\<close>

definition set_range :: "nat \<Rightarrow> nat \<Rightarrow> Type \<Rightarrow> (nat \<Rightarrow> byte) \<Rightarrow> tables \<Rightarrow> tables" where
  "set_range lo hi t l tb = fold (\<lambda>i. set_entry i t (l i) True) [lo..<Suc hi] tb"

definition init :: tables where
  "init = (let
     tb = zero_tables;
     tb = set_range 0x00 0x7f UintT (\<lambda>_. 0) tb;
     tb = set_range 0xe0 0xff IntT (\<lambda>_. 0) tb;
     tb = set_range 0xa0 0xbf StrT (\<lambda>i. of_nat (i - 0xa0)) tb;
     tb = set_range 0x80 0x8f MapT (\<lambda>i. of_nat (i - 0x80)) tb;
     tb = set_range 0x90 0x9f ArrayT (\<lambda>i. of_nat (i - 0x90)) tb;
     tb = set_entry 0xc0 NilT 0 True tb;
     tb = set_entry 0xc2 BoolT 0 True tb;
     tb = set_entry 0xc3 BoolT 0 True tb;
     tb = set_entry 0xc4 BinT 1 False tb;
     tb = set_entry 0xc5 BinT 2 False tb;
     tb = set_entry 0xc6 BinT 4 False tb;
     tb = set_entry 0xc7 ExtT 1 False tb;
     tb = set_entry 0xc8 ExtT 2 False tb;
     tb = set_entry 0xc9 ExtT 4 False tb;
     tb = set_entry 0xca FloatT 4 True tb;
     tb = set_entry 0xcb FloatT 8 True tb;
     tb = set_entry 0xcc UintT 1 True tb;
     tb = set_entry 0xcd UintT 2 True tb;
     tb = set_entry 0xce UintT 4 True tb;
     tb = set_entry 0xcf UintT 8 True tb;
     tb = set_entry 0xd0 IntT 1 True tb;
     tb = set_entry 0xd1 IntT 2 True tb;
     tb = set_entry 0xd2 IntT 4 True tb;
     tb = set_entry 0xd3 IntT 8 True tb;
     tb = set_entry 0xd9 StrT 1 False tb;
     tb = set_entry 0xda StrT 2 False tb;
     tb = set_entry 0xdb StrT 4 False tb;
     tb = set_entry 0xdc ArrayT 2 False tb;
     tb = set_entry 0xdd ArrayT 4 False tb;
     tb = set_entry 0xde MapT 2 False tb;
     tb = set_entry 0xdf MapT 4 False tb;
     tb = set_entry 0xd4 ExtT 2 True tb;
     tb = set_entry 0xd5 ExtT 3 True tb;
     tb = set_entry 0xd6 ExtT 5 True tb;
     tb = set_entry 0xd7 ExtT 9 True tb;
     tb = set_entry 0xd8 ExtT 17 True tb
   in tb)"

definition Get :: "byte \<Rightarrow> Type \<times> int \<times> bool" where
  "Get c = (typeLookup init (unat c), int (unat (lengthLookup init (unat c))),
     isLengthValue init (unat c))"

subsection \<open>The format table of the MessagePack specification\<close>

text \<open>
  For each first byte: the family, the number of bytes after it that are the value (when the
  last component is true) or that hold the value's length (when it is false), and the length
  packed into a fixstr, fixmap or fixarray byte.
\<close>

definition format_of :: "byte \<Rightarrow> Type \<times> int \<times> bool" where
  "format_of c =
     (if c \<le> 0x7f then (UintT, 0, True)
      else if c \<le> 0x8f then (MapT, uint c - 0x80, True)
      else if c \<le> 0x9f then (ArrayT, uint c - 0x90, True)
      else if c \<le> 0xbf then (StrT, uint c - 0xa0, True)
      else if c = 0xc0 then (NilT, 0, True)
      else if c = 0xc1 then (InvalidT, 0, False)
      else if c \<le> 0xc3 then (BoolT, 0, True)
      else if c \<le> 0xc6 then (BinT, 2 ^ (unat c - 0xc4), False)
      else if c \<le> 0xc9 then (ExtT, 2 ^ (unat c - 0xc7), False)
      else if c \<le> 0xcb then (FloatT, 4 * 2 ^ (unat c - 0xca), True)
      else if c \<le> 0xcf then (UintT, 2 ^ (unat c - 0xcc), True)
      else if c \<le> 0xd3 then (IntT, 2 ^ (unat c - 0xd0), True)
      else if c \<le> 0xd8 then (ExtT, 1 + 2 ^ (unat c - 0xd4), True)
      else if c \<le> 0xdb then (StrT, 2 ^ (unat c - 0xd9), False)
      else if c \<le> 0xdd then (ArrayT, 2 * 2 ^ (unat c - 0xdc), False)
      else if c \<le> 0xdf then (MapT, 2 * 2 ^ (unat c - 0xde), False)
      else (IntT, 0, True))"

lemma set_entry_sel [simp]:
  "typeLookup (set_entry i t l v tb) j = (if j = i then t else typeLookup tb j)"
  "lengthLookup (set_entry i t l v tb) j = (if j = i then l else lengthLookup tb j)"
  "isLengthValue (set_entry i t l v tb) j = (if j = i then v else isLengthValue tb j)"
  by (simp_all add: set_entry_def)

lemma fold_entry_sel:
  "typeLookup (fold (\<lambda>i. set_entry i t (l i) True) is tb) j = (if j \<in> set is then t else typeLookup tb j)"
  "lengthLookup (fold (\<lambda>i. set_entry i t (l i) True) is tb) j = (if j \<in> set is then l j else lengthLookup tb j)"
  "isLengthValue (fold (\<lambda>i. set_entry i t (l i) True) is tb) j = (j \<in> set is \<or> isLengthValue tb j)"
  by (induction "is" arbitrary: tb) auto

lemma set_range_sel [simp]:
  "typeLookup (set_range lo hi t l tb) j = (if lo \<le> j \<and> j \<le> hi then t else typeLookup tb j)"
  "lengthLookup (set_range lo hi t l tb) j = (if lo \<le> j \<and> j \<le> hi then l j else lengthLookup tb j)"
  "isLengthValue (set_range lo hi t l tb) j = (lo \<le> j \<and> j \<le> hi \<or> isLengthValue tb j)"
  by (auto simp: set_range_def fold_entry_sel simp del: upt_Suc)

lemma zero_tables_sel [simp]:
  "typeLookup zero_tables j = InvalidT" "lengthLookup zero_tables j = 0" "isLengthValue zero_tables j = False"
  by (simp_all add: zero_tables_def)

lemma uint_byte_sub:
  fixes c :: byte
  shows "0xa0 \<le> unat c \<Longrightarrow> uint (c - 0xa0) = uint c - 0xa0"
    and "0x80 \<le> unat c \<Longrightarrow> uint (c - 0x80) = uint c - 0x80"
    and "0x90 \<le> unat c \<Longrightarrow> uint (c - 0x90) = uint c - 0x90"
  using uint_minus_simple_alt [of "0xa0" c] uint_minus_simple_alt [of "0x80" c]
    uint_minus_simple_alt [of "0x90" c] by (simp_all add: word_le_nat_alt)

lemma Get_fixed [simp]:
  "c \<le> 0x7f \<Longrightarrow> Get c = (UintT, 0, True)"
  "0xe0 \<le> c \<Longrightarrow> Get c = (IntT, 0, True)"
  by (simp_all add: Get_def init_def Let_def word_le_nat_alt unat_byte_le)

lemma Get_fixlen:
  "0xa0 \<le> c \<Longrightarrow> c \<le> 0xbf \<Longrightarrow> Get c = (StrT, uint c - 0xa0, True)"
  "0x80 \<le> c \<Longrightarrow> c \<le> 0x8f \<Longrightarrow> Get c = (MapT, uint c - 0x80, True)"
  "0x90 \<le> c \<Longrightarrow> c \<le> 0x9f \<Longrightarrow> Get c = (ArrayT, uint c - 0x90, True)"
  by (simp_all add: Get_def init_def Let_def word_le_nat_alt uint_byte_sub)

lemma Get_points [simp]:
  "Get 0xc0 = (NilT, 0, True)" "Get 0xc1 = (InvalidT, 0, False)"
  "Get 0xc2 = (BoolT, 0, True)" "Get 0xc3 = (BoolT, 0, True)"
  "Get 0xc4 = (BinT, 1, False)" "Get 0xc5 = (BinT, 2, False)" "Get 0xc6 = (BinT, 4, False)"
  "Get 0xc7 = (ExtT, 1, False)" "Get 0xc8 = (ExtT, 2, False)" "Get 0xc9 = (ExtT, 4, False)"
  "Get 0xca = (FloatT, 4, True)" "Get 0xcb = (FloatT, 8, True)"
  "Get 0xcc = (UintT, 1, True)" "Get 0xcd = (UintT, 2, True)"
  "Get 0xce = (UintT, 4, True)" "Get 0xcf = (UintT, 8, True)"
  "Get 0xd0 = (IntT, 1, True)" "Get 0xd1 = (IntT, 2, True)"
  "Get 0xd2 = (IntT, 4, True)" "Get 0xd3 = (IntT, 8, True)"
  "Get 0xd4 = (ExtT, 2, True)" "Get 0xd5 = (ExtT, 3, True)" "Get 0xd6 = (ExtT, 5, True)"
  "Get 0xd7 = (ExtT, 9, True)" "Get 0xd8 = (ExtT, 17, True)"
  "Get 0xd9 = (StrT, 1, False)" "Get 0xda = (StrT, 2, False)" "Get 0xdb = (StrT, 4, False)"
  "Get 0xdc = (ArrayT, 2, False)" "Get 0xdd = (ArrayT, 4, False)"
  "Get 0xde = (MapT, 2, False)" "Get 0xdf = (MapT, 4, False)"
  by (simp_all add: Get_def init_def Let_def)

lemma byte_range_cases:
  fixes c :: byte
  assumes "\<not> c \<le> 0xbf" and "\<not> 0xe0 \<le> c"
  shows "c \<in> {0xc0, 0xc1, 0xc2, 0xc3, 0xc4, 0xc5, 0xc6, 0xc7, 0xc8, 0xc9, 0xca, 0xcb, 0xcc, 0xcd,
    0xce, 0xcf, 0xd0, 0xd1, 0xd2, 0xd3, 0xd4, 0xd5, 0xd6, 0xd7, 0xd8, 0xd9, 0xda, 0xdb, 0xdc, 0xdd,
    0xde, 0xdf}"
proof -
  from assms have "192 \<le> unat c \<and> unat c < 224"
    by (simp add: word_le_nat_alt)
  then have "unat c \<in> set [192..<224]" by (simp del: upt_rec_numeral)
  moreover have "set [192..<224] = {192, 193, 194, 195, 196, 197, 198, 199, 200, 201, 202, 203, 204, 205, 206, 207, 208,
    209, 210, 211, 212, 213, 214, 215, 216, 217, 218, 219, 220, 221, 222, 223}"
    by simp
  ultimately show ?thesis
    by (auto simp: word_unat_eq_iff simp flip: unat_eq_nat_uint)
qed

lemma Get_format_of: "Get c = format_of c"
proof (cases "c \<le> 0xbf \<or> 0xe0 \<le> c")
  case True
  consider "c \<le> 0x7f" | "0x80 \<le> c" "c \<le> 0x8f" | "0x90 \<le> c" "c \<le> 0x9f" | "0xa0 \<le> c" "c \<le> 0xbf" | "0xe0 \<le> c"
    using True by (simp add: word_le_nat_alt) linarith
  then show ?thesis
    by cases (simp_all add: format_of_def Get_fixlen; simp add: word_le_nat_alt word_unat_eq_iff)+
next
  case False
  then have "c \<in> {0xc0, 0xc1, 0xc2, 0xc3, 0xc4, 0xc5, 0xc6, 0xc7, 0xc8, 0xc9, 0xca, 0xcb, 0xcc, 0xcd,
    0xce, 0xcf, 0xd0, 0xd1, 0xd2, 0xd3, 0xd4, 0xd5, 0xd6, 0xd7, 0xd8, 0xd9, 0xda, 0xdb, 0xdc, 0xdd,
    0xde, 0xdf}"
    using byte_range_cases by blast
  then show ?thesis
    by (elim insertE) (simp_all add: format_of_def)
qed

lemma Get_len_nonneg: "Get c = (t, n, b) \<Longrightarrow> 0 \<le> n"
  by (auto simp: Get_def)

lemma Get_fix_header:
  "0 \<le> l \<Longrightarrow> l \<le> 31 \<Longrightarrow> Get (0xa0 OR ibyte_at 0 l) = (StrT, l, True)"
  "0 \<le> l \<Longrightarrow> l \<le> 15 \<Longrightarrow> Get (0x80 OR ibyte_at 0 l) = (MapT, l, True)"
  "0 \<le> l \<Longrightarrow> l \<le> 15 \<Longrightarrow> Get (0x90 OR ibyte_at 0 l) = (ArrayT, l, True)"
proof -
  have "list_all (\<lambda>n. Get (0xa0 OR ibyte_at 0 (int n)) = (StrT, int n, True)) (0 # 1 # [2..<32])"
    and "list_all (\<lambda>n. Get (0x80 OR ibyte_at 0 (int n)) = (MapT, int n, True)) (0 # 1 # [2..<16])"
    and "list_all (\<lambda>n. Get (0x90 OR ibyte_at 0 (int n)) = (ArrayT, int n, True)) (0 # 1 # [2..<16])"
    by (simp_all add: ibyte_at_def Get_format_of format_of_def)
  note * = this [unfolded list_all_iff, THEN bspec [where x = "nat l"]]
  have disj: "nat l = 0 \<or> nat l = 1 \<or> 2 \<le> nat l" by linarith
  show "0 \<le> l \<Longrightarrow> l \<le> 31 \<Longrightarrow> Get (0xa0 OR ibyte_at 0 l) = (StrT, l, True)"
    and "0 \<le> l \<Longrightarrow> l \<le> 15 \<Longrightarrow> Get (0x80 OR ibyte_at 0 l) = (MapT, l, True)"
    and "0 \<le> l \<Longrightarrow> l \<le> 15 \<Longrightarrow> Get (0x90 OR ibyte_at 0 l) = (ArrayT, l, True)"
    using * disj by (auto simp del: upt_rec_numeral simp: nat_less_iff)
qed

lemma Get_str_len: "Get c = (StrT, n, False) \<Longrightarrow> n \<le> 4" "Get c = (BinT, n, b) \<Longrightarrow> n \<le> 4 \<and> \<not> b"
  using power_increasing [of "unat c - 217" 2 "2::int"] power_increasing [of "unat c - 196" 2 "2::int"]
  by (auto simp: Get_format_of format_of_def word_le_nat_alt word_unat_eq_iff split: if_splits)

lemma Get_len_le:
  assumes "Get c = (t, n, b)"
  shows "n \<le> 31" and "\<not> b \<Longrightarrow> n \<le> 4"
proof -
  have "n \<le> 31 \<and> (\<not> b \<longrightarrow> n \<le> 4)"
  proof (cases "c \<le> 0xbf \<or> 0xe0 \<le> c")
    case True
    consider "c \<le> 0x7f" | "0x80 \<le> c" "c \<le> 0x8f" | "0x90 \<le> c" "c \<le> 0x9f" | "0xa0 \<le> c" "c \<le> 0xbf" | "0xe0 \<le> c"
      using True by (simp add: word_le_nat_alt) linarith
    then show ?thesis
      by cases (use assms in \<open>auto simp: Get_fixlen word_le_def\<close>)
  next
    case False
    then have "c \<in> {0xc0, 0xc1, 0xc2, 0xc3, 0xc4, 0xc5, 0xc6, 0xc7, 0xc8, 0xc9, 0xca, 0xcb, 0xcc, 0xcd,
      0xce, 0xcf, 0xd0, 0xd1, 0xd2, 0xd3, 0xd4, 0xd5, 0xd6, 0xd7, 0xd8, 0xd9, 0xda, 0xdb, 0xdc, 0xdd,
      0xde, 0xdf}"
      using byte_range_cases by blast
    then show ?thesis using assms by (elim insertE) auto
  qed
  then show "n \<le> 31" "\<not> b \<Longrightarrow> n \<le> 4" by auto
qed

subsection \<open>Properties\<close>

text \<open>
  C25. For every one of the 256 possible first bytes, the lookup tables that \<open>init\<close> builds
  classify it as the MessagePack specification does: same family, same number of value or length
  bytes, same kind of length.
\<close>

theorem Get_matches_specification: "Get c = format_of c"
  by (rule Get_format_of)

end
