(* ===== verification/Utils.thy ===== *)
theory Utils
  imports Types
begin

text \<open>
  \<open>pkg/msgpack/utils.go\<close>: integers from big-endian buffers and \<open>roundPow\<close>. The type parameter
  \<open>T\<close> is only ever instantiated with 64-bit types, so the results are \<open>64 word\<close>s; the
  conversion \<open>T(int16(...))\<close> is the sign extension \<open>scast\<close>. \<open>floatFromBuf\<close> is in the
  theory of floats.
\<close>

definition intFromBuf :: "bytes \<Rightarrow> u64 go" where
  "intFromBuf buf =
     (if length buf = 0 then Ret 0
      else if length buf = 1 then do { b \<leftarrow> go_index buf 0; Ret (scast b) }
      else if length buf = 2 then do { w \<leftarrow> uint16_be buf; Ret (scast w) }
      else if length buf = 4 then do { w \<leftarrow> uint32_be buf; Ret (scast w) }
      else if length buf = 8 then uint64_be buf
      else Ret 0)"

definition uintFromBuf :: "bytes \<Rightarrow> u64 go" where
  "uintFromBuf buf =
     (if length buf = 0 then Ret 0
      else if length buf = 1 then do { b \<leftarrow> go_index buf 0; Ret (ucast b) }
      else if length buf = 2 then do { w \<leftarrow> uint16_be buf; Ret (ucast w) }
      else if length buf = 4 then do { w \<leftarrow> uint32_be buf; Ret (ucast w) }
      else if length buf = 8 then uint64_be buf
      else Ret 0)"

text \<open>A Go \<open>int\<close> is a 64-bit signed word here, since the function relies on its bits.\<close>

definition roundPow :: "u64 \<Rightarrow> u64" where
  "roundPow n =
     (if sint n \<le> 1 then 1
      else let n = n - 1;
               n = n OR signed_drop_bit 1 n;
               n = n OR signed_drop_bit 2 n;
               n = n OR signed_drop_bit 4 n;
               n = n OR signed_drop_bit 8 n;
               n = n OR signed_drop_bit 16 n
           in n + 1)"

lemma uint16_be_total: "length buf = 2 \<Longrightarrow> \<exists>w. uint16_be buf = Ret w"
  by (cases buf rule: uint16_be.cases) (auto simp: be_eval)

lemma uint32_be_total: "length buf = 4 \<Longrightarrow> \<exists>w. uint32_be buf = Ret w"
  by (cases buf rule: uint32_be.cases) (auto simp: be_eval)

lemma uint64_be_total: "length buf = 8 \<Longrightarrow> \<exists>w. uint64_be buf = Ret w"
  by (cases buf rule: uint64_be.cases) (auto simp: be_eval)

lemma intFromBuf_total: "\<exists>v. intFromBuf buf = Ret v"
  using uint16_be_total [of buf] uint32_be_total [of buf] uint64_be_total [of buf]
  by (auto simp: intFromBuf_def go_index_def)

lemma uintFromBuf_total: "\<exists>v. uintFromBuf buf = Ret v"
  using uint16_be_total [of buf] uint32_be_total [of buf] uint64_be_total [of buf]
  by (auto simp: uintFromBuf_def go_index_def)

lemma FromBuf_not_None [simp]: "intFromBuf buf \<noteq> Panic" "uintFromBuf buf \<noteq> Panic"
  using intFromBuf_total [of buf] uintFromBuf_total [of buf] by auto

lemma intFromBuf_simps [be_simps]:
  "intFromBuf [] = Ret 0"
  "intFromBuf [b] = Ret (scast b)"
  "intFromBuf [byte_at 8 w16, byte_at 0 w16] = Ret (scast (w16 :: 16 word))"
  "intFromBuf [byte_at 24 w32, byte_at 16 w32, byte_at 8 w32, byte_at 0 w32] = Ret (scast (w32 :: u32))"
  "intFromBuf [byte_at 56 w, byte_at 48 w, byte_at 40 w, byte_at 32 w, byte_at 24 w, byte_at 16 w,
     byte_at 8 w, byte_at 0 w] = Ret (w :: u64)"
  by (simp_all add: intFromBuf_def be_simps)

lemma uintFromBuf_simps [be_simps]:
  "uintFromBuf [] = Ret 0"
  "uintFromBuf [b] = Ret (ucast b)"
  "uintFromBuf [byte_at 8 w16, byte_at 0 w16] = Ret (ucast (w16 :: 16 word))"
  "uintFromBuf [byte_at 24 w32, byte_at 16 w32, byte_at 8 w32, byte_at 0 w32] = Ret (ucast (w32 :: u32))"
  "uintFromBuf [byte_at 56 w, byte_at 48 w, byte_at 40 w, byte_at 32 w, byte_at 24 w, byte_at 16 w,
     byte_at 8 w, byte_at 0 w] = Ret (w :: u64)"
  by (simp_all add: uintFromBuf_def be_simps)

lemma FromBuf_bytes [be_simps]:
  fixes v :: u64
  shows "uintFromBuf [byte_at 0 v] = Ret (take_bit 8 v)"
    "uintFromBuf [byte_at 8 v, byte_at 0 v] = Ret (take_bit 16 v)"
    "uintFromBuf [byte_at 24 v, byte_at 16 v, byte_at 8 v, byte_at 0 v] = Ret (take_bit 32 v)"
    "intFromBuf [byte_at 0 v] = Ret (signed_take_bit 7 v)"
    "intFromBuf [byte_at 8 v, byte_at 0 v] = Ret (signed_take_bit 15 v)"
    "intFromBuf [byte_at 24 v, byte_at 16 v, byte_at 8 v, byte_at 0 v] = Ret (signed_take_bit 31 v)"
  using intFromBuf_simps(3) [of "ucast v"] uintFromBuf_simps(3) [of "ucast v"]
    intFromBuf_simps(4) [of "ucast v"] uintFromBuf_simps(4) [of "ucast v"]
    intFromBuf_simps(2) [of "byte_at 0 v"] uintFromBuf_simps(2) [of "byte_at 0 v"]
  by (simp_all add: byte_at_ucast cast_cast_bits cast_byte_at_0)

text \<open>Facts that show a reader free of panics.\<close>

lemmas no_panic_simps = Let_def go_index_Some go_slice_Some Get_len_nonneg bind_eq_None_conv

lemma uintFromBuf_length:
  fixes l :: int
  assumes "0 \<le> l"
  shows "l < 2 ^ 8 \<Longrightarrow> uintFromBuf [ibyte_at 0 l] = Ret (word_of_int l)"
    and "l < 2 ^ 16 \<Longrightarrow> uintFromBuf [ibyte_at 8 l, ibyte_at 0 l] = Ret (word_of_int l)"
    and "l < 2 ^ 32 \<Longrightarrow> uintFromBuf [ibyte_at 24 l, ibyte_at 16 l, ibyte_at 8 l, ibyte_at 0 l] =
      Ret (word_of_int l)"
  using assms
  by (simp_all add: ibyte_at_word [where 'a = 64] FromBuf_bytes take_bit_word_of_int)

lemma intFromBuf_length:
  fixes l :: int
  assumes "0 \<le> l"
  shows "l < 2 ^ 8 \<Longrightarrow> intFromBuf [ibyte_at 0 l] = Ret (word_of_int (if l < 2 ^ 7 then l else l - 2 ^ 8))"
    and "l < 2 ^ 16 \<Longrightarrow> intFromBuf [ibyte_at 8 l, ibyte_at 0 l] = Ret (word_of_int (if l < 2 ^ 15 then l else l - 2 ^ 16))"
    and "l < 2 ^ 32 \<Longrightarrow> intFromBuf [ibyte_at 24 l, ibyte_at 16 l, ibyte_at 8 l, ibyte_at 0 l] =
      Ret (word_of_int (if l < 2 ^ 31 then l else l - 2 ^ 32))"
  using assms signed_take_bit_wrap [of l 7] signed_take_bit_wrap [of l 15] signed_take_bit_wrap [of l 31]
  by (simp_all add: ibyte_at_word [where 'a = 64] FromBuf_bytes signed_take_bit_word_of_int)

lemma uintFromBuf_small:
  assumes "uintFromBuf bs = Ret v" and "length bs \<le> 4"
  shows "0 \<le> sint v \<and> sint v < 2 ^ 32"
proof -
  have "uint (b :: byte) < 2 ^ 32" "uint (h :: 16 word) < 2 ^ 32" "uint (w :: u32) < 2 ^ 32" for b h w
    using uint_ranges(1) [of b] uint_ranges(2) [of h] uint_ranges(3) [of w] by simp_all
  with assms show ?thesis
    by (auto simp: uintFromBuf_def bind_eq_Some_conv sint_ucast_up split: if_splits)
qed

end
