(* ===== verification/Codec.thy ===== *)
theory Codec
  imports Types
begin

text \<open>
  The contracts that the \<open>Append\<close> and \<open>Read\<close> functions of \<open>pkg/msgpack\<close> share, as locales
  that the theories of the single value families interpret on their own operations:

  \<^item> \<open>appender\<close>: the function only appends, and what it appends does not depend on \<open>dst\<close>;
  \<^item> \<open>codec\<close>: reading at the place where a valid value was appended returns that value and the
    offset just behind it, whatever stands before and after;
  \<^item> \<open>safe_reader\<close>: on any input and any offset that is not negative the reader does not panic,
    and when it succeeds it has advanced and stays inside the slice.

  From these follow the facts about whole sequences of values and about unambiguity.
\<close>

text \<open>Reading \<open>n\<close> values one after the other, as a client of a \<open>Read\<close> function does.\<close>

fun read_n :: "(bytes \<Rightarrow> int \<Rightarrow> ('a \<times> int \<times> err option) go) \<Rightarrow> nat \<Rightarrow> bytes \<Rightarrow> int \<Rightarrow>
    ('a list \<times> int \<times> err option) go" where
  "read_n read 0 src offset = Ret ([], offset, None)"
| "read_n read (Suc n) src offset = do {
     (v, offset', e) \<leftarrow> read src offset;
     if e \<noteq> None then Ret ([], offset', e)
     else do {
       (vs, offset'', e') \<leftarrow> read_n read n src offset';
       Ret (v # vs, offset'', e') } }"

locale appender =
  fixes app :: "bytes \<Rightarrow> 'a \<Rightarrow> bytes"
  assumes app_prefix: "app dst v = dst @ app [] v"
begin

lemma app_fold: "foldl app dst vs = dst @ concat (map (app []) vs)"
proof (induction vs arbitrary: dst)
  case (Cons v vs)
  then show ?case
    by (simp add: app_prefix [of dst])
qed simp

lemma app_length: "length (app dst v) = length dst + length (app [] v)"
  by (subst app_prefix) simp

end

locale codec = appender app
  for app :: "bytes \<Rightarrow> 'a \<Rightarrow> bytes" +
  fixes read :: "bytes \<Rightarrow> int \<Rightarrow> ('a \<times> int \<times> err option) go"
    and valid :: "'a \<Rightarrow> bool"
  assumes read_app: "valid v \<Longrightarrow>
      read (pre @ app [] v @ post) (len pre) = Ret (v, len pre + len (app [] v), None)"
begin

lemma read_app_end:
  assumes "valid v"
  shows "read (app dst v @ post) (len dst) = Ret (v, len (app dst v), None)"
  using read_app [OF assms, of dst post] app_prefix [of dst v] by simp

lemma read_n_app:
  assumes "\<forall>v \<in> set vs. valid v"
  shows "read_n read (length vs) (foldl app dst vs @ post) (len dst) =
    Ret (vs, len (foldl app dst vs), None)"
  using assms
proof (induction vs arbitrary: dst)
  case (Cons v vs)
  have "read (dst @ app [] v @ concat (map (app []) vs) @ post) (len dst) =
      Ret (v, len (app dst v), None)"
    using Cons.prems by (simp add: read_app app_length [of dst])
  moreover have "foldl app (app dst v) vs @ post = dst @ app [] v @ concat (map (app []) vs) @ post"
    by (simp add: app_fold app_prefix [of dst])
  ultimately show ?case
    using Cons.IH [of "app dst v"] Cons.prems by simp
qed simp

text \<open>No encoding of a valid value is a prefix of the encoding of another one.\<close>

lemma prefix_free:
  assumes "valid v" and "valid w" and eq: "app [] v @ xs = app [] w @ ys"
  shows "v = w \<and> xs = ys"
proof -
  have "read (app [] v @ xs) 0 = Ret (v, len (app [] v), None)"
    using read_app [of v "[]" xs] assms(1) by simp
  moreover have "read (app [] v @ xs) 0 = Ret (w, len (app [] w), None)"
    using read_app [of w "[]" ys] assms(2) eq by simp
  ultimately have "v = w" by simp
  with eq show ?thesis by simp
qed

end

locale safe_reader =
  fixes read :: "bytes \<Rightarrow> int \<Rightarrow> ('a \<times> int \<times> err option) go"
  assumes no_panic: "0 \<le> offset \<Longrightarrow> read src offset \<noteq> Panic"
    and advances: "0 \<le> offset \<Longrightarrow> read src offset = Ret (v, offset', None) \<Longrightarrow>
      offset < offset' \<and> offset' \<le> len src"
begin

lemma read_n_no_panic: "0 \<le> offset \<Longrightarrow> read_n read n src offset \<noteq> Panic"
proof (induction n arbitrary: offset)
  case (Suc n)
  obtain v offset' e where r: "read src offset = Ret (v, offset', e)"
    using no_panic [OF Suc.prems, of src] by auto
  show ?case
  proof (cases e)
    case None
    then have "0 \<le> offset'"
      using advances [OF Suc.prems, of src v offset'] Suc.prems r by simp
    then have "read_n read n src offset' \<noteq> Panic" by (rule Suc.IH)
    with r None show ?thesis by auto
  qed (simp add: r)
qed simp

lemma read_n_bounds:
  "0 \<le> offset \<Longrightarrow> read_n read n src offset = Ret (vs, offset', None) \<Longrightarrow>
    length vs = n \<and> offset + int n \<le> offset' \<and> (n \<noteq> 0 \<longrightarrow> offset' \<le> len src)"
proof (induction n arbitrary: offset vs)
  case (Suc n)
  from Suc.prems(2) obtain v o1 vs' where r: "read src offset = Ret (v, o1, None)"
    and r': "read_n read n src o1 = Ret (vs', offset', None)" and vs: "vs = v # vs'"
    by (auto simp: bind_eq_Some_conv split: if_splits)
  from advances [OF Suc.prems(1) r] have o1: "offset < o1" "o1 \<le> len src" by auto
  with Suc.IH [OF _ r'] Suc.prems(1) vs show ?case
    by (cases n) (use r' in auto)
qed auto

end

locale safe_codec = codec app read valid + safe_reader read
  for app :: "bytes \<Rightarrow> 'a \<Rightarrow> bytes"
    and read :: "bytes \<Rightarrow> int \<Rightarrow> ('a \<times> int \<times> err option) go"
    and valid :: "'a \<Rightarrow> bool"

end
