(* ===== verification/Integer.thy ===== *)
theory Integer
  imports Utils Codec
begin

text \<open>
  \<open>pkg/msgpack/integer.go\<close>: reading and appending MessagePack integers. An \<open>int64\<close> and a
  \<open>uint64\<close> are both \<open>64 word\<close>; the comparisons of the code are on \<open>sint\<close> and on the
  unsigned order. The readers return the three results of the Go functions, also on error.
\<close>

definition ReadInt :: "bytes \<Rightarrow> int \<Rightarrow> (u64 \<times> int \<times> err option) go" where
  "ReadInt src offset =
     (if offset \<ge> len src then Ret (0, offset, Some ErrShortBuffer)
      else do {
        c \<leftarrow> go_index src offset;
        let (typ, length, isValueLength) = Get c;
        let newOffset = offset + 1;
        if typ = IntT then
          (if isValueLength \<and> length = 0 then
             (if c \<ge> 0xe0 then do { v \<leftarrow> intFromBuf [c]; Ret (v, newOffset, None) }
              else Ret (0, offset, Some (UnexpectedFixint IntT c)))
           else if newOffset + length > len src then Ret (0, offset, Some ErrShortBuffer)
           else do {
             buf \<leftarrow> go_slice src newOffset (newOffset + length);
             value \<leftarrow> intFromBuf buf;
             Ret (value, newOffset + length, None) })
        else if typ = UintT then
          (if isValueLength \<and> length = 0 then
             (if c \<le> 0x7f then do {
                buf \<leftarrow> go_slice src offset (offset + 1);
                v \<leftarrow> intFromBuf buf;
                Ret (v, newOffset, None) }
              else Ret (0, offset, Some (UnexpectedFixint UintT c)))
           else if newOffset + length > len src then Ret (0, offset, Some ErrShortBuffer)
           else do {
             buf \<leftarrow> go_slice src newOffset (newOffset + length);
             uintVal \<leftarrow> uintFromBuf buf;
             if uintVal > 0x7fffffffffffffff then Ret (0, offset, Some (OverflowsInt64 uintVal))
             else Ret (uintVal, newOffset + length, None) })
        else Ret (0, offset, Some (InvalidIntHeader c)) })"

definition ReadUint :: "bytes \<Rightarrow> int \<Rightarrow> (u64 \<times> int \<times> err option) go" where
  "ReadUint src offset =
     (if offset \<ge> len src then Ret (0, offset, Some ErrShortBuffer)
      else do {
        c \<leftarrow> go_index src offset;
        let (typ, length, isValueLength) = Get c;
        let newOffset = offset + 1;
        if typ \<noteq> UintT then Ret (0, offset, Some (InvalidUintHeader c))
        else if isValueLength \<and> length = 0 then
          (if c \<le> 0x7f then do {
             buf \<leftarrow> go_slice src offset (offset + 1);
             v \<leftarrow> uintFromBuf buf;
             Ret (v, newOffset, None) }
           else Ret (0, offset, Some (UnexpectedFixint UintT c)))
        else if newOffset + length > len src then Ret (0, offset, Some ErrShortBuffer)
        else do {
          buf \<leftarrow> go_slice src newOffset (newOffset + length);
          value \<leftarrow> uintFromBuf buf;
          Ret (value, newOffset + length, None) } })"

definition AppendUint :: "bytes \<Rightarrow> u64 \<Rightarrow> bytes" where
  "AppendUint buf value =
     (if value \<le> 127 then buf @ [byte_at 0 value]
      else if value \<le> 255 then (buf @ [0xcc]) @ [byte_at 0 value]
      else if value \<le> 65535 then (buf @ [0xcd]) @ [byte_at 8 value, byte_at 0 value]
      else if value \<le> 4294967295 then
        (buf @ [0xce]) @ [byte_at 24 value, byte_at 16 value, byte_at 8 value, byte_at 0 value]
      else (buf @ [0xcf]) @ [byte_at 56 value, byte_at 48 value, byte_at 40 value, byte_at 32 value,
        byte_at 24 value, byte_at 16 value, byte_at 8 value, byte_at 0 value])"

definition AppendInt :: "bytes \<Rightarrow> u64 \<Rightarrow> bytes" where
  "AppendInt buf value =
     (if sint value \<ge> 0 then AppendUint buf value
      else if sint value \<ge> -32 then buf @ [sbyte_at 0 value]
      else if sint value \<ge> -128 then (buf @ [0xd0]) @ [sbyte_at 0 value]
      else if sint value \<ge> -32768 then (buf @ [0xd1]) @ [sbyte_at 8 value, sbyte_at 0 value]
      else if sint value \<ge> -2147483648 then
        (buf @ [0xd2]) @ [sbyte_at 24 value, sbyte_at 16 value, sbyte_at 8 value, sbyte_at 0 value]
      else (buf @ [0xd3]) @ [sbyte_at 56 value, sbyte_at 48 value, sbyte_at 40 value,
        sbyte_at 32 value, sbyte_at 24 value, sbyte_at 16 value, sbyte_at 8 value, sbyte_at 0 value])"

text \<open>
  \<open>readIntUnsafe[T]\<close> for \<open>T\<close> one of \<open>int64\<close> and \<open>uint64\<close>: the conversions to \<open>T\<close> keep the
  64 bits.
\<close>

definition readIntUnsafe :: "byte \<Rightarrow> bytes \<Rightarrow> u64 go" where
  "readIntUnsafe c src =
     (case Get c of (typ, _, _) \<Rightarrow>
        if typ = IntT then (if c \<ge> 0xe0 then Ret (scast c) else intFromBuf src)
        else if typ = UintT then (if c \<le> 0x7f then Ret (scast c) else uintFromBuf src)
        else Ret 0)"

subsection \<open>What the readers make of each kind of header\<close>

lemma AppendUint_prefix: "AppendUint dst v = dst @ AppendUint [] v"
  by (simp add: AppendUint_def)

lemma AppendInt_prefix: "AppendInt dst v = dst @ AppendInt [] v"
  by (simp add: AppendInt_def AppendUint_prefix [of dst])

lemma ReadUint_body:
  assumes "Get c = (UintT, n, True)" and "0 < n" and "n = len bs"
  shows "ReadUint (pre @ c # bs @ post) (len pre) =
    do { v \<leftarrow> uintFromBuf bs; Ret (v, len pre + 1 + n, None) }"
  using assms by (simp add: ReadUint_def go_simps)

lemma ReadUint_fixint:
  assumes "c \<le> 0x7f"
  shows "ReadUint (pre @ c # post) (len pre) = Ret (ucast c, len pre + 1, None)"
  using assms by (simp add: ReadUint_def go_simps be_simps)

lemma ReadUint_ns:
  "Get c = (UintT, 1, True) \<Longrightarrow> ReadUint (pre @ c # b0 # post) (len pre) =
     do { v \<leftarrow> uintFromBuf [b0]; Ret (v, len pre + 2, None) }"
  "Get c = (UintT, 2, True) \<Longrightarrow> ReadUint (pre @ c # b0 # b1 # post) (len pre) =
     do { v \<leftarrow> uintFromBuf [b0, b1]; Ret (v, len pre + 3, None) }"
  "Get c = (UintT, 4, True) \<Longrightarrow> ReadUint (pre @ c # b0 # b1 # b2 # b3 # post) (len pre) =
     do { v \<leftarrow> uintFromBuf [b0, b1, b2, b3]; Ret (v, len pre + 5, None) }"
  "Get c = (UintT, 8, True) \<Longrightarrow> ReadUint (pre @ c # b0 # b1 # b2 # b3 # b4 # b5 # b6 # b7 # post) (len pre) =
     do { v \<leftarrow> uintFromBuf [b0, b1, b2, b3, b4, b5, b6, b7]; Ret (v, len pre + 9, None) }"
  using ReadUint_body [of c _ "[b0]"] ReadUint_body [of c _ "[b0, b1]"]
    ReadUint_body [of c _ "[b0, b1, b2, b3]"]
    ReadUint_body [of c _ "[b0, b1, b2, b3, b4, b5, b6, b7]"] by (simp_all add: add.assoc)

lemma ReadUint_AppendUint:
  "ReadUint (pre @ AppendUint [] v @ post) (len pre) = Ret (v, len pre + len (AppendUint [] v), None)"
  by (simp add: AppendUint_def ReadUint_ns ReadUint_fixint be_simps take_bit_selfs byte_at_0_le cast_byte_at_0)

lemma ReadInt_uint_body:
  assumes "Get c = (UintT, n, True)" and "0 < n" and "n = len bs"
  shows "ReadInt (pre @ c # bs @ post) (len pre) =
    do { v \<leftarrow> uintFromBuf bs;
         if v > 0x7fffffffffffffff then Ret (0, len pre, Some (OverflowsInt64 v))
         else Ret (v, len pre + 1 + n, None) }"
  using assms(1,2) unfolding assms(3) by (simp add: ReadInt_def go_simps)

lemma ReadInt_int_body:
  assumes "Get c = (IntT, n, True)" and "0 < n" and "n = len bs"
  shows "ReadInt (pre @ c # bs @ post) (len pre) =
    do { v \<leftarrow> intFromBuf bs; Ret (v, len pre + 1 + n, None) }"
  using assms by (simp add: ReadInt_def go_simps)

lemma ReadInt_fixint:
  "c \<le> 0x7f \<Longrightarrow> ReadInt (pre @ c # post) (len pre) = Ret (scast c, len pre + 1, None)"
  "0xe0 \<le> c \<Longrightarrow> ReadInt (pre @ c # post) (len pre) = Ret (scast c, len pre + 1, None)"
  by (simp_all add: ReadInt_def go_simps be_simps)

lemma ReadInt_uint_ns:
  "Get c = (UintT, 1, True) \<Longrightarrow> ReadInt (pre @ c # b0 # post) (len pre) =
     do { v \<leftarrow> uintFromBuf [b0]; if v > 0x7fffffffffffffff then Ret (0, len pre, Some (OverflowsInt64 v))
       else Ret (v, len pre + 1 + 1, None) }"
  "Get c = (UintT, 2, True) \<Longrightarrow> ReadInt (pre @ c # b0 # b1 # post) (len pre) =
     do { v \<leftarrow> uintFromBuf [b0, b1]; if v > 0x7fffffffffffffff then Ret (0, len pre, Some (OverflowsInt64 v))
       else Ret (v, len pre + 1 + 2, None) }"
  "Get c = (UintT, 4, True) \<Longrightarrow> ReadInt (pre @ c # b0 # b1 # b2 # b3 # post) (len pre) =
     do { v \<leftarrow> uintFromBuf [b0, b1, b2, b3]; if v > 0x7fffffffffffffff then Ret (0, len pre, Some (OverflowsInt64 v))
       else Ret (v, len pre + 1 + 4, None) }"
  "Get c = (UintT, 8, True) \<Longrightarrow> ReadInt (pre @ c # b0 # b1 # b2 # b3 # b4 # b5 # b6 # b7 # post) (len pre) =
     do { v \<leftarrow> uintFromBuf [b0, b1, b2, b3, b4, b5, b6, b7]; if v > 0x7fffffffffffffff then Ret (0, len pre, Some (OverflowsInt64 v))
       else Ret (v, len pre + 1 + 8, None) }"
  using ReadInt_uint_body [of c _ "[b0]"] ReadInt_uint_body [of c _ "[b0, b1]"]
    ReadInt_uint_body [of c _ "[b0, b1, b2, b3]"]
    ReadInt_uint_body [of c _ "[b0, b1, b2, b3, b4, b5, b6, b7]"] by (simp_all add: add.assoc)

lemma ReadInt_int_ns:
  "Get c = (IntT, 1, True) \<Longrightarrow> ReadInt (pre @ c # b0 # post) (len pre) =
     do { v \<leftarrow> intFromBuf [b0]; Ret (v, len pre + 2, None) }"
  "Get c = (IntT, 2, True) \<Longrightarrow> ReadInt (pre @ c # b0 # b1 # post) (len pre) =
     do { v \<leftarrow> intFromBuf [b0, b1]; Ret (v, len pre + 3, None) }"
  "Get c = (IntT, 4, True) \<Longrightarrow> ReadInt (pre @ c # b0 # b1 # b2 # b3 # post) (len pre) =
     do { v \<leftarrow> intFromBuf [b0, b1, b2, b3]; Ret (v, len pre + 5, None) }"
  "Get c = (IntT, 8, True) \<Longrightarrow> ReadInt (pre @ c # b0 # b1 # b2 # b3 # b4 # b5 # b6 # b7 # post) (len pre) =
     do { v \<leftarrow> intFromBuf [b0, b1, b2, b3, b4, b5, b6, b7]; Ret (v, len pre + 9, None) }"
  using ReadInt_int_body [of c _ "[b0]"] ReadInt_int_body [of c _ "[b0, b1]"]
    ReadInt_int_body [of c _ "[b0, b1, b2, b3]"]
    ReadInt_int_body [of c _ "[b0, b1, b2, b3, b4, b5, b6, b7]"] by (simp_all add: add.assoc)

lemma ReadInt_AppendUint:
  assumes "0 \<le> sint v"
  shows "ReadInt (pre @ AppendUint [] v @ post) (len pre) = Ret (v, len pre + len (AppendUint [] v), None)"
proof -
  have "\<not> 0x7fffffffffffffff < v"
    using assms by (simp add: sint_nonneg_iff not_less)
  then show ?thesis
    by (simp add: AppendUint_def ReadInt_uint_ns ReadInt_fixint be_simps take_bit_selfs
        byte_at_0_le cast_byte_at_0 small_sint)
qed

lemma ReadInt_AppendInt:
  "ReadInt (pre @ AppendInt [] v @ post) (len pre) = Ret (v, len pre + len (AppendInt [] v), None)"
  by (simp add: AppendInt_def ReadInt_AppendUint ReadInt_int_ns ReadInt_fixint be_simps byte_at_0_ge
    sbyte_at_byte_at signed_take_bit_self cast_byte_at_0)

subsection \<open>Safety and compactness\<close>

lemma ReadUint_no_panic: "0 \<le> offset \<Longrightarrow> ReadUint src offset \<noteq> None"
  by (auto simp: ReadUint_def no_panic_simps simp del: not_None_eq split: prod.split)

lemma ReadInt_no_panic: "0 \<le> offset \<Longrightarrow> ReadInt src offset \<noteq> None"
  by (auto simp: ReadInt_def no_panic_simps simp del: not_None_eq split: prod.split)

lemma ReadUint_advances:
  assumes "0 \<le> offset" and "ReadUint src offset = Ret (v, offset', None)"
  shows "offset < offset' \<and> offset' \<le> len src"
  using assms
  by (auto simp: ReadUint_def Let_def go_index_Some bind_eq_Some_conv dest: Get_len_nonneg split: prod.splits if_splits)

lemma ReadInt_advances:
  assumes "0 \<le> offset" and "ReadInt src offset = Ret (v, offset', None)"
  shows "offset < offset' \<and> offset' \<le> len src"
  using assms
  by (auto simp: ReadInt_def Let_def go_index_Some bind_eq_Some_conv dest: Get_len_nonneg split: prod.splits if_splits)

lemma length_AppendUint:
  "length (AppendUint [] v) \<le> 9" "uint v < 2 ^ 32 \<Longrightarrow> length (AppendUint [] v) \<le> 5"
  "uint v < 2 ^ 16 \<Longrightarrow> length (AppendUint [] v) \<le> 3" "uint v < 2 ^ 8 \<Longrightarrow> length (AppendUint [] v) \<le> 2"
  "uint v < 2 ^ 7 \<Longrightarrow> length (AppendUint [] v) = 1"
  by (auto simp: AppendUint_def word_le_def)

lemma length_AppendInt:
  "length (AppendInt [] v) \<le> 9"
  "- (2 ^ 31) \<le> sint v \<Longrightarrow> sint v < 2 ^ 32 \<Longrightarrow> length (AppendInt [] v) \<le> 5"
  "- (2 ^ 15) \<le> sint v \<Longrightarrow> sint v < 2 ^ 16 \<Longrightarrow> length (AppendInt [] v) \<le> 3"
  "- (2 ^ 7) \<le> sint v \<Longrightarrow> sint v < 2 ^ 8 \<Longrightarrow> length (AppendInt [] v) \<le> 2"
  "- (2 ^ 5) \<le> sint v \<Longrightarrow> sint v < 2 ^ 7 \<Longrightarrow> length (AppendInt [] v) = 1"
  using sint_uint_cases [of v] length_AppendUint [of v]
  by (auto simp: AppendInt_def)

lemma length_AppendInt_0: "length (AppendInt [] 0) = 1"
  by (simp add: AppendInt_def AppendUint_def)

lemma length_AppendInt_intFromBuf:
  assumes "intFromBuf bs = Ret v" and "bs \<noteq> []"
  shows "length (AppendInt [] v) \<le> 1 + length bs"
proof -
  have b: "length (AppendInt [] (scast (b :: byte))) \<le> 2" for b
    using sint_ranges(1,2) [of b] by (intro length_AppendInt(4)) (simp_all add: sint_scast_up)
  have h: "length (AppendInt [] (scast (h :: 16 word))) \<le> 3" for h
    using sint_ranges(3,4) [of h] by (intro length_AppendInt(3)) (simp_all add: sint_scast_up)
  have w: "length (AppendInt [] (scast (w :: u32))) \<le> 5" for w
    using sint_ranges(5,6) [of w] by (intro length_AppendInt(2)) (simp_all add: sint_scast_up)
  show ?thesis
    using assms b h w length_AppendInt(1) [of v]
    by (auto simp: intFromBuf_def bind_eq_Some_conv length_AppendInt_0 numeral_2_eq_2 numeral_3_eq_3
        split: if_splits)
qed

lemma length_AppendInt_uintFromBuf:
  assumes "uintFromBuf bs = Ret v" and "bs \<noteq> []"
  shows "length (AppendInt [] v) \<le> 1 + length bs"
proof -
  have b: "length (AppendInt [] (ucast (b :: byte))) \<le> 2" for b
    using uint_ranges(1) [of b] by (intro length_AppendInt(4)) (simp_all add: sint_ucast_up order.trans [of _ 0])
  have h: "length (AppendInt [] (ucast (h :: 16 word))) \<le> 3" for h
    using uint_ranges(2) [of h] by (intro length_AppendInt(3)) (simp_all add: sint_ucast_up order.trans [of _ 0])
  have w: "length (AppendInt [] (ucast (w :: u32))) \<le> 5" for w
    using uint_ranges(3) [of w] by (intro length_AppendInt(2)) (simp_all add: sint_ucast_up order.trans [of _ 0])
  show ?thesis
    using assms b h w length_AppendInt(1) [of v]
    by (auto simp: uintFromBuf_def bind_eq_Some_conv length_AppendInt_0 numeral_2_eq_2 numeral_3_eq_3
        split: if_splits)
qed

lemma length_AppendInt_fixint:
  assumes "c \<le> 0x7f \<or> 0xe0 \<le> c"
  shows "length (AppendInt [] (scast (c :: byte))) = 1"
  using sint_fixint [OF assms] sint_ranges(2) [of c]
  by (intro length_AppendInt(5)) (simp_all add: sint_scast_up)

lemma ReadInt_not_shorter:
  assumes "0 \<le> offset" and "ReadInt src offset = Ret (v, offset', None)"
  shows "len (AppendInt [] v) \<le> offset' - offset"
proof -
  have 1: "len (AppendInt [] v) \<le> 1 + n" 
    if "intFromBuf (take (nat n) bs) = Ret v \<or> uintFromBuf (take (nat n) bs) = Ret v" "n \<noteq> 0" "n \<le> len bs" "0 \<le> n" for n bs
    using that length_AppendInt_intFromBuf [of "take (nat n) bs" v] length_AppendInt_uintFromBuf [of "take (nat n) bs" v]
    by (cases bs) auto
  have 2: "take (Suc 0) (drop k src) = [src ! k]" if "k < length src" for k
    using that by (simp add: take_Suc_conv_app_nth hd_drop_conv_nth)
  have 3: "Get c = (IntT, n, b) \<Longrightarrow> b" "Get c = (UintT, n, b) \<Longrightarrow> b" for c n b
    by (auto simp: Get_format_of format_of_def split: if_splits)
  show ?thesis
    using assms Get_len_nonneg [of "src ! nat offset"] 3 [of "src ! nat offset"] 1 [of _ "drop (nat (offset + 1)) src"]
    by (auto simp: ReadInt_def Let_def go_index_Some go_slice_Some bind_eq_Some_conv 2 be_simps length_AppendInt_fixint
      split: prod.splits if_splits)
qed

lemma ReadInt_header:
  assumes "0 \<le> offset" and "ReadInt src offset = Ret (v, offset', None)"
  obtains c t n where "go_index src offset = Ret c" "Get c = (t, n, True)" "t = IntT \<or> t = UintT"
    "offset + 1 + n \<le> len src" "offset < len src"
proof -
  have lt: "offset < len src" using assms by (auto simp: ReadInt_def split: if_splits)
  obtain c where c: "go_index src offset = Ret c" using lt assms(1) by (simp add: go_index_def)
  obtain t n b where g: "Get c = (t, n, b)" by (metis prod_cases3)
  have ty: "t = IntT \<or> t = UintT"
    using assms(2) lt c g by (auto simp: ReadInt_def Let_def split: if_splits)
  then have b: "b" using g by (auto simp: Get_format_of format_of_def split: if_splits)
  have "offset + 1 + n \<le> len src"
    using assms(2) lt c g ty b Get_len_nonneg [OF g] by (auto simp: ReadInt_def Let_def split: if_splits)
  with c g ty b lt show thesis by (intro that) auto
qed

lemma Get_int_kind:
  "Get c = (IntT, n, b) \<Longrightarrow> b \<and> (n = 0 \<longleftrightarrow> 0xe0 \<le> c)"
  "Get c = (UintT, n, b) \<Longrightarrow> b \<and> (n = 0 \<longleftrightarrow> c \<le> 0x7f)"
  by (auto simp: Get_format_of format_of_def word_le_nat_alt split: if_splits)

lemma readIntUnsafe_ReadInt:
  assumes "0 \<le> offset" and "ReadInt src offset = Ret (v, offset', None)"
  shows "readIntUnsafe (src ! nat offset) (take (nat (offset' - offset - 1)) (drop (nat (offset + 1)) src)) = Ret v"
proof -
  let ?c = "src ! nat offset"
  obtain t n where g: "Get ?c = (t, n, True)" and ty: "t = IntT \<or> t = UintT"
    and c: "go_index src offset = Ret ?c" and lt: "offset < len src" and n: "offset + 1 + n \<le> len src"
    using ReadInt_header [OF assms] assms(1) by (metis go_index_Some option.inject)
  have one: "take (Suc 0) (drop (nat offset) src) = [?c]"
    using lt assms(1) by (simp add: take_Suc_conv_app_nth)
  note n0 = Get_len_nonneg [OF g]
  note kind = Get_int_kind [of ?c n True]
  note defs = ReadInt_def readIntUnsafe_def Let_def bind_eq_Some_conv go_slice_def be_simps
  from ty show ?thesis
  proof
    assume t: "t = IntT"
    with kind(1) g have "n = 0 \<longleftrightarrow> 0xe0 \<le> ?c" by simp
    with assms lt c g t n n0 show ?thesis by (cases "n = 0") (auto simp: defs)
  next
    assume t: "t = UintT"
    with kind(2) g have "n = 0 \<longleftrightarrow> ?c \<le> 0x7f" by simp
    with assms lt c g t n n0 one show ?thesis by (cases "n = 0") (auto simp: defs split: if_splits)
  qed
qed

interpretation uint_codec: safe_codec AppendUint ReadUint "\<lambda>_. True"
  by unfold_locales
    (use AppendUint_prefix ReadUint_AppendUint ReadUint_no_panic ReadUint_advances in blast)+

interpretation int_codec: safe_codec AppendInt ReadInt "\<lambda>_. True"
  by unfold_locales
    (use AppendInt_prefix ReadInt_AppendInt ReadInt_no_panic ReadInt_advances in blast)+

subsection \<open>Properties\<close>

text \<open>
  Every \<open>int64\<close> that \<open>AppendInt\<close> appends is read back by \<open>ReadInt\<close> at the offset where it
  was appended, with the offset behind it and no error, whatever follows in the buffer. A list of
  integers appended one after the other is read back as that list.
\<close>

theorem AppendInt_ReadInt:
  "ReadInt (AppendInt dst v @ post) (len dst) = Ret (v, len (AppendInt dst v), None) \<and>
   read_n ReadInt (length vs) (foldl AppendInt dst vs @ post) (len dst) =
     Ret (vs, len (foldl AppendInt dst vs), None)"
  by (simp add: int_codec.read_app_end int_codec.read_n_app)

text \<open>
  The same for every \<open>uint64\<close> with \<open>AppendUint\<close> and \<open>ReadUint\<close>.
\<close>

theorem AppendUint_ReadUint:
  "ReadUint (AppendUint dst v @ post) (len dst) = Ret (v, len (AppendUint dst v), None) \<and>
   read_n ReadUint (length vs) (foldl AppendUint dst vs @ post) (len dst) =
     Ret (vs, len (foldl AppendUint dst vs), None)"
  by (simp add: uint_codec.read_app_end uint_codec.read_n_app)

text \<open>
  C26. \<open>AppendInt\<close> uses the most compact representation: whatever bytes \<open>ReadInt\<close> accepts as an
  integer, they are at least as many as \<open>AppendInt\<close> writes for that integer.
\<close>

theorem AppendInt_most_compact:
  assumes "0 \<le> offset" and "ReadInt src offset = Ret (v, offset', None)"
  shows "len (AppendInt [] v) \<le> offset' - offset"
  using assms by (rule ReadInt_not_shorter)

theorem AppendInt_most_compact_witness:
  "ReadInt [0xd1, 0x00, 0x05] 0 = Ret (5, 3, None) \<and> len (AppendInt [] 5) \<le> 3 - 0"
proof -
  have r: "ReadInt [0xd1, 0x00, 0x05] 0 = Ret (5, 3, None)"
    by (simp add: ReadInt_def go_slice_def intFromBuf_def be_eval)
  show ?thesis using r AppendInt_most_compact [OF _ r] by simp
qed

text \<open>
  On arbitrary bytes and any offset that is not negative, neither integer reader panics, and a
  successful read advances the offset and keeps it inside the slice.
\<close>

theorem integer_readers_safe:
  assumes "0 \<le> offset"
  shows "ReadInt src offset \<noteq> Panic \<and> ReadUint src offset \<noteq> Panic \<and>
    (\<forall>v offset'. ReadInt src offset = Ret (v, offset', None) \<longrightarrow> offset < offset' \<and> offset' \<le> len src) \<and>
    (\<forall>v offset'. ReadUint src offset = Ret (v, offset', None) \<longrightarrow> offset < offset' \<and> offset' \<le> len src)"
  using assms int_codec.no_panic int_codec.advances uint_codec.no_panic uint_codec.advances by blast

theorem integer_readers_safe_witness:
  "ReadInt [0xd3, 1] 0 \<noteq> Panic \<and> ReadUint [0xd3, 1] 0 \<noteq> Panic"
  using integer_readers_safe [of 0 "[0xd3, 1]"] by simp

end
