(* ===== verification/Scalars.thy ===== *)
theory Scalars
  imports Utils Codec
begin

text \<open>
  \<open>pkg/msgpack/nil.go\<close> and \<open>pkg/msgpack/boolean.go\<close>.
\<close>

definition AppendNil :: "bytes \<Rightarrow> bytes" where
  "AppendNil dst = dst @ [0xc0]"

definition ReadNil :: "bytes \<Rightarrow> int \<Rightarrow> (int \<times> err option) go" where
  "ReadNil src offset =
     (if offset \<ge> len src then Ret (offset, Some ErrShortBuffer)
      else do {
        c \<leftarrow> go_index src offset;
        if c \<noteq> 0xc0 then Ret (offset, Some (ExpectedNil c))
        else Ret (offset + 1, None) })"

definition AppendBool :: "bytes \<Rightarrow> bool \<Rightarrow> bytes" where
  "AppendBool dst b = (if b then dst @ [0xc3] else dst @ [0xc2])"

definition ReadBool :: "bytes \<Rightarrow> int \<Rightarrow> (bool \<times> int \<times> err option) go" where
  "ReadBool src offset =
     (if offset \<ge> len src then Ret (False, offset, Some ErrShortBuffer)
      else do {
        b \<leftarrow> go_index src offset;
        let offset = offset + 1;
        if b = 0xc2 then Ret (False, offset, None)
        else if b = 0xc3 then Ret (True, offset, None)
        else Ret (False, offset, Some (expectedType b BoolT)) })"

definition readBoolUnsafe :: "byte \<Rightarrow> bool" where
  "readBoolUnsafe c = (c = 0xc3)"

text \<open>\<open>ReadNil\<close> returns no value; as a codec its values are those of the unit type.\<close>

abbreviation read_unit :: "bytes \<Rightarrow> int \<Rightarrow> (unit \<times> int \<times> err option) go" where
  "read_unit src offset \<equiv> map_option (\<lambda>r. ((), r)) (ReadNil src offset)"

interpretation nil_codec: safe_codec "\<lambda>dst (_ :: unit). AppendNil dst" read_unit "\<lambda>_. True"
  by unfold_locales
    (auto simp: AppendNil_def ReadNil_def go_index_Some bind_eq_Some_conv split: if_splits)

interpretation bool_codec: safe_codec AppendBool ReadBool "\<lambda>_. True"
  by unfold_locales
    (auto simp: AppendBool_def ReadBool_def go_index_Some bind_eq_Some_conv Let_def split: if_splits)

subsection \<open>Properties\<close>

text \<open>
  A boolean and a nil are read back where they were appended, and \<open>readBoolUnsafe\<close>, which
  the iterator applies to the head byte, agrees with \<open>ReadBool\<close> on what \<open>AppendBool\<close> writes.
\<close>

theorem AppendBool_ReadBool:
  "ReadBool (AppendBool dst b @ post) (len dst) = Ret (b, len (AppendBool dst b), None) \<and>
   ReadNil (AppendNil dst @ post) (len dst) = Ret (len (AppendNil dst), None) \<and>
   AppendBool dst b = dst @ [hd (AppendBool [] b)] \<and> readBoolUnsafe (hd (AppendBool [] b)) = b"
  using bool_codec.read_app_end [of dst b post] nil_codec.read_app_end [where dst = dst and post = post]
  by (auto simp: AppendBool_def readBoolUnsafe_def)

end
