(* ===== verification/Headers.thy ===== *)
theory Headers
  imports Utils Codec
begin

text \<open>
  \<open>pkg/msgpack/array.go\<close> and \<open>pkg/msgpack/map.go\<close>: the headers of arrays and maps. The element
  count is a Go \<open>int\<close>; on a type error the readers return the count of the foreign header, since
  \<open>length\<close> is a named result.
\<close>

definition AppendArrayHeader :: "bytes \<Rightarrow> int \<Rightarrow> bytes" where
  "AppendArrayHeader dst n =
     (if n \<le> 15 then dst @ [0x90 OR ibyte_at 0 n]
      else if n \<le> 0xFFFF then dst @ [0xdc, ibyte_at 8 n, ibyte_at 0 n]
      else dst @ [0xdd, ibyte_at 24 n, ibyte_at 16 n, ibyte_at 8 n, ibyte_at 0 n])"

definition ReadArrayHeader :: "bytes \<Rightarrow> int \<Rightarrow> (int \<times> int \<times> err option) go" where
  "ReadArrayHeader src offset =
     (if offset \<ge> len src then Ret (0, 0, Some ErrShortBuffer)
      else do {
        c \<leftarrow> go_index src offset;
        let (typ, length, isValueLength) = Get c;
        if typ \<noteq> ArrayT then Ret (length, 0, Some (expectedType c ArrayT))
        else let offset = offset + 1 in
          if \<not> isValueLength then
            (if offset + length > len src then Ret (0, offset, Some ErrShortBuffer)
             else do {
               buf \<leftarrow> go_slice src offset (offset + length);
               n \<leftarrow> intFromBuf buf;
               Ret (sint n, offset + length, None) })
          else Ret (length, offset, None) })"

definition AppendMapHeader :: "bytes \<Rightarrow> int \<Rightarrow> bytes" where
  "AppendMapHeader dst n =
     (if n \<le> 15 then dst @ [0x80 OR ibyte_at 0 n]
      else if n \<le> 0xFFFF then dst @ [0xde, ibyte_at 8 n, ibyte_at 0 n]
      else dst @ [0xdf, ibyte_at 24 n, ibyte_at 16 n, ibyte_at 8 n, ibyte_at 0 n])"

definition ReadMapHeader :: "bytes \<Rightarrow> int \<Rightarrow> (int \<times> int \<times> err option) go" where
  "ReadMapHeader src offset =
     (if offset \<ge> len src then Ret (0, 0, Some ErrShortBuffer)
      else do {
        c \<leftarrow> go_index src offset;
        let (typ, length, isValueLength) = Get c;
        if typ \<noteq> MapT then Ret (length, 0, Some (expectedType c MapT))
        else let offset = offset + 1 in
          if \<not> isValueLength then
            (if offset + length > len src then Ret (0, offset, Some ErrShortBuffer)
             else do {
               buf \<leftarrow> go_slice src offset (offset + length);
               n \<leftarrow> intFromBuf buf;
               Ret (sint n, offset + length, None) })
          else Ret (length, offset, None) })"

text \<open>
  What the readers make of a count \<open>n\<close>: the length bytes of a 16-bit and of a 32-bit header are
  sign-extended.
\<close>

definition header_count :: "int \<Rightarrow> int" where
  "header_count n =
     (if n \<le> 15 then n
      else if n \<le> 0xFFFF then (if n < 2 ^ 15 then n else n - 2 ^ 16)
      else (if n < 2 ^ 31 then n else n - 2 ^ 32))"

definition header_valid :: "int \<Rightarrow> bool" where
  "header_valid n \<longleftrightarrow> 0 \<le> n \<and> n < 2 ^ 31 \<and> \<not> (2 ^ 15 \<le> n \<and> n < 2 ^ 16)"

lemma header_count_valid: "header_valid n \<Longrightarrow> header_count n = n"
  by (auto simp: header_valid_def header_count_def)

lemma AppendHeader_prefix:
  "AppendArrayHeader dst n = dst @ AppendArrayHeader [] n"
  "AppendMapHeader dst n = dst @ AppendMapHeader [] n"
  by (simp_all add: AppendArrayHeader_def AppendMapHeader_def)

lemma ReadArrayHeader_any:
  assumes "0 \<le> n" and "n < 2 ^ 32"
  shows "ReadArrayHeader (pre @ AppendArrayHeader [] n @ post) (len pre) =
    Ret (header_count n, len pre + len (AppendArrayHeader [] n), None)"
  using assms
  by (simp add: AppendArrayHeader_def ReadArrayHeader_def go_simps Get_fix_header intFromBuf_length
      sint_word_of_int header_count_def)

lemma ReadMapHeader_any:
  assumes "0 \<le> n" and "n < 2 ^ 32"
  shows "ReadMapHeader (pre @ AppendMapHeader [] n @ post) (len pre) =
    Ret (header_count n, len pre + len (AppendMapHeader [] n), None)"
  using assms
  by (simp add: AppendMapHeader_def ReadMapHeader_def go_simps Get_fix_header intFromBuf_length
      sint_word_of_int header_count_def)

lemma ReadHeader_no_panic:
  "0 \<le> offset \<Longrightarrow> ReadArrayHeader src offset \<noteq> Panic"
  "0 \<le> offset \<Longrightarrow> ReadMapHeader src offset \<noteq> Panic"
  by (auto simp: ReadArrayHeader_def ReadMapHeader_def no_panic_simps simp del: not_None_eq
      split: prod.split)

lemma ReadHeader_advances:
  assumes "0 \<le> offset"
  shows "ReadArrayHeader src offset = Ret (v, offset', None) \<Longrightarrow> offset < offset' \<and> offset' \<le> len src"
    and "ReadMapHeader src offset = Ret (v, offset', None) \<Longrightarrow> offset < offset' \<and> offset' \<le> len src"
  using assms
  by (auto simp: ReadArrayHeader_def ReadMapHeader_def Let_def go_index_Some bind_eq_Some_conv
      dest: Get_len_nonneg split: prod.splits if_splits)

interpretation array_codec: safe_codec AppendArrayHeader ReadArrayHeader header_valid
proof unfold_locales
  fix n pre post assume "header_valid n"
  then show "ReadArrayHeader (pre @ AppendArrayHeader [] n @ post) (len pre) =
      Ret (n, len pre + len (AppendArrayHeader [] n), None)"
    using ReadArrayHeader_any [of n pre post] header_count_valid [of n]
    by (auto simp: header_valid_def)
qed (use AppendHeader_prefix ReadHeader_no_panic ReadHeader_advances in blast)+

interpretation map_codec: safe_codec AppendMapHeader ReadMapHeader header_valid
proof unfold_locales
  fix n pre post assume "header_valid n"
  then show "ReadMapHeader (pre @ AppendMapHeader [] n @ post) (len pre) =
      Ret (n, len pre + len (AppendMapHeader [] n), None)"
    using ReadMapHeader_any [of n pre post] header_count_valid [of n]
    by (auto simp: header_valid_def)
qed (use AppendHeader_prefix ReadHeader_no_panic ReadHeader_advances in blast)+

subsection \<open>Properties\<close>

text \<open>
  A count below \<open>2 ^ 31\<close> that is not in the upper half of the 16-bit range is read back from an
  array header and from a map header, and the header readers do not panic on any bytes.
\<close>

theorem headers_roundtrip:
  assumes "header_valid n" and "0 \<le> offset"
  shows "ReadArrayHeader (AppendArrayHeader dst n @ post) (len dst) =
      Ret (n, len (AppendArrayHeader dst n), None) \<and>
    ReadMapHeader (AppendMapHeader dst n @ post) (len dst) =
      Ret (n, len (AppendMapHeader dst n), None) \<and>
    ReadArrayHeader src offset \<noteq> Panic \<and> ReadMapHeader src offset \<noteq> Panic"
  using array_codec.read_app_end [OF assms(1)] map_codec.read_app_end [OF assms(1)]
    array_codec.no_panic [OF assms(2)] map_codec.no_panic [OF assms(2)] by simp

theorem headers_roundtrip_witness:
  "header_valid 70000 \<and>
   ReadArrayHeader (AppendArrayHeader [1, 2] 70000 @ [7]) 2 =
     Ret (70000, len (AppendArrayHeader [1, 2] 70000), None)"
  using headers_roundtrip [of 70000 0 "[1, 2]" "[7]"] by (simp add: header_valid_def)

text \<open>
  A count of 32768 to 65535 elements does not survive the round trip: \<open>AppendArrayHeader\<close> and
  \<open>AppendMapHeader\<close> write it as a 16-bit header, and the readers sign-extend its length bytes, so
  they return the negative count \<open>n - 65536\<close> and no error.
\<close>

theorem headers_16_bit_negative:
  assumes "32768 \<le> n" and "n \<le> 65535"
  shows "ReadArrayHeader (AppendArrayHeader dst n @ post) (len dst) =
      Ret (n - 65536, len (AppendArrayHeader dst n), None) \<and>
    ReadMapHeader (AppendMapHeader dst n @ post) (len dst) =
      Ret (n - 65536, len (AppendMapHeader dst n), None)"
  using assms ReadArrayHeader_any [of n dst post] ReadMapHeader_any [of n dst post]
    AppendHeader_prefix [of dst n]
  by (simp add: header_count_def)

theorem headers_16_bit_negative_witness:
  "ReadArrayHeader (AppendArrayHeader [] 40000) 0 = Ret (- 25536, 3, None)"
  using headers_16_bit_negative [of 40000 "[]" "[]"] by (simp add: AppendArrayHeader_def)

end
