(* ===== verification/Strings.thy ===== *)
theory Strings
  imports Utils Codec
begin

text \<open>
  \<open>pkg/msgpack/string.go\<close> and \<open>pkg/msgpack/binary.go\<close>. \<open>ReadString\<close> and \<open>ReadBinary\<close> call each
  other once when they meet the other family. The functions that take a callback \<open>fn\<close> are modelled
  for any \<open>fn\<close>, also one that shortens the slice; the properties use the contract
  \<open>appends fn s\<close> of \<open>encoding.TextAppender\<close>, \<open>encoding.BinaryAppender\<close> and of the callbacks:
  \<open>fn\<close> appends the bytes \<open>s\<close> to its argument.
\<close>

definition appends :: "(bytes \<Rightarrow> bytes) \<Rightarrow> bytes \<Rightarrow> bool" where
  "appends fn s \<longleftrightarrow> (\<forall>dst. fn dst = dst @ s)"

text \<open>\<open>copy(xs[i:], ys)\<close>: as many elements as fit\<close>

definition go_copy :: "'a list \<Rightarrow> int \<Rightarrow> 'a list \<Rightarrow> 'a list go" where
  "go_copy xs i ys =
     (if 0 \<le> i \<and> i \<le> len xs
      then let n = min (length xs - nat i) (length ys)
           in Ret (take (nat i) xs @ take n ys @ drop (nat i + n) xs)
      else Panic)"

subsection \<open>Appending\<close>

definition AppendString :: "bytes \<Rightarrow> bytes \<Rightarrow> bytes" where
  "AppendString dst s =
     (let l = len s;
          dst = (if l \<le> 31 then dst @ [0xa0 OR ibyte_at 0 l]
            else if l \<le> 0xFF then dst @ [0xd9, ibyte_at 0 l]
            else if l \<le> 0xFFFF then dst @ [0xda, ibyte_at 8 l, ibyte_at 0 l]
            else dst @ [0xdb, ibyte_at 24 l, ibyte_at 16 l, ibyte_at 8 l, ibyte_at 0 l])
      in dst @ s)"

definition AppendStringUnknownLength :: "bytes \<Rightarrow> (bytes \<Rightarrow> bytes) \<Rightarrow> bytes go" where
  "AppendStringUnknownLength dst fn =
     (let start = len dst;
          dst = dst @ [0xdb, 0, 0, 0, 0];
          sizeFrom = len dst;
          dst = fn dst;
          sizeTo = len dst;
          l = sizeTo - sizeFrom
      in do {
        dst \<leftarrow> go_store dst (start + 1) (ibyte_at 24 l);
        dst \<leftarrow> go_store dst (start + 2) (ibyte_at 16 l);
        dst \<leftarrow> go_store dst (start + 3) (ibyte_at 8 l);
        dst \<leftarrow> go_store dst (start + 4) (ibyte_at 0 l);
        Ret dst })"

text \<open>The error that \<open>AppendText\<close> returns is dropped, so a \<open>TextAppender\<close> is its effect on \<open>dst\<close>.\<close>

definition AppendTextAppender :: "bytes \<Rightarrow> (bytes \<Rightarrow> bytes) \<Rightarrow> bytes go" where
  "AppendTextAppender dst s = AppendStringUnknownLength dst (\<lambda>dst. s dst)"

definition AppendStringDynamic :: "bytes \<Rightarrow> (bytes \<Rightarrow> bytes) \<Rightarrow> bytes go" where
  "AppendStringDynamic dst fn =
     (let start = len dst;
          dst = dst @ [0xdb, 0, 0, 0, 0];
          sizeFrom = len dst;
          dst = fn dst;
          sizeTo = len dst;
          l = sizeTo - sizeFrom;
          headerLen = (if l \<le> 31 then 1 else if l \<le> 255 then 2 else if l \<le> 65535 then 3 else 5);
          shift = 5 - headerLen
      in do {
        dst \<leftarrow> (if shift > 0 then do {
                 tail \<leftarrow> go_slice dst (start + 5) (len dst);
                 dst \<leftarrow> go_copy dst (start + headerLen) tail;
                 go_slice dst 0 (sizeTo - shift) }
               else Ret dst);
        (if headerLen = 1 then go_store dst start (0xa0 OR ibyte_at 0 l)
         else if headerLen = 2 then do {
           dst \<leftarrow> go_store dst start 0xd9;
           go_store dst (start + 1) (ibyte_at 0 l) }
         else if headerLen = 3 then do {
           dst \<leftarrow> go_store dst start 0xda;
           dst \<leftarrow> go_store dst (start + 1) (ibyte_at 8 l);
           go_store dst (start + 2) (ibyte_at 0 l) }
         else do {
           dst \<leftarrow> go_store dst start 0xdb;
           dst \<leftarrow> go_store dst (start + 1) (ibyte_at 24 l);
           dst \<leftarrow> go_store dst (start + 2) (ibyte_at 16 l);
           dst \<leftarrow> go_store dst (start + 3) (ibyte_at 8 l);
           go_store dst (start + 4) (ibyte_at 0 l) }) })"

definition AppendStringMax255 :: "bytes \<Rightarrow> (bytes \<Rightarrow> bytes) \<Rightarrow> bytes go" where
  "AppendStringMax255 dst fn =
     (let start = len dst;
          dst = dst @ [0xd9, 0];
          sizeFrom = len dst;
          dst = fn dst;
          sizeTo = len dst;
          l = sizeTo - sizeFrom
      in do {
        (dst, l) \<leftarrow> (if l > 255 then do { dst \<leftarrow> go_slice dst 0 (sizeFrom + 255); Ret (dst, 255) }
                    else Ret (dst, l));
        go_store dst (start + 1) (ibyte_at 0 l) })"

definition appendBinaryHeader :: "bytes \<Rightarrow> int \<Rightarrow> bytes" where
  "appendBinaryHeader dst l =
     (if l \<le> 0xFF then dst @ [0xc4, ibyte_at 0 l]
      else if l \<le> 0xFFFF then dst @ [0xc5, ibyte_at 8 l, ibyte_at 0 l]
      else dst @ [0xc6, ibyte_at 24 l, ibyte_at 16 l, ibyte_at 8 l, ibyte_at 0 l])"

definition AppendBinary :: "bytes \<Rightarrow> bytes \<Rightarrow> bytes" where
  "AppendBinary dst data = appendBinaryHeader dst (len data) @ data"

definition AppendBinaryUnknownLength :: "bytes \<Rightarrow> (bytes \<Rightarrow> bytes) \<Rightarrow> bytes go" where
  "AppendBinaryUnknownLength dst fn =
     (let start = len dst;
          dst = dst @ [0xc6, 0, 0, 0, 0];
          sizeFrom = len dst;
          dst = fn dst;
          sizeTo = len dst;
          l = sizeTo - sizeFrom
      in do {
        dst \<leftarrow> go_store dst (start + 1) (ibyte_at 24 l);
        dst \<leftarrow> go_store dst (start + 2) (ibyte_at 16 l);
        dst \<leftarrow> go_store dst (start + 3) (ibyte_at 8 l);
        dst \<leftarrow> go_store dst (start + 4) (ibyte_at 0 l);
        Ret dst })"

definition AppendBinaryAppender :: "bytes \<Rightarrow> (bytes \<Rightarrow> bytes) \<Rightarrow> bytes go" where
  "AppendBinaryAppender dst s = AppendBinaryUnknownLength dst (\<lambda>dst. s dst)"

subsection \<open>Reading\<close>

function ReadString :: "bytes \<Rightarrow> int \<Rightarrow> (bytes \<times> int \<times> err option) go"
  and ReadBinary :: "bytes \<Rightarrow> int \<Rightarrow> (bytes \<times> int \<times> err option) go" where
  "ReadString src offset =
     (if offset \<ge> len src then Ret ([], 0, Some ErrShortBuffer)
      else do {
        c \<leftarrow> go_index src offset;
        let (typ, length, isValueLength) = Get c;
        (if typ = BinT then ReadBinary src offset
          else if typ \<noteq> StrT then Ret ([], 0, Some (expectedType c StrT))
          else let offset = offset + 1 in
            if \<not> isValueLength then
              (if offset + length > len src then Ret ([], 0, Some ErrShortBuffer)
               else do {
                 buf \<leftarrow> go_slice src offset (offset + length);
                 uintLength \<leftarrow> uintFromBuf buf;
                 if uintLength > 0x7fffffffffffffff then
                   Ret ([], 0, Some (LengthExceedsMaxInt uintLength))
                 else
                   let l = length; length = sint uintLength; offset = offset + l in
                   if offset + length > len src then Ret ([], 0, Some ErrShortBuffer)
                   else do {
                     s \<leftarrow> go_slice src offset (offset + length);
                     Ret (s, offset + length, None) } })
            else if offset + length > len src then Ret ([], 0, Some ErrShortBuffer)
            else do {
              s \<leftarrow> go_slice src offset (offset + length);
              Ret (s, offset + length, None) }) })"
| "ReadBinary src offset =
     (if offset \<ge> len src then Ret ([], offset, Some ErrShortBuffer)
      else do {
        c \<leftarrow> go_index src offset;
        let (typ, length, isValueLength) = Get c;
        (if typ = StrT then ReadString src offset
          else if typ \<noteq> BinT then Ret ([], 0, Some (expectedType c BinT))
          else let offset = offset + 1 in
            if \<not> isValueLength then
              (if offset + length > len src then Ret ([], offset, Some ErrShortBuffer)
               else do {
                 buf \<leftarrow> go_slice src offset (offset + length);
                 n \<leftarrow> intFromBuf buf;
                 let l = length; length = sint n; offset = offset + l in
                 if offset + length > len src then Ret ([], offset, Some ErrShortBuffer)
                 else do {
                   data \<leftarrow> go_slice src offset (offset + length);
                   Ret (data, offset + length, None) } })
            else if offset + length > len src then Ret ([], offset, Some ErrShortBuffer)
            else do {
              data \<leftarrow> go_slice src offset (offset + length);
              Ret (data, offset + length, None) }) })"
  by pat_completeness auto
termination
  by (relation "measure (\<lambda>x. case x of
        Inl (src, offset) \<Rightarrow> (case go_index src offset of Some c \<Rightarrow> if fst (Get c) = BinT then 1 else 0 | None \<Rightarrow> 0)
      | Inr (src, offset) \<Rightarrow> (case go_index src offset of Some c \<Rightarrow> if fst (Get c) = StrT then 1 else 0 | None \<Rightarrow> 0))")
    (auto, (metis fst_conv)+)

declare ReadString.simps [simp del] ReadBinary.simps [simp del]

text \<open>\<open>strings.Clone\<close> copies the bytes; strings are values here.\<close>

definition ReadStringCopy :: "bytes \<Rightarrow> int \<Rightarrow> (bytes \<times> int \<times> err option) go" where
  "ReadStringCopy src offset = ReadString src offset"

subsection \<open>Reading what was appended\<close>

lemma AppendString_prefix: "AppendString dst s = dst @ AppendString [] s"
  by (simp add: AppendString_def Let_def Let_def)

lemma AppendBinary_prefix: "AppendBinary dst s = dst @ AppendBinary [] s"
  by (simp add: AppendBinary_def appendBinaryHeader_def)

lemma ReadString_str:
  assumes "Get c = (StrT, n, False)" and "len hs = n" and "uintFromBuf hs = Ret (word_of_int (len s))" and "len s < 2 ^ 63"
  shows "ReadString (pre @ c # hs @ s @ post) (len pre) = Ret (s, len pre + 1 + n + len s, None)"
proof -
  have le: "\<not> 0x7fffffffffffffff < (word_of_int (len s) :: u64)"
    using word_of_int_le_MaxInt [of "len s"] assms(4) by (simp add: not_less)
  have "sint (word_of_int (len s) :: u64) = len s"
    using assms(4) by (intro sint_word_of_int) (simp_all add: order.trans [of _ 0])
  with assms(1,3) le show ?thesis
    unfolding assms(2) [symmetric]
    by (subst ReadString.simps) (simp add: go_simps not_less Let_def)
qed

lemma ReadString_fixstr:
  assumes "Get c = (StrT, len s, True)"
  shows "ReadString (pre @ c # s @ post) (len pre) = Ret (s, len pre + 1 + len s, None)"
  using assms by (subst ReadString.simps) (simp add: go_simps Let_def)

lemma ReadString_AppendString:
  assumes "len s < 2 ^ 32"
  shows "ReadString (pre @ AppendString [] s @ post) (len pre) =
    Ret (s, len pre + len (AppendString [] s), None)"
proof -
  consider "len s \<le> 31" | "31 < len s" "len s \<le> 0xFF" | "0xFF < len s" "len s \<le> 0xFFFF" | "0xFFFF < len s"
    by linarith
  then show ?thesis
  proof cases
    case 1 then show ?thesis
      using ReadString_fixstr [of "0xa0 OR ibyte_at 0 (len s)" s pre post]
      by (simp add: AppendString_def Let_def Get_fix_header)
  next
    case 2 then show ?thesis
      using ReadString_str [of "0xd9" 1 "[ibyte_at 0 (len s)]" s pre post]
      by (simp add: AppendString_def Let_def uintFromBuf_length)
  next
    case 3 then show ?thesis
      using ReadString_str [of "0xda" 2 "[ibyte_at 8 (len s), ibyte_at 0 (len s)]" s pre post]
      by (simp add: AppendString_def Let_def uintFromBuf_length)
  next
    case 4 then show ?thesis
      using assms ReadString_str [of "0xdb" 4 "[ibyte_at 24 (len s), ibyte_at 16 (len s), ibyte_at 8 (len s), ibyte_at 0 (len s)]" s pre post]
      by (simp add: AppendString_def Let_def uintFromBuf_length)
  qed
qed

lemma ReadString_str_no_panic:
  assumes "0 \<le> offset" and "offset < len src \<Longrightarrow> fst (Get (src ! nat offset)) \<noteq> BinT"
  shows "ReadString src offset \<noteq> Panic"
  using assms
  by (subst ReadString.simps) 
   (auto simp: no_panic_simps MaxInt_sint simp del: not_None_eq split: prod.splits 
     dest: Get_str_len uintFromBuf_small)

lemma AppendStringUnknownLength_appends:
  assumes "appends fn s"
  shows "AppendStringUnknownLength dst fn =
    Ret (dst @ [0xdb, ibyte_at 24 (len s), ibyte_at 16 (len s), ibyte_at 8 (len s), ibyte_at 0 (len s)] @ s)"
  using assms by (simp add: appends_def AppendStringUnknownLength_def Let_def go_simps)

lemma AppendBinaryUnknownLength_appends:
  assumes "appends fn s"
  shows "AppendBinaryUnknownLength dst fn =
    Ret (dst @ [0xc6, ibyte_at 24 (len s), ibyte_at 16 (len s), ibyte_at 8 (len s), ibyte_at 0 (len s)] @ s)"
  using assms by (simp add: appends_def AppendBinaryUnknownLength_def Let_def go_simps)

lemma go_copy_shift [go_simps]: "len xs \<le> i \<Longrightarrow> go_copy (xs @ ys) i zs = map_option ((@) xs) (go_copy ys (i - len xs) zs)"
  by (auto simp: go_copy_def Let_def nat_diff_distrib add.commute)

lemma shift_left_slice:
  "n = len dst + 1 + len s \<Longrightarrow> go_slice (dst @ h1 # s @ ws) 0 n = Ret (dst @ h1 # s)"
  "n = len dst + 2 + len s \<Longrightarrow> go_slice (dst @ h1 # h2 # s @ ws) 0 n = Ret (dst @ h1 # h2 # s)"
  "n = len dst + 3 + len s \<Longrightarrow> go_slice (dst @ h1 # h2 # h3 # s @ ws) 0 n = Ret (dst @ h1 # h2 # h3 # s)"
  by (simp_all add: go_slice_def nat_add_distrib numeral_3_eq_3)

lemma shift_left_copy:
  "go_copy (h1 # h2 # h3 # h4 # h5 # s) 1 s = Ret (h1 # s @ drop (length s) (h2 # h3 # h4 # h5 # s))"
  "go_copy (h1 # h2 # h3 # h4 # h5 # s) 2 s = Ret (h1 # h2 # s @ drop (length s) (h3 # h4 # h5 # s))"
  "go_copy (h1 # h2 # h3 # h4 # h5 # s) 3 s = Ret (h1 # h2 # h3 # s @ drop (length s) (h4 # h5 # s))"
  by (simp_all add: go_copy_def Let_def min_absorb2 numeral_3_eq_3)

lemma AppendStringDynamic_appends:
  assumes "appends fn s"
  shows "AppendStringDynamic dst fn = Ret (AppendString dst s)"
  using assms
  by (simp add: appends_def AppendStringDynamic_def AppendString_def Let_def go_copy_shift
      go_slice_shift go_slice_all go_slice_Cons go_store_shift go_store_0 go_store_Cons
      shift_left_copy shift_left_slice)

lemma AppendStringMax255_appends:
  assumes "appends fn s"
  shows "AppendStringMax255 dst fn = Ret (dst @ [0xd9, ibyte_at 0 (min 255 (len s))] @ take 255 s)"
  using assms by (simp add: appends_def AppendStringMax255_def Let_def go_simps)

lemma ReadBinary_bin:
  assumes "Get c = (BinT, n, False)" and "len hs = n" and "intFromBuf hs = Ret (word_of_int k)" and "- (2 ^ 63) \<le> k" "k < 2 ^ 63"
  shows "k = len s \<Longrightarrow> ReadBinary (pre @ c # hs @ s @ post) (len pre) = Ret (s, len pre + 1 + n + k, None)"
    and "k < 0 \<Longrightarrow> ReadBinary (pre @ c # hs @ s @ post) (len pre) = Panic"
proof -
  have "sint (word_of_int k :: u64) = k"
    using assms(4,5) by (rule sint_word_of_int)
  with assms(1,3) show "k = len s \<Longrightarrow> ReadBinary (pre @ c # hs @ s @ post) (len pre) = Ret (s, len pre + 1 + n + k, None)"
    "k < 0 \<Longrightarrow> ReadBinary (pre @ c # hs @ s @ post) (len pre) = Panic"
    unfolding assms(2) [symmetric]
    by (subst ReadBinary.simps; simp add: go_simps go_slice_Panic Let_def)+
qed

text \<open>The length that \<open>ReadBinary\<close> takes from the header of \<open>l\<close> bytes of data\<close>

definition bin_length :: "int \<Rightarrow> int" where
  "bin_length l =
     (if l \<le> 0xFF then (if l < 2 ^ 7 then l else l - 2 ^ 8)
      else if l \<le> 0xFFFF then (if l < 2 ^ 15 then l else l - 2 ^ 16)
      else (if l < 2 ^ 31 then l else l - 2 ^ 32))"

definition bin_valid :: "bytes \<Rightarrow> bool" where
  "bin_valid data \<longleftrightarrow> len data < 2 ^ 32 \<and> bin_length (len data) = len data"

lemma ReadBinary_header:
  assumes "len s < 2 ^ 32"
  shows "bin_length (len s) = len s \<Longrightarrow> ReadBinary (pre @ AppendBinary [] s @ post) (len pre) =
      Ret (s, len pre + len (AppendBinary [] s), None)"
    and "bin_length (len s) < 0 \<Longrightarrow> ReadBinary (pre @ AppendBinary [] s @ post) (len pre) = Panic"
proof -
  let ?k = "bin_length (len s)"
  have k: "- (2 ^ 63) \<le> ?k" "?k < 2 ^ 63" using assms by (auto simp: bin_length_def)
  consider "len s \<le> 0xFF" | "0xFF < len s" "len s \<le> 0xFFFF" | "0xFFFF < len s" by linarith
  then obtain c n hs where g: "Get c = (BinT, n, False)" "len hs = n" "intFromBuf hs = Ret (word_of_int ?k)"
    and a: "AppendBinary [] s = c # hs @ s"
  proof cases
    case 1 then show ?thesis
      by (intro that [of "0xc4" 1 "[ibyte_at 0 (len s)]"])
         (simp_all add: intFromBuf_length bin_length_def AppendBinary_def appendBinaryHeader_def)
  next
    case 2 then show ?thesis
      by (intro that [of "0xc5" 2 "[ibyte_at 8 (len s), ibyte_at 0 (len s)]"])
         (simp_all add: intFromBuf_length bin_length_def AppendBinary_def appendBinaryHeader_def)
  next
    case 3 with assms show ?thesis
      by (intro that [of "0xc6" 4 "[ibyte_at 24 (len s), ibyte_at 16 (len s), ibyte_at 8 (len s), ibyte_at 0 (len s)]"])
         (simp_all add: intFromBuf_length bin_length_def AppendBinary_def appendBinaryHeader_def)
  qed
  show "?k = len s \<Longrightarrow> ReadBinary (pre @ AppendBinary [] s @ post) (len pre) =
      Ret (s, len pre + len (AppendBinary [] s), None)"
    "?k < 0 \<Longrightarrow> ReadBinary (pre @ AppendBinary [] s @ post) (len pre) = Panic"
    using ReadBinary_bin(1) [OF g k, where s = s and pre = pre and post = post]
      ReadBinary_bin(2) [OF g k, where s = s and pre = pre and post = post] g(2)
    by (simp_all add: a)
qed

lemma ReadString_is_ReadBinary:
  assumes "0 \<le> offset" "offset < len src" "fst (Get (src ! nat offset)) \<in> {StrT, BinT}"
  shows "ReadString src offset = ReadBinary src offset"
  using assms
  by (subst ReadString.simps, subst ReadBinary.simps)
    (auto simp: go_index_Some Let_def ReadString.simps [of src offset] ReadBinary.simps [of src offset] split: prod.split)

interpretation string_codec: codec AppendString ReadString "\<lambda>s. len s < 2 ^ 32"
  by unfold_locales (use AppendString_prefix ReadString_AppendString in blast)+

interpretation binary_codec: codec AppendBinary ReadBinary bin_valid
  by unfold_locales (rule AppendBinary_prefix, simp add: bin_valid_def ReadBinary_header(1))


lemma ReadString_of_AppendStringUnknownLength:
  assumes "appends fn s" and "len s < 2 ^ 32"
  shows "\<exists>dst'. AppendStringUnknownLength dst fn = Ret dst' \<and>
    ReadString (dst' @ post) (len dst) = Ret (s, len dst', None)"
  using assms ReadString_str [of "0xdb" 4 "[ibyte_at 24 (len s), ibyte_at 16 (len s), ibyte_at 8 (len s), ibyte_at 0 (len s)]" s dst post]
  by (simp add: AppendStringUnknownLength_appends uintFromBuf_length)

subsection \<open>Properties\<close>

text \<open>
  A string of fewer than \<open>2 ^ 32\<close> bytes is read back by \<open>ReadString\<close> where \<open>AppendString\<close>
  wrote it, and so is a whole list of strings. \<open>ReadBinary\<close> accepts the same bytes, and
  \<open>ReadString\<close> never panics at a header that is not one of the bin family.
\<close>

theorem AppendString_ReadString:
  assumes "len s < 2 ^ 32" and "\<forall>t \<in> set ts. len t < 2 ^ 32"
    and "0 \<le> offset" and "offset < len src \<longrightarrow> fst (Get (src ! nat offset)) \<noteq> BinT"
  shows "ReadString (AppendString dst s @ post) (len dst) = Ret (s, len (AppendString dst s), None) \<and>
    ReadBinary (AppendString dst s @ post) (len dst) = Ret (s, len (AppendString dst s), None) \<and>
    read_n ReadString (length ts) (foldl AppendString dst ts @ post) (len dst) =
      Ret (ts, len (foldl AppendString dst ts), None) \<and>
    ReadString src offset \<noteq> Panic"
proof -
  let ?b = "AppendString dst s @ post"
  have r: "ReadString ?b (len dst) = Ret (s, len (AppendString dst s), None)"
    using assms(1) by (rule string_codec.read_app_end)
  moreover have "ReadBinary ?b (len dst) = ReadString ?b (len dst)"
  proof -
    have "fst (Get ((AppendString dst s @ post) ! nat (len dst))) = StrT"
      by (simp add: AppendString_def Let_def nth_append Get_fix_header)
    then show ?thesis
      by (intro ReadString_is_ReadBinary [symmetric]) (auto simp: AppendString_def Let_def)
  qed
  ultimately show ?thesis
    using string_codec.read_n_app [OF assms(2), of dst post] ReadString_str_no_panic [OF assms(3)] assms(4)
    by simp
qed

theorem AppendString_ReadString_witness:
  "ReadString (AppendString [9] [104, 105] @ [7]) 1 = Ret ([104, 105], 4, None)"
  using AppendString_ReadString [of "[104, 105]" "[]" 0 "[]" "[9]" "[7]"]
  by (simp add: AppendString_def Let_def)

text \<open>
  C27. \<open>AppendStringDynamic\<close>, which reserves a five-byte header, lets the callback write behind it
  and then moves the bytes down under the smallest header, produces exactly what \<open>AppendString\<close>
  produces for the bytes that the callback appends.
\<close>

theorem AppendStringDynamic_eq_AppendString:
  assumes "appends fn s"
  shows "AppendStringDynamic dst fn = Ret (AppendString dst s)"
  using assms by (rule AppendStringDynamic_appends)

theorem AppendStringDynamic_eq_AppendString_witness:
  "AppendStringDynamic [1] (\<lambda>d. d @ [104, 105]) = Ret (AppendString [1] [104, 105])"
  using AppendStringDynamic_eq_AppendString [of "\<lambda>d. d @ [104, 105]" "[104, 105]" "[1]"]
  by (simp add: appends_def)

text \<open>
  The callback variants patch their length correctly: what \<open>AppendStringUnknownLength\<close> (and so
  \<open>AppendTextAppender\<close>) writes is read back as the callback's bytes, and \<open>AppendStringMax255\<close>
  keeps the first 255 of them.
\<close>

theorem callback_strings_roundtrip:
  assumes "appends fn s" and "len s < 2 ^ 32"
  shows "(\<exists>dst'. AppendTextAppender dst fn = Ret dst' \<and>
      ReadString (dst' @ post) (len dst) = Ret (s, len dst', None)) \<and>
    (\<exists>dst'. AppendStringMax255 dst fn = Ret dst' \<and>
      ReadString (dst' @ post) (len dst) = Ret (take 255 s, len dst', None))"
  using ReadString_of_AppendStringUnknownLength [OF assms, of dst post]
    AppendStringMax255_appends [OF assms(1), of dst]
    ReadString_str [of "0xd9" 1 "[ibyte_at 0 (min 255 (len s))]" "take 255 s" dst post]
  by (cases "length s \<le> 255") (simp_all add: AppendTextAppender_def uintFromBuf_length min_def)

theorem callback_strings_roundtrip_witness:
  "\<exists>dst'. AppendStringMax255 [] (\<lambda>d. d @ replicate 300 65) = Ret dst' \<and>
     ReadString dst' 0 = Ret (take 255 (replicate 300 65), len dst', None)"
  using callback_strings_roundtrip [of "\<lambda>d. d @ replicate 300 65" "replicate 300 65" "[]" "[]"]
  by (simp add: appends_def)

text \<open>
  Binary data is read back by \<open>ReadBinary\<close> when its length is below 128, or from 256 to 32767,
  or from 65536 to \<open>2 ^ 31 - 1\<close>.
\<close>

theorem AppendBinary_ReadBinary:
  assumes "len data < 128 \<or> 256 \<le> len data \<and> len data < 2 ^ 15 \<or> 2 ^ 16 \<le> len data \<and> len data < 2 ^ 31"
  shows "ReadBinary (AppendBinary dst data @ post) (len dst) = Ret (data, len (AppendBinary dst data), None)"
  using assms by (intro binary_codec.read_app_end) (auto simp: bin_valid_def bin_length_def)

theorem AppendBinary_ReadBinary_witness:
  "ReadBinary (AppendBinary [] [1, 2, 3] @ [0]) 0 = Ret ([1, 2, 3], 5, None)"
  using AppendBinary_ReadBinary [of "[1, 2, 3]" "[]" "[0]"]
  by (simp add: AppendBinary_def appendBinaryHeader_def)

text \<open>
  For binary data of 128 to 255 bytes, and of 32768 to 65535 bytes, reading back what
  \<open>AppendBinary\<close> wrote panics: \<open>ReadBinary\<close> sign-extends the length bytes, the negative length
  passes the bounds check, and the slice expression fails.
\<close>

theorem ReadBinary_panics:
  assumes "128 \<le> len data \<and> len data < 256 \<or> 2 ^ 15 \<le> len data \<and> len data < 2 ^ 16"
  shows "ReadBinary (AppendBinary dst data @ post) (len dst) = Panic"
  using assms ReadBinary_header(2) [of data dst post] AppendBinary_prefix [of dst data]
  by (auto simp: bin_length_def)

theorem ReadBinary_panics_witness: "ReadBinary (AppendBinary [] (replicate 200 0)) 0 = Panic"
  using ReadBinary_panics [of "replicate 200 0" "[]" "[]"] by simp

end
