(* ===== verification/Floats.thy ===== *)
theory Floats
  imports Utils Codec
begin

text \<open>
  \<open>pkg/msgpack/float.go\<close> and \<open>floatFromBuf\<close>. A \<open>float64\<close> is its 64 bits and a \<open>float32\<close> its 32
  bits (IEEE 754), so that \<open>math.Float64bits\<close> and \<open>math.Float64frombits\<close> are the identity and
  round trips can be stated bit for bit. The conversions of the language are written out:
  \<open>float32_of\<close> rounds to nearest, ties to even, and \<open>float64_of\<close> is exact.
\<close>

type_synonym f64 = "64 word"
type_synonym f32 = "32 word"

subsection \<open>The conversions of the language\<close>

definition f64_sign :: "f64 \<Rightarrow> nat" where "f64_sign f = unat f div 2 ^ 63"
definition f64_exp :: "f64 \<Rightarrow> nat" where "f64_exp f = unat f div 2 ^ 52 mod 2 ^ 11"
definition f64_man :: "f64 \<Rightarrow> nat" where "f64_man f = unat f mod 2 ^ 52"

definition f32_sign :: "f32 \<Rightarrow> nat" where "f32_sign f = unat f div 2 ^ 31"
definition f32_exp :: "f32 \<Rightarrow> nat" where "f32_exp f = unat f div 2 ^ 23 mod 2 ^ 8"
definition f32_man :: "f32 \<Rightarrow> nat" where "f32_man f = unat f mod 2 ^ 23"

definition f64_nan :: "f64 \<Rightarrow> bool" where
  "f64_nan f \<longleftrightarrow> f64_exp f = 2047 \<and> f64_man f \<noteq> 0"

definition f32_nan :: "f32 \<Rightarrow> bool" where
  "f32_nan f \<longleftrightarrow> f32_exp f = 255 \<and> f32_man f \<noteq> 0"

text \<open>\<open>m / 2 ^ k\<close>, rounded to the nearest integer, ties to even\<close>

definition rne :: "nat \<Rightarrow> nat \<Rightarrow> nat" where
  "rne m k = (let q = m div 2 ^ k; r = m mod 2 ^ k
     in if 2 * r > 2 ^ k \<or> 2 * r = 2 ^ k \<and> odd q then q + 1 else q)"

text \<open>
  \<open>float32(f)\<close>. A carry out of the rounded significand moves into the exponent field, and
  everything from \<open>2 ^ 128\<close> on becomes infinity.
\<close>

definition float32_of :: "f64 \<Rightarrow> f32" where
  "float32_of f =
     (let e = f64_exp f; m = f64_man f;
          mag = (if e = 2047 then (if m = 0 then 0x7f800000 else 0x7fc00000 + m div 2 ^ 29 mod 2 ^ 22)
            else let e1 = max e 1; sig = m + (if e = 0 then 0 else 2 ^ 52)
              in if e1 \<ge> 897 then min 0x7f800000 ((e1 - 897) * 2 ^ 23 + rne sig 29)
                 else rne sig (926 - e1))
      in of_nat (f64_sign f * 2 ^ 31 + mag))"

fun top_bit :: "nat \<Rightarrow> nat" where
  "top_bit m = (if m < 2 then 0 else Suc (top_bit (m div 2)))"

declare top_bit.simps [simp del]

text \<open>\<open>float64(f)\<close>: a subnormal \<open>float32\<close> becomes a normal \<open>float64\<close>.\<close>

definition float64_of :: "f32 \<Rightarrow> f64" where
  "float64_of w =
     (let e = f32_exp w; m = f32_man w;
          mag = (if e = 255 then (if m = 0 then 2047 * 2 ^ 52 else 2047 * 2 ^ 52 + 2 ^ 51 + m mod 2 ^ 22 * 2 ^ 29)
            else if e = 0 then (if m = 0 then 0
              else let k = top_bit m in (k + 874) * 2 ^ 52 + (m - 2 ^ k) * 2 ^ (52 - k))
            else (e + 896) * 2 ^ 52 + m * 2 ^ 29)
      in of_nat (f32_sign w * 2 ^ 63 + mag))"

text \<open>\<open>==\<close> on \<open>float64\<close>: a NaN equals nothing, and the two zeros are equal.\<close>

definition float_eq :: "f64 \<Rightarrow> f64 \<Rightarrow> bool" where
  "float_eq a b \<longleftrightarrow> \<not> f64_nan a \<and> \<not> f64_nan b \<and>
     (a = b \<or> take_bit 63 a = 0 \<and> take_bit 63 b = 0)"

lemmas float_defs = float32_of_def float64_of_def f64_sign_def f64_exp_def f64_man_def
  f32_sign_def f32_exp_def f32_man_def rne_def top_bit.simps Let_def

lemma float32_of_examples:
  "float32_of 0x3ff8000000000000 = 0x3fc00000" "float32_of 0x3fb999999999999a = 0x3dcccccd"
  "float32_of 0x36a0000000000000 = 0x00000001" "float32_of 0xc7efffffffffffff = 0xff800000"
  by (simp_all add: float_defs)

lemma float64_of_examples:
  "float64_of 0x3fc00000 = 0x3ff8000000000000" "float64_of 0x00000001 = 0x36a0000000000000"
  "float64_of 0x807fffff = 0xb80fffffc0000000" "float64_of 0xff800000 = 0xfff0000000000000"
  by (simp_all add: float_defs)

subsection \<open>float.go\<close>

definition floatFromBuf :: "bytes \<Rightarrow> f64 go" where
  "floatFromBuf buf =
     (if length buf = 4 then do { w \<leftarrow> uint32_be buf; Ret (float64_of w) }
      else if length buf = 8 then uint64_be buf
      else Ret 0)"

definition AppendFloat :: "bytes \<Rightarrow> f64 \<Rightarrow> bytes" where
  "AppendFloat dst f =
     (let f32 = float32_of f in
      if float_eq (float64_of f32) f then
        dst @ [0xca, byte_at 24 f32, byte_at 16 f32, byte_at 8 f32, byte_at 0 f32]
      else dst @ [0xcb, byte_at 56 f, byte_at 48 f, byte_at 40 f, byte_at 32 f,
        byte_at 24 f, byte_at 16 f, byte_at 8 f, byte_at 0 f])"

definition ReadFloat :: "bytes \<Rightarrow> int \<Rightarrow> (f64 \<times> int \<times> err option) go" where
  "ReadFloat src offset =
     (if offset \<ge> len src then Ret (0, offset, Some ErrShortBuffer)
      else do {
        c \<leftarrow> go_index src offset;
        let (typ, length, isValueLength) = Get c;
        if typ \<noteq> FloatT then Ret (0, 0, Some (expectedType c FloatT))
        else let offset = offset + 1 in
          if \<not> isValueLength \<and> offset + length > len src then Ret (0, offset, Some ErrShortBuffer)
          else do {
            (length, offset) \<leftarrow> (if \<not> isValueLength then do {
                buf \<leftarrow> go_slice src offset (offset + length);
                n \<leftarrow> intFromBuf buf;
                Ret (sint n, offset + length) }
              else Ret (length, offset));
            if offset + length > len src then Ret (0, offset, Some ErrShortBuffer)
            else do {
              buf \<leftarrow> go_slice src offset (offset + length);
              value \<leftarrow> floatFromBuf buf;
              Ret (value, offset + length, None) } } })"

lemma float_eq_narrow:
  assumes "float_eq (float64_of (float32_of f)) f"
  shows "float64_of (float32_of f) = f"
proof (cases "take_bit 63 f = 0")
  case True
  have "unat f mod 2 ^ 63 = 0"
    using True by (metis take_bit_eq_mod unsigned_0 unsigned_take_bit_eq)
  then obtain q where q: "unat f = 2 ^ 63 * q" by (auto simp: mod_eq_0_iff_dvd)
  moreover have "unat f < 2 ^ 64"
    using unsigned_less [of f, where 'a = nat] by simp
  ultimately have "q < 2" by simp
  then have "q = 0 \<or> q = 1" by linarith
  with q have "unat f = 0 \<or> unat f = 2 ^ 63" by auto
  then have "f = 0 \<or> f = 0x8000000000000000"
    by (auto simp: word_unat_eq_iff)
  moreover have "float64_of (float32_of 0) = 0"
    "float64_of (float32_of 0x8000000000000000) = 0x8000000000000000"
    by (simp_all add: float_defs)
  ultimately show ?thesis by metis
qed (use assms in \<open>simp add: float_eq_def\<close>)

lemma AppendFloat_prefix: "AppendFloat dst f = dst @ AppendFloat [] f"
  by (simp add: AppendFloat_def Let_def)

lemma floatFromBuf_bytes:
  "floatFromBuf [byte_at 24 w, byte_at 16 w, byte_at 8 w, byte_at 0 w] = Ret (float64_of w)"
  "floatFromBuf [byte_at 56 f, byte_at 48 f, byte_at 40 f, byte_at 32 f, byte_at 24 f, byte_at 16 f,
     byte_at 8 f, byte_at 0 f] = Ret f"
  by (simp_all add: floatFromBuf_def be_simps)

lemma floatFromBuf_not_None [simp]: "floatFromBuf buf \<noteq> Panic"
  using uint32_be_total [of buf] uint64_be_total [of buf] by (auto simp: floatFromBuf_def)

lemma ReadFloat_AppendFloat:
  "ReadFloat (pre @ AppendFloat [] f @ post) (len pre) = Ret (f, len pre + len (AppendFloat [] f), None)"
  using float_eq_narrow [of f]
  by (simp add: AppendFloat_def ReadFloat_def Let_def go_simps floatFromBuf_bytes)

lemma Get_float: "Get c = (FloatT, n, b) \<Longrightarrow> b"
  by (auto simp: Get_format_of format_of_def split: if_splits)

lemma ReadFloat_no_panic: "0 \<le> offset \<Longrightarrow> ReadFloat src offset \<noteq> Panic"
  by (auto simp: ReadFloat_def no_panic_simps simp del: not_None_eq split: prod.split dest: Get_float)

lemma ReadFloat_advances:
  assumes "0 \<le> offset" and "ReadFloat src offset = Ret (v, offset', None)"
  shows "offset < offset' \<and> offset' \<le> len src"
  using assms
  by (auto simp: ReadFloat_def Let_def go_index_Some bind_eq_Some_conv
      dest: Get_len_nonneg Get_float split: prod.splits if_splits)

interpretation float_codec: safe_codec AppendFloat ReadFloat "\<lambda>_. True"
  by unfold_locales
    (use AppendFloat_prefix ReadFloat_AppendFloat ReadFloat_no_panic ReadFloat_advances in blast)+

subsection \<open>A \<open>float32\<close> survives the trip through \<open>float64\<close>\<close>

lemma rne_exact: "rne (q * 2 ^ k) k = q"
  by (simp add: rne_def)

lemma top_bit_bounds: "0 < m \<Longrightarrow> 2 ^ top_bit m \<le> m \<and> m < 2 * 2 ^ top_bit m"
proof (induction m rule: top_bit.induct)
  case (1 m)
  show ?case
  proof (cases "m < 2")
    case True with "1.prems" show ?thesis by (simp add: top_bit.simps)
  next
    case False
    with "1.IH" have "2 ^ top_bit (m div 2) \<le> m div 2 \<and> m div 2 < 2 * 2 ^ top_bit (m div 2)" by simp
    with False show ?thesis by (simp add: top_bit.simps [of m]) linarith
  qed
qed

lemma unat_of_nat_u64: "x < 2 ^ 64 \<Longrightarrow> unat (of_nat x :: u64) = x"
  by (simp add: unat_of_nat)

lemma digit_div: "m < d \<Longrightarrow> (q * d + m) div d = (q :: nat)"
  by (metis add.commute add_cancel_right_left div_less div_mult_self3 gr_implies_not0)

lemma digit_mod: "m < d \<Longrightarrow> (q * d + m) mod d = (m :: nat)"
  by simp

lemma f64_fields:
  assumes "s < 2" "e < 2 ^ 11" "m < 2 ^ 52"
  shows "f64_sign (of_nat (s * 2 ^ 63 + (e * 2 ^ 52 + m))) = s"
    "f64_exp (of_nat (s * 2 ^ 63 + (e * 2 ^ 52 + m))) = e"
    "f64_man (of_nat (s * 2 ^ 63 + (e * 2 ^ 52 + m))) = m"
proof -
  have em: "e * 2 ^ 52 + m < 2 ^ 63" using assms(2,3) by simp
  then have "s * 2 ^ 63 + (e * 2 ^ 52 + m) < 2 ^ 64" using assms(1) by simp
  then have u: "unat (of_nat (s * 2 ^ 63 + (e * 2 ^ 52 + m)) :: u64) = s * 2 ^ 63 + (e * 2 ^ 52 + m)"
    by (rule unat_of_nat_u64)
  have eq: "s * 2 ^ 63 + (e * 2 ^ 52 + m) = (s * 2 ^ 11 + e) * 2 ^ 52 + m" by simp
  show "f64_sign (of_nat (s * 2 ^ 63 + (e * 2 ^ 52 + m))) = s"
    by (simp only: f64_sign_def u digit_div [OF em])
  show "f64_exp (of_nat (s * 2 ^ 63 + (e * 2 ^ 52 + m))) = e"
    unfolding f64_exp_def u unfolding eq
    by (simp only: digit_div [OF assms(3)] digit_mod [OF assms(2)])
  show "f64_man (of_nat (s * 2 ^ 63 + (e * 2 ^ 52 + m))) = m"
    unfolding f64_man_def u unfolding eq by (rule digit_mod [OF assms(3)])
qed

lemma f32_decompose:
  "w = of_nat (f32_sign w * 2 ^ 31 + (f32_exp w * 2 ^ 23 + f32_man w))"
  "f32_sign w < 2" "f32_exp w < 2 ^ 8" "f32_man w < 2 ^ 23"
proof -
  have "unat w < 2 ^ 32" using unsigned_less [of w, where 'a = nat] by simp
  then show "f32_sign w < 2" by (simp add: f32_sign_def)
  have join: "u = a * 2 ^ 31 + (e * 2 ^ 23 + m)" if "u = q * 2 ^ 23 + m" "q = a * 2 ^ 8 + e"
    for u q a e m :: nat using that by simp
  have "unat w = f32_sign w * 2 ^ 31 + (f32_exp w * 2 ^ 23 + f32_man w)"
    unfolding f32_sign_def f32_exp_def f32_man_def
  proof (rule join)
    show "unat w = unat w div 2 ^ 23 * 2 ^ 23 + unat w mod 2 ^ 23" by simp
    have "unat w div 2 ^ 23 div 2 ^ 8 = unat w div 2 ^ 31" by (simp flip: div_mult2_eq)
    then show "unat w div 2 ^ 23 = unat w div 2 ^ 31 * 2 ^ 8 + unat w div 2 ^ 23 mod 2 ^ 8"
      by (metis div_mult_mod_eq)
  qed
  then have "of_nat (f32_sign w * 2 ^ 31 + (f32_exp w * 2 ^ 23 + f32_man w)) = (of_nat (unat w) :: f32)"
    by (simp only:)
  then show "w = of_nat (f32_sign w * 2 ^ 31 + (f32_exp w * 2 ^ 23 + f32_man w))"
    by (simp only: of_nat_unat ucast_id)
qed (simp_all add: f32_exp_def f32_man_def)

lemma float32_of_float64_of:
  assumes "\<not> f32_nan w"
  shows "float32_of (float64_of w) = w \<and> \<not> f64_nan (float64_of w)"
proof -
  let ?e = "f32_exp w" and ?m = "f32_man w" and ?s = "f32_sign w"
  have w: "w = of_nat (?s * 2 ^ 31 + (?e * 2 ^ 23 + ?m))" and s: "?s < 2" and e8: "?e < 2 ^ 8"
    and m23: "?m < 2 ^ 23"
    by (rule f32_decompose)+
  have fin: ?thesis
    if f: "float64_of w = of_nat (?s * 2 ^ 63 + (e * 2 ^ 52 + m))" and b: "e < 2 ^ 11" "m < 2 ^ 52"
      and nn: "\<not> (e = 2047 \<and> m \<noteq> 0)"
      and mag: "(if e = 2047 then 0x7f800000
        else let e1 = max e 1; sig = m + (if e = 0 then 0 else 2 ^ 52)
          in if e1 \<ge> 897 then min 0x7f800000 ((e1 - 897) * 2 ^ 23 + rne sig 29)
             else rne sig (926 - e1)) = ?e * 2 ^ 23 + ?m" for e m
  proof -
    note flds = f64_fields [OF s b, folded f]
    have "float32_of (float64_of w) = of_nat (?s * 2 ^ 31 + (?e * 2 ^ 23 + ?m))"
      unfolding float32_of_def Let_def flds
      using nn mag [unfolded Let_def] by (simp only: if_True if_False simp_thms split: if_splits)
    then have "float32_of (float64_of w) = w" by (simp only: w [symmetric])
    moreover have "\<not> f64_nan (float64_of w)" using nn by (simp add: f64_nan_def flds)
    ultimately show ?thesis ..
  qed
  consider "?e = 255" "?m = 0" | "?e = 0" "?m = 0" | "?e = 0" "?m \<noteq> 0" | "0 < ?e" "?e < 255"
    using assms e8 unfolding f32_nan_def by fastforce
  then show ?thesis
  proof cases
    case 1 then show ?thesis
      by (intro fin [of 2047 0]) (simp_all add: float64_of_def)
  next
    case 2 then show ?thesis
      by (intro fin [of 0 0]) (simp_all add: float64_of_def rne_def)
  next
    case 4
    have "rne (?m * 2 ^ 29 + 2 ^ 52) 29 = ?m + 2 ^ 23"
      using rne_exact [of "?m + 2 ^ 23" 29] by simp
    with 4 m23 show ?thesis
      by (intro fin [of "?e + 896" "?m * 2 ^ 29"]) (simp_all add: float64_of_def Let_def)
  next
    case 3
    let ?k = "top_bit ?m"
    have k: "2 ^ ?k \<le> ?m" "?m < 2 * 2 ^ ?k" using top_bit_bounds [of ?m] 3 by auto
    have k22: "?k \<le> 22"
    proof (rule ccontr)
      assume "\<not> ?k \<le> 22"
      then have "(2::nat) ^ 23 \<le> 2 ^ ?k" by (intro power_increasing) auto
      with k(1) m23 show False by simp
    qed
    have p: "2 ^ ?k * 2 ^ (52 - ?k) = (2::nat) ^ 52" using k22 by (simp flip: power_add)
    then have sig: "(?m - 2 ^ ?k) * 2 ^ (52 - ?k) + 2 ^ 52 = ?m * 2 ^ (52 - ?k)"
      using k(1) by (metis diff_mult_distrib le_add_diff_inverse2 mult_le_mono1)
    have "(?m - 2 ^ ?k) * 2 ^ (52 - ?k) < 2 ^ ?k * 2 ^ (52 - ?k)"
      using k by (intro mult_strict_right_mono) auto
    then have "(?m - 2 ^ ?k) * 2 ^ (52 - ?k) < 2 ^ 52" unfolding p .
    then show ?thesis using 3 k22 sig rne_exact [of ?m "52 - ?k"]
      by (intro fin [of "?k + 874" "(?m - 2 ^ ?k) * 2 ^ (52 - ?k)"]) (simp_all add: float64_of_def Let_def)
  qed
qed

text \<open>\<^bold>\<open>AppendFloat and ReadFloat are inverse bit for bit\<close>, for every \<open>float64\<close>: NaNs
  with their payload, both zeros and the infinities included, although values that fit are
  written as a \<open>float32\<close>.\<close>

theorem AppendFloat_ReadFloat:
  "ReadFloat (AppendFloat dst f @ rest) (len dst) = Ret (f, len (AppendFloat dst f), None)"
  by (rule float_codec.read_app_end) (rule TrueI)

text \<open>\<^bold>\<open>A value that came from a float32 takes five bytes\<close> and they carry exactly its
  \<open>float32\<close> bits, subnormals and infinities included; NaNs alone take nine.\<close>

theorem AppendFloat_float32:
  assumes "\<not> f32_nan w"
  shows "AppendFloat dst (float64_of w) =
    dst @ [0xca, byte_at 24 w, byte_at 16 w, byte_at 8 w, byte_at 0 w]"
  using float32_of_float64_of [OF assms] by (simp add: AppendFloat_def Let_def float_eq_def)

theorem AppendFloat_float32_witness:
  "\<not> f32_nan 0x3fc00000 \<and> AppendFloat [] (float64_of 0x3fc00000) = [0xca, 0x3f, 0xc0, 0, 0]"
  using AppendFloat_float32 [of "0x3fc00000" "[]"]
  by (simp add: f32_nan_def f32_exp_def f32_man_def byte_at_def)

end
