(* ===== verification/Timestamp.thy ===== *)
theory Timestamp
  imports Integer "HOL-Library.Signed_Division"
begin

text \<open>
  \<open>pkg/msgpack/timestamp.go\<close>: the six timestamp formats, their reader, and the reader that the
  iterator uses. Of Go's \<open>time.Time\<close> the code uses only \<open>Unix\<close> and \<open>Nanosecond\<close>; the record
  \<open>go_time\<close> holds those two numbers and \<open>time_Unix\<close> is the normalisation of \<open>time.Unix\<close>.
  \<open>time_ok\<close> states what the package documents of \<open>Nanosecond\<close>: it lies in \<open>[0, 999999999]\<close>.
\<close>

subsection \<open>Go's \<open>time.Time\<close>\<close>

record go_time =
  t_Unix :: u64
  t_Nanosecond :: u64

definition time_ok :: "go_time \<Rightarrow> bool" where
  "time_ok t \<longleftrightarrow> t_Nanosecond t < 1000000000"

definition zero_time :: go_time where
  "zero_time = \<lparr> t_Unix = - 62135596800, t_Nanosecond = 0 \<rparr>"

definition time_Unix :: "u64 \<Rightarrow> u64 \<Rightarrow> go_time" where
  "time_Unix sec nsec =
     (if sint nsec < 0 \<or> sint nsec \<ge> 1000000000 then
        let n = word_of_int (sint nsec sdiv 1000000000) :: u64;
            sec = sec + n; nsec = nsec - n * 1000000000
        in if sint nsec < 0
           then \<lparr> t_Unix = sec - 1, t_Nanosecond = nsec + 1000000000 \<rparr>
           else \<lparr> t_Unix = sec, t_Nanosecond = nsec \<rparr>
      else \<lparr> t_Unix = sec, t_Nanosecond = nsec \<rparr>)"

subsection \<open>timestamp.go\<close>

datatype TsFormat = TsAuto | Ts32 | Ts64 | Ts96 | TsInt | TsFluentd

fun TsFormat_String :: "TsFormat \<Rightarrow> string" where
  "TsFormat_String TsAuto = ''TsAuto''"
| "TsFormat_String Ts32 = ''Ts32''"
| "TsFormat_String Ts64 = ''Ts64''"
| "TsFormat_String Ts96 = ''Ts96''"
| "TsFormat_String TsInt = ''TsInt''"
| "TsFormat_String TsFluentd = ''TsFluentd''"

definition msgpackTimestamp :: byte where "msgpackTimestamp = 0xff"
definition fluentdEventTime :: byte where "fluentdEventTime = 0x00"

text \<open>The format that is used: the first of the optional arguments, and what \<open>TsAuto\<close> picks.\<close>

definition ts_format :: "go_time \<Rightarrow> TsFormat list \<Rightarrow> TsFormat" where
  "ts_format t format =
     (let f = (if format \<noteq> [] then hd format else TsAuto) in
      if f = TsAuto then
        if t_Unix t <s 0 then Ts96 else if t_Nanosecond t = 0 then Ts32 else Ts64
      else f)"

definition AppendTimestamp :: "bytes \<Rightarrow> go_time \<Rightarrow> TsFormat list \<Rightarrow> bytes" where
  "AppendTimestamp dst t format =
     (case ts_format t format of
        Ts32 \<Rightarrow> (let s = ucast (t_Unix t) :: u32 in
          dst @ [0xd6, msgpackTimestamp, byte_at 24 s, byte_at 16 s, byte_at 8 s, byte_at 0 s])
      | Ts64 \<Rightarrow>
          (let ns = t_Nanosecond t AND 0x3FFFFFFF;
               s = push_bit 30 (t_Unix t AND 0x3FFFFFFFF);
               v = ns OR s
           in dst @ [0xd7, msgpackTimestamp, byte_at 56 v, byte_at 48 v, byte_at 40 v, byte_at 32 v,
                byte_at 24 v, byte_at 16 v, byte_at 8 v, byte_at 0 v])
      | Ts96 \<Rightarrow>
          (let s = t_Unix t; ns = ucast (t_Nanosecond t) :: u32
           in dst @ [0xc7, 12, msgpackTimestamp,
                byte_at 24 ns, byte_at 16 ns, byte_at 8 ns, byte_at 0 ns,
                sbyte_at 56 s, sbyte_at 48 s, sbyte_at 40 s, sbyte_at 32 s,
                sbyte_at 24 s, sbyte_at 16 s, sbyte_at 8 s, sbyte_at 0 s])
      | TsInt \<Rightarrow> AppendInt dst (t_Unix t)
      | TsFluentd \<Rightarrow>
          (let s = ucast (t_Unix t) :: u32; ns = ucast (t_Nanosecond t) :: u32
           in dst @ [0xd7, fluentdEventTime,
                byte_at 24 s, byte_at 16 s, byte_at 8 s, byte_at 0 s,
                byte_at 24 ns, byte_at 16 ns, byte_at 8 ns, byte_at 0 ns])
      | TsAuto \<Rightarrow> dst)"

text \<open>\<open>int64(int32(binary.BigEndian.Uint32(src[lo:hi])))\<close>, which the readers use for an EventTime\<close>

definition int32_be :: "bytes \<Rightarrow> int \<Rightarrow> int \<Rightarrow> u64 go" where
  "int32_be src lo hi = do { buf \<leftarrow> go_slice src lo hi; w \<leftarrow> uint32_be buf; Ret (scast w) }"

definition ReadTimestamp :: "bytes \<Rightarrow> int \<Rightarrow> (go_time \<times> int \<times> err option) go" where
  "ReadTimestamp src offset =
     (if offset \<ge> len src then Ret (zero_time, 0, Some ErrUnexpectedEOF)
      else do {
        let origOffset = offset;
        c \<leftarrow> go_index src offset;
        let (_, length, isValueLength) = Get c;
        let offset = offset + 1;
        if \<not> isValueLength \<and> offset + length > len src then Ret (zero_time, 0, Some ErrShortBuffer)
        else do {
          (length, offset) \<leftarrow> (if \<not> isValueLength then do {
              buf \<leftarrow> go_slice src offset (offset + length);
              n \<leftarrow> uintFromBuf buf;
              Ret (sint n, offset + length) }
            else Ret (length, offset));
          if offset + length > len src then Ret (zero_time, 0, Some ErrShortBuffer)
          else if c = 0xd6 then do {
            h \<leftarrow> go_index src offset;
            if h \<noteq> msgpackTimestamp then Ret (zero_time, 0, Some (expectedExtType h msgpackTimestamp))
            else do {
              let offset = offset + 1;
              buf \<leftarrow> go_slice src offset (offset + 4);
              s \<leftarrow> uint32_be buf;
              Ret (time_Unix (ucast s) 0, offset + 4, None) } }
          else if c = 0xd7 then do {
            h \<leftarrow> go_index src offset;
            let offset = offset + 1;
            if h = msgpackTimestamp then do {
              buf \<leftarrow> go_slice src offset (len src);
              combined \<leftarrow> uint64_be buf;
              Ret (time_Unix (drop_bit 30 combined) (combined AND 0x3FFFFFFF), offset + 8, None) }
            else if h = fluentdEventTime then do {
              s \<leftarrow> int32_be src offset (offset + 4);
              ns \<leftarrow> int32_be src (offset + 4) (offset + 8);
              Ret (time_Unix s ns, offset + 8, None) }
            else Ret (zero_time, 0, Some (expectedExtType h msgpackTimestamp)) }
          else if c = 0xc7 then do {
            h \<leftarrow> go_index src offset;
            let offset = offset + 1;
            if h = msgpackTimestamp then do {
              buf \<leftarrow> go_slice src offset (offset + 4);
              ns \<leftarrow> uint32_be buf;
              buf \<leftarrow> go_slice src (offset + 4) (offset + 12);
              s \<leftarrow> uint64_be buf;
              Ret (time_Unix s (ucast ns), offset + length, None) }
            else if h = fluentdEventTime then do {
              s \<leftarrow> int32_be src offset (offset + 4);
              ns \<leftarrow> int32_be src (offset + 4) (offset + 8);
              Ret (time_Unix s ns, offset + length, None) }
            else Ret (zero_time, 0, Some (expectedExtType h msgpackTimestamp)) }
          else do {
            (s, offset, err) \<leftarrow> ReadInt src origOffset;
            if err \<noteq> None then Ret (zero_time, 0, err)
            else Ret (time_Unix s 0, offset, None) } } })"

definition readTimeUnsafe :: "byte \<Rightarrow> bytes \<Rightarrow> go_time go" where
  "readTimeUnsafe c src =
     (if len src < 5 then do { s \<leftarrow> readIntUnsafe c src; Ret (time_Unix s 0) }
      else if c = 0xd6 then do {
        h \<leftarrow> go_index src 0;
        if h = msgpackTimestamp then do {
          buf \<leftarrow> go_slice src 1 (len src);
          s \<leftarrow> uint32_be buf;
          Ret (time_Unix (ucast s) 0) }
        else Ret (time_Unix 0 0) }
      else if c = 0xd7 then do {
        h \<leftarrow> go_index src 0;
        if h = msgpackTimestamp then
          (if len src = 9 then do {
             buf \<leftarrow> go_slice src 1 (len src);
             combined \<leftarrow> uint64_be buf;
             Ret (time_Unix (drop_bit 30 combined) (combined AND 0x3FFFFFFF)) }
           else Ret (time_Unix 0 0))
        else if h = fluentdEventTime then
          (if len src = 9 then do {
             s \<leftarrow> int32_be src 1 (len src);
             ns \<leftarrow> int32_be src 5 (len src);
             Ret (time_Unix s ns) }
           else Ret (time_Unix 0 0))
        else Ret (time_Unix 0 0) }
      else if c = 0xc7 then do {
        h \<leftarrow> go_index src 0;
        if h = msgpackTimestamp then
          (if len src = 13 then do {
             buf \<leftarrow> go_slice src 1 (len src);
             ns \<leftarrow> uint32_be buf;
             buf \<leftarrow> go_slice src 5 (len src);
             s \<leftarrow> uint64_be buf;
             Ret (time_Unix s (ucast ns)) }
           else Ret (time_Unix 0 0))
        else if h = fluentdEventTime then
          (if len src = 9 then do {
             s \<leftarrow> int32_be src 1 (len src);
             ns \<leftarrow> int32_be src 5 (len src);
             Ret (time_Unix s ns) }
           else Ret (time_Unix 0 0))
        else Ret (time_Unix 0 0) }
      else do { s \<leftarrow> readIntUnsafe c src; Ret (time_Unix s 0) })"

subsection \<open>The times each format can hold\<close>

text \<open>
  \<open>ts_valid f t\<close>: the ranges of the wire formats. Seconds are unsigned in \<open>Ts32\<close> and \<open>Ts64\<close>;
  the reader takes the seconds of an EventTime as signed.
\<close>

definition ts_valid :: "TsFormat list \<Rightarrow> go_time \<Rightarrow> bool" where
  "ts_valid format t \<longleftrightarrow> time_ok t \<and>
     (case ts_format t format of
        Ts32 \<Rightarrow> uint (t_Unix t) < 2 ^ 32 \<and> t_Nanosecond t = 0
      | Ts64 \<Rightarrow> uint (t_Unix t) < 2 ^ 34
      | Ts96 \<Rightarrow> True
      | TsInt \<Rightarrow> t_Nanosecond t = 0
      | TsFluentd \<Rightarrow> - (2 ^ 31) \<le> sint (t_Unix t) \<and> sint (t_Unix t) < 2 ^ 31
      | TsAuto \<Rightarrow> False)"

lemma ts_format_not_Auto [simp]: "ts_format t format \<noteq> TsAuto"
  by (auto simp: ts_format_def Let_def)

lemma AppendTimestamp_prefix: "AppendTimestamp dst t format = dst @ AppendTimestamp [] t format"
  by (simp add: AppendTimestamp_def Let_def AppendInt_prefix [of dst] split: TsFormat.split)

lemma time_Unix_ok:
  assumes "nsec < 1000000000"
  shows "time_Unix sec nsec = \<lparr> t_Unix = sec, t_Nanosecond = nsec \<rparr>"
proof -
  have "uint nsec < 1000000000" using assms by (simp add: word_less_def)
  moreover from this have "sint nsec = uint nsec"
    by (intro sint_eq_uint_nonneg) (simp add: word_le_def)
  ultimately show ?thesis by (simp add: time_Unix_def)
qed

lemma time_Unix_self: "time_ok t \<Longrightarrow> time_Unix (t_Unix t) (t_Nanosecond t) = t"
  by (simp add: time_ok_def time_Unix_ok)

subsection \<open>Word arithmetic of the fields\<close>

lemma ucast_ucast_32: "uint v < 2 ^ 32 \<Longrightarrow> ucast (ucast v :: u32) = (v :: u64)"
  by (simp add: word_uint_eq_iff unsigned_ucast_eq unsigned_take_bit_eq take_bit_int_eq_self)

lemma scast_ucast_int32:
  fixes v :: u64
  assumes "- (2 ^ 31) \<le> sint v" "sint v < 2 ^ 31"
  shows "scast (ucast v :: u32) = v"
proof -
  have "sint (ucast v :: u32) = signed_take_bit 31 (sint v)"
    by (simp add: sint_uint unsigned_ucast_eq unsigned_take_bit_eq signed_take_bit_take_bit
        signed_take_bit_signed_take_bit min_def)
  also have "\<dots> = sint v" using assms by (intro signed_take_bit_int_eq_self) simp_all
  finally have "sint (ucast v :: u32) = sint v" .
  then have "sint (scast (ucast v :: u32) :: u64) = sint v" by (simp add: sint_scast_up)
  then show ?thesis by (rule signed_word_eqI)
qed

lemma nsec_ranges:
  fixes v :: u64
  assumes "v < 1000000000"
  shows "uint v < 2 ^ 30" "0 \<le> sint v" "sint v < 2 ^ 30"
proof -
  show "uint v < 2 ^ 30" using assms by (simp add: word_less_def)
  moreover from this have "sint v = uint v"
    by (intro sint_eq_uint_nonneg) (simp add: word_le_def)
  ultimately show "0 \<le> sint v" "sint v < 2 ^ 30" by simp_all
qed

lemma take_bit_small: "uint v < 2 ^ k \<Longrightarrow> take_bit k (v :: u64) = v"
  by (simp add: word_uint_eq_iff unsigned_take_bit_eq take_bit_int_eq_self)

lemma Ts64_unpack:
  fixes s ns :: u64
  assumes "uint ns < 2 ^ 30" and "uint s < 2 ^ 34"
  shows "drop_bit 30 (ns AND 0x3FFFFFFF OR push_bit 30 (s AND 0x3FFFFFFFF)) = s"
    and "(ns AND 0x3FFFFFFF OR push_bit 30 (s AND 0x3FFFFFFFF)) AND 0x3FFFFFFF = ns"
proof -
  have m30: "x AND 0x3FFFFFFF = take_bit 30 x" for x :: u64
    by (simp add: take_bit_eq_mask mask_eq_exp_minus_1)
  have m34: "x AND 0x3FFFFFFFF = take_bit 34 x" for x :: u64
    by (simp add: take_bit_eq_mask mask_eq_exp_minus_1)
  have ns: "take_bit 30 ns = ns" and s: "take_bit 34 s = s" using assms by (simp_all add: take_bit_small)
  have bns: "\<not> bit ns n" if "30 \<le> n" for n
    using arg_cong [OF ns, of "\<lambda>w. bit w n"] that by (simp add: bit_take_bit_iff)
  have bs: "\<not> bit s n" if "34 \<le> n" for n
    using arg_cong [OF s, of "\<lambda>w. bit w n"] that by (simp add: bit_take_bit_iff)
  have bs_less: "n < 34" if "bit s n" for n using bs [of n] that by linarith
  show "drop_bit 30 (ns AND 0x3FFFFFFF OR push_bit 30 (s AND 0x3FFFFFFFF)) = s"
    unfolding m30 m34 ns s
    by (rule bit_word_eqI) (auto simp: bit_drop_bit_eq bit_or_iff bit_push_bit_iff bns bs not_le intro: ccontr bs_less)
  show "(ns AND 0x3FFFFFFF OR push_bit 30 (s AND 0x3FFFFFFFF)) AND 0x3FFFFFFF = ns"
    unfolding m30 m34 ns s
    by (rule bit_word_eqI) (auto simp: bit_take_bit_iff bit_or_iff bit_push_bit_iff bns not_le intro: ccontr dest: bns[rotated])
qed


lemma int32_be_bytes [go_simps]:
  fixes w :: u32
  assumes "lo = len pre" "lo + 4 \<le> hi" "hi \<le> len pre + 4 + len post"
  shows "int32_be (pre @ byte_at 24 w # byte_at 16 w # byte_at 8 w # byte_at 0 w # post) lo hi = Ret (scast w)"
proof -
  obtain k where "nat (hi - len pre) = Suc (Suc (Suc (Suc k)))"
  proof
    show "nat (hi - len pre) = Suc (Suc (Suc (Suc (nat (hi - len pre) - 4))))" using assms by linarith
  qed
  with assms show ?thesis by (simp add: int32_be_def go_slice_def be_simps)
qed



lemma ReadTimestamp_d6:
  fixes s :: u32
  shows "ReadTimestamp (pre @ 0xd6 # msgpackTimestamp # byte_at 24 s # byte_at 16 s # byte_at 8 s # byte_at 0 s # post)
      (len pre) = Ret (time_Unix (ucast s) 0, len pre + 6, None)"
  by (simp add: ReadTimestamp_def go_simps be_simps)

lemma ReadTimestamp_d7:
  fixes v :: u64
  shows "ReadTimestamp (pre @ 0xd7 # msgpackTimestamp # byte_at 56 v # byte_at 48 v # byte_at 40 v # byte_at 32 v #
      byte_at 24 v # byte_at 16 v # byte_at 8 v # byte_at 0 v # post) (len pre) =
    Ret (time_Unix (drop_bit 30 v) (v AND 0x3FFFFFFF), len pre + 10, None)"
  by (simp add: ReadTimestamp_def go_simps be_simps)

lemma ReadTimestamp_d7_fluentd:
  fixes s ns :: u32
  shows "ReadTimestamp (pre @ 0xd7 # fluentdEventTime # byte_at 24 s # byte_at 16 s # byte_at 8 s # byte_at 0 s #
      byte_at 24 ns # byte_at 16 ns # byte_at 8 ns # byte_at 0 ns # post) (len pre) =
    Ret (time_Unix (scast s) (scast ns), len pre + 10, None)"
  by (simp add: ReadTimestamp_def go_simps be_simps int32_be_def fluentdEventTime_def msgpackTimestamp_def)

lemma ReadTimestamp_c7:
  fixes s :: u64 and ns :: u32
  shows "ReadTimestamp (pre @ 0xc7 # 12 # msgpackTimestamp # byte_at 24 ns # byte_at 16 ns # byte_at 8 ns # byte_at 0 ns #
      byte_at 56 s # byte_at 48 s # byte_at 40 s # byte_at 32 s #
      byte_at 24 s # byte_at 16 s # byte_at 8 s # byte_at 0 s # post) (len pre) =
    Ret (time_Unix s (ucast ns), len pre + 15, None)"
  by (simp add: ReadTimestamp_def go_simps be_simps)


lemma ReadTimestamp_int:
  assumes "0 \<le> offset" and "ReadInt src offset = Ret (v, offset', None)"
  shows "ReadTimestamp src offset = Ret (time_Unix v 0, offset', None)"
proof -
  obtain c t n where c: "go_index src offset = Ret c" "Get c = (t, n, True)" "t = IntT \<or> t = UintT"
    "offset + 1 + n \<le> len src" "offset < len src"
    using ReadInt_header [OF assms] .
  moreover have "c \<noteq> 0xd6" "c \<noteq> 0xd7" "c \<noteq> 0xc7" using c(2,3) by auto
  ultimately show ?thesis using assms(2) by (simp add: ReadTimestamp_def)
qed

lemmas ReadTimestamp_formats = ReadTimestamp_d6 ReadTimestamp_d7 ReadTimestamp_d7_fluentd ReadTimestamp_c7

lemma ReadTimestamp_AppendTimestamp:
  assumes "ts_valid format t"
  shows "ReadTimestamp (pre @ AppendTimestamp [] t format @ post) (len pre) =
    Ret (t, len pre + len (AppendTimestamp [] t format), None)"
proof -
  have ok: "time_ok t" and ns: "t_Nanosecond t < 1000000000" using assms by (simp_all add: ts_valid_def time_ok_def)
  note ns' = nsec_ranges [OF ns]
  have u: "ucast (ucast (t_Nanosecond t) :: u32) = t_Nanosecond t"
    using ns'(1) by (intro ucast_ucast_32) simp
  have i: "scast (ucast (t_Nanosecond t) :: u32) = t_Nanosecond t"
    using ns'(2,3) by (intro scast_ucast_int32) simp_all
  show ?thesis
  proof (cases "ts_format t format")
    case Ts32
    with assms have "uint (t_Unix t) < 2 ^ 32" "t_Nanosecond t = 0" by (simp_all add: ts_valid_def)
    with Ts32 show ?thesis using time_Unix_self [OF ok] 
      by (simp add: AppendTimestamp_def Let_def ReadTimestamp_formats ucast_ucast_32)
  next
    case Ts64
    with assms have "uint (t_Unix t) < 2 ^ 34" by (simp add: ts_valid_def)
    note Ts64_unpack [OF ns'(1) this]
    with Ts64 show ?thesis using time_Unix_self [OF ok] 
      by (simp add: AppendTimestamp_def Let_def ReadTimestamp_formats del: push_bit_and)
  next
    case Ts96
    then show ?thesis using time_Unix_self [OF ok]
      by (simp add: AppendTimestamp_def Let_def ReadTimestamp_formats sbyte_at_byte_at u)
  next
    case TsInt
    with assms have "t_Nanosecond t = 0" by (simp add: ts_valid_def)
    with TsInt ReadTimestamp_int [OF _ ReadInt_AppendInt, of pre "t_Unix t" post]
    show ?thesis using time_Unix_self [OF ok] by (simp add: AppendTimestamp_def)
  next
    case TsFluentd
    with assms have "scast (ucast (t_Unix t) :: u32) = t_Unix t"
      by (intro scast_ucast_int32) (simp_all add: ts_valid_def)
    with TsFluentd show ?thesis using time_Unix_self [OF ok]
      by (simp add: AppendTimestamp_def Let_def ReadTimestamp_formats i)
  qed simp
qed

interpretation ts_codec: codec "\<lambda>dst t. AppendTimestamp dst t format" ReadTimestamp "ts_valid format" for format
  by unfold_locales (use AppendTimestamp_prefix ReadTimestamp_AppendTimestamp in blast)+



lemma readIntUnsafe_AppendInt: 
  assumes "AppendInt [] v = c # body"
  shows "readIntUnsafe c body = Ret v \<and> c \<noteq> 0xd6 \<and> c \<noteq> 0xd7 \<and> c \<noteq> 0xc7"
proof -
  have r: "ReadInt (c # body) 0 = Ret (v, len (c # body), None)"
    using ReadInt_AppendInt [of "[]" v "[]"] assms by simp
  have "readIntUnsafe c body = Ret v"
    using readIntUnsafe_ReadInt [OF _ r] by simp
  moreover obtain t n where "Get c = (t, n, True)" "t = IntT \<or> t = UintT"
    using ReadInt_header [OF _ r] by (metis go_index_Cons_0 option.inject order_refl)
  ultimately show ?thesis by auto
qed

lemma readTimeUnsafe_AppendTimestamp:
  assumes "ts_valid format t" and "AppendTimestamp [] t format = c # body"
  shows "readTimeUnsafe c (if ts_format t format = Ts96 then tl body else body) = Ret t"
proof -
  have ok: "time_ok t" and ns: "t_Nanosecond t < 1000000000" using assms by (simp_all add: ts_valid_def time_ok_def)
  note ns' = nsec_ranges [OF ns]
  have u: "ucast (ucast (t_Nanosecond t) :: u32) = t_Nanosecond t"
    using ns'(1) by (intro ucast_ucast_32) simp
  have i: "scast (ucast (t_Nanosecond t) :: u32) = t_Nanosecond t"
    using ns'(2,3) by (intro scast_ucast_int32) simp_all
  show ?thesis
  proof (cases "ts_format t format")
    case Ts32
    with assms have "uint (t_Unix t) < 2 ^ 32" "t_Nanosecond t = 0" by (simp_all add: ts_valid_def)
    with Ts32 assms(2) time_Unix_self [OF ok] show ?thesis
      by (auto simp: AppendTimestamp_def Let_def readTimeUnsafe_def go_simps be_simps ucast_ucast_32)
  next
    case Ts64
    with assms have "uint (t_Unix t) < 2 ^ 34" by (simp add: ts_valid_def)
    note Ts64_unpack [OF ns'(1) this]
    with Ts64 assms(2) time_Unix_self [OF ok] show ?thesis 
      by (auto simp: AppendTimestamp_def Let_def readTimeUnsafe_def go_simps be_simps simp del: push_bit_and)
  next
    case Ts96
    with assms(2) time_Unix_self [OF ok] show ?thesis
      by (auto simp: AppendTimestamp_def Let_def readTimeUnsafe_def go_simps be_simps sbyte_at_byte_at u)
  next
    case TsFluentd
    with assms have "scast (ucast (t_Unix t) :: u32) = t_Unix t"
      by (intro scast_ucast_int32) (simp_all add: ts_valid_def)
    with TsFluentd assms(2) time_Unix_self [OF ok] show ?thesis
      by (auto simp: AppendTimestamp_def Let_def readTimeUnsafe_def go_simps be_simps int32_be_def i fluentdEventTime_def msgpackTimestamp_def)
  next
    case TsInt
    with assms have "t_Nanosecond t = 0" by (simp add: ts_valid_def)
    with TsInt assms(2) readIntUnsafe_AppendInt [of "t_Unix t" c body] time_Unix_self [OF ok]
    show ?thesis by (auto simp: AppendTimestamp_def readTimeUnsafe_def)
  qed simp
qed

lemma int32_be_no_panic: "0 \<le> lo \<Longrightarrow> lo + 4 = hi \<Longrightarrow> hi \<le> len src \<Longrightarrow> int32_be src lo hi \<noteq> Panic"
  using uint32_be_total [of "take 4 (drop (nat lo) src)"]
  by (auto simp: int32_be_def go_slice_Some bind_eq_None_conv)

lemma uint64_be_ge: "8 \<le> length buf \<Longrightarrow> uint64_be buf \<noteq> Panic"
  by (rule uint64_be.cases [of buf]) (auto simp: be_eval)

lemma ReadTimestamp_no_panic:
  assumes "0 \<le> offset" and "go_index src offset \<noteq> Ret 0xc7"
  shows "ReadTimestamp src offset \<noteq> Panic"
proof (cases "offset < len src")
  case False then show ?thesis by (simp add: ReadTimestamp_def)
next
  case True
  then have c: "go_index src offset = Ret (src ! nat offset)" using assms(1) by (simp add: go_index_Some)
  obtain t n b where g: "Get (src ! nat offset) = (t, n, b)" by (metis prod_cases3)
  note gn = Get_len_nonneg [OF g]
  consider "src ! nat offset = 0xd6" | "src ! nat offset = 0xd7" |
    "src ! nat offset \<noteq> 0xd6" "src ! nat offset \<noteq> 0xd7" by blast
  then show ?thesis
  proof cases
    case 1
    with assms True c uint32_be_total [of "take 4 (drop (nat (offset + 2)) src)"] show ?thesis
      by (auto simp: ReadTimestamp_def Let_def go_index_Some go_slice_Some bind_eq_None_conv add.assoc
          simp del: not_None_eq)
  next
    case 2
    with assms True c int32_be_no_panic [of "offset + 2" "offset + 6" src] int32_be_no_panic [of "offset + 6" "offset + 10" src]
      uint64_be_ge [of "drop (nat (offset + 2)) src"]
    show ?thesis
      by (auto simp: ReadTimestamp_def Let_def go_index_Some go_slice_Some bind_eq_None_conv add.assoc
          simp del: not_None_eq)
  next
    case 3
    with assms True c g gn show ?thesis
      by (auto simp: ReadTimestamp_def Let_def go_slice_Some bind_eq_None_conv ReadInt_no_panic simp del: not_None_eq split: prod.splits)
  qed
qed

lemma ts_valid_auto:
  "ts_valid [] t \<longleftrightarrow> time_ok t \<and>
     (sint (t_Unix t) < 0 \<or> uint (t_Unix t) < 2 ^ (if t_Nanosecond t = 0 then 32 else 34))"
  using sint_uint_cases [of "t_Unix t"] by (auto simp: ts_valid_def ts_format_def Let_def word_sless_alt)

text \<open>
  C13. \<^bold>\<open>Timestamps round-trip\<close> in every format whose range holds them: \<open>ReadTimestamp\<close> returns
  the very time that \<open>AppendTimestamp\<close> wrote, and the offset after it. Without a format
  argument that is every time before 1970, every whole second below \<open>2 ^ 32\<close> and every other
  time below \<open>2 ^ 34\<close> seconds.
\<close>

theorem AppendTimestamp_ReadTimestamp:
  assumes "ts_valid format t \<or> format = [] \<and> time_ok t \<and>
    (sint (t_Unix t) < 0 \<or> uint (t_Unix t) < 2 ^ (if t_Nanosecond t = 0 then 32 else 34))"
  shows "ReadTimestamp (AppendTimestamp dst t format @ post) (len dst) =
    Ret (t, len (AppendTimestamp dst t format), None)"
  using assms ts_codec.read_app_end ts_valid_auto by blast

theorem AppendTimestamp_ReadTimestamp_witness:
  "ReadTimestamp (AppendTimestamp [7] \<lparr> t_Unix = - 1, t_Nanosecond = 999999999 \<rparr> [] @ [8]) 1 =
     Ret (\<lparr> t_Unix = - 1, t_Nanosecond = 999999999 \<rparr>, 16, None)"
  using AppendTimestamp_ReadTimestamp [of "[]" "\<lparr> t_Unix = - 1, t_Nanosecond = 999999999 \<rparr>" "[7]" "[8]"]
  by (simp add: time_ok_def AppendTimestamp_def ts_format_def Let_def)

text \<open>
  \<^bold>\<open>The automatic format loses seconds from 2106 on.\<close> A whole second at or above \<open>2 ^ 32\<close>
  is written as a 32-bit timestamp and read back modulo \<open>2 ^ 32\<close>.
\<close>

theorem TsAuto_truncates_seconds:
  assumes "0 \<le> sint (t_Unix t)" and "t_Nanosecond t = 0"
  shows "ReadTimestamp (AppendTimestamp dst t [] @ post) (len dst) =
    Ret (\<lparr> t_Unix = take_bit 32 (t_Unix t), t_Nanosecond = 0 \<rparr>, len dst + 6, None)"
proof -
  have "AppendTimestamp dst t [] = dst @ AppendTimestamp [] t [Ts32]"
    using assms by (simp add: AppendTimestamp_def ts_format_def Let_def word_sless_alt)
  then show ?thesis
    by (simp add: AppendTimestamp_def ts_format_def ReadTimestamp_formats Let_def cast_cast_bits time_Unix_ok)
qed

theorem TsAuto_truncates_seconds_witness:
  "ReadTimestamp (AppendTimestamp [] \<lparr> t_Unix = 4294967301, t_Nanosecond = 0 \<rparr> []) 0 =
     Ret (\<lparr> t_Unix = 5, t_Nanosecond = 0 \<rparr>, 6, None)"
  using TsAuto_truncates_seconds [of "\<lparr> t_Unix = 4294967301, t_Nanosecond = 0 \<rparr>" "[]" "[]"] by simp

text \<open>
  \<^bold>\<open>The iterator's reader agrees with ReadTimestamp\<close>: on the header byte of an appended
  timestamp and the bytes of its body (type byte included), \<open>readTimeUnsafe\<close> returns the time.
\<close>

theorem readTimeUnsafe_agrees:
  assumes "ts_valid format t" and "AppendTimestamp [] t format = c # body"
  shows "readTimeUnsafe c (if ts_format t format = Ts96 then tl body else body) = Ret t"
  by (rule readTimeUnsafe_AppendTimestamp [OF assms])

theorem readTimeUnsafe_agrees_witness:
  "readTimeUnsafe 0xd6 [0xff, 0, 0, 1, 2] = Ret \<lparr> t_Unix = 258, t_Nanosecond = 0 \<rparr>"
  using readTimeUnsafe_agrees [of "[Ts32]" "\<lparr> t_Unix = 258, t_Nanosecond = 0 \<rparr>" "0xd6" "[0xff, 0, 0, 1, 2]"]
  by (simp add: ts_valid_def ts_format_def time_ok_def AppendTimestamp_def byte_at_def msgpackTimestamp_def Let_def)

text \<open>
  \<^bold>\<open>Malformed timestamps.\<close> \<open>ReadTimestamp\<close> returns a value or an error on every buffer and
  offset unless the header byte is \<open>ext8\<close>; the length check of that case leaves out the type
  byte, so a 96-bit timestamp that lacks its last byte makes it panic.
\<close>

theorem ReadTimestamp_panics_only_on_ext8:
  "(0 \<le> offset \<and> ReadTimestamp src offset = Panic \<longrightarrow> go_index src offset = Ret 0xc7) \<and>
   ReadTimestamp (butlast (AppendTimestamp [] t [Ts96])) 0 = Panic"
proof -
  have "ReadTimestamp (butlast (AppendTimestamp [] t [Ts96])) 0 = Panic"
    by (simp add: AppendTimestamp_def ts_format_def Let_def ReadTimestamp_def go_simps be_simps sbyte_at_byte_at go_slice_def)
  then show ?thesis using ReadTimestamp_no_panic by blast
qed

theorem ReadTimestamp_panics_only_on_ext8_witness:
  "ReadTimestamp (butlast (AppendTimestamp [] zero_time [Ts96])) 0 = Panic \<and>
   go_index (butlast (AppendTimestamp [] zero_time [Ts96])) 0 = Ret 0xc7"
  using ReadTimestamp_panics_only_on_ext8 [of 0 "butlast (AppendTimestamp [] zero_time [Ts96])" zero_time]
  by simp

end
