(* ===== verification/Roundtrip.thy ===== *)
theory Roundtrip
  imports Integer Scalars Headers Strings Floats Timestamp
begin

text \<open>
  The codecs of \<open>pkg/msgpack\<close> together: a buffer is written by append calls for values of several families, one after the
  other, and read by the read calls of the same families. The locale facts of the single codecs carry over to any such mixture.
\<close>

datatype item =
    IInt u64 | IUint u64 | IFloat f64 | IStr bytes | IBin bytes | IBool bool | INil | IArray int | IMap int | ITime go_time

text \<open>\<open>AppendTimestamp\<close> takes an optional format, \<open>fmt\<close>.\<close>

fun append_item :: "TsFormat list \<Rightarrow> bytes \<Rightarrow> item \<Rightarrow> bytes" where
  "append_item fmt dst (IInt v) = AppendInt dst v"
| "append_item fmt dst (IUint v) = AppendUint dst v"
| "append_item fmt dst (IFloat v) = AppendFloat dst v"
| "append_item fmt dst (IStr v) = AppendString dst v"
| "append_item fmt dst (IBin v) = AppendBinary dst v"
| "append_item fmt dst (IBool v) = AppendBool dst v"
| "append_item fmt dst INil = AppendNil dst"
| "append_item fmt dst (IArray n) = AppendArrayHeader dst n"
| "append_item fmt dst (IMap n) = AppendMapHeader dst n"
| "append_item fmt dst (ITime t) = AppendTimestamp dst t fmt"

datatype family = FInt | FUint | FFloat | FStr | FBin | FBool | FNil | FArray | FMap | FTime

fun family_of :: "item \<Rightarrow> family" where
  "family_of (IInt _) = FInt"
| "family_of (IUint _) = FUint"
| "family_of (IFloat _) = FFloat"
| "family_of (IStr _) = FStr"
| "family_of (IBin _) = FBin"
| "family_of (IBool _) = FBool"
| "family_of INil = FNil"
| "family_of (IArray _) = FArray"
| "family_of (IMap _) = FMap"
| "family_of (ITime _) = FTime"

definition as_item :: "('a \<Rightarrow> item) \<Rightarrow> ('a \<times> int \<times> err option) go \<Rightarrow> (item \<times> int \<times> err option) go" where
  "as_item f x = map_option (\<lambda>(v, r). (f v, r)) x"

fun read_item :: "family \<Rightarrow> bytes \<Rightarrow> int \<Rightarrow> (item \<times> int \<times> err option) go" where
  "read_item FInt src i = as_item IInt (ReadInt src i)"
| "read_item FUint src i = as_item IUint (ReadUint src i)"
| "read_item FFloat src i = as_item IFloat (ReadFloat src i)"
| "read_item FStr src i = as_item IStr (ReadString src i)"
| "read_item FBin src i = as_item IBin (ReadBinary src i)"
| "read_item FBool src i = as_item IBool (ReadBool src i)"
| "read_item FNil src i = as_item (\<lambda>_. INil) (read_unit src i)"
| "read_item FArray src i = as_item IArray (ReadArrayHeader src i)"
| "read_item FMap src i = as_item IMap (ReadMapHeader src i)"
| "read_item FTime src i = as_item ITime (ReadTimestamp src i)"

text \<open>One read call after the other, until one fails.\<close>

fun read_items :: "family list \<Rightarrow> bytes \<Rightarrow> int \<Rightarrow> (item list \<times> int \<times> err option) go" where
  "read_items [] src i = Ret ([], i, None)"
| "read_items (f # fs) src i = do {
     (v, i, e) \<leftarrow> read_item f src i;
     if e \<noteq> None then Ret ([], i, e)
     else do {
       (vs, i, e) \<leftarrow> read_items fs src i;
       Ret (v # vs, i, e) } }"

text \<open>
  The values that the formats can hold, and those that the readers give back as they were appended: the length of binary
  data and the counts are read with their highest bit as a sign.
\<close>

fun item_fits :: "TsFormat list \<Rightarrow> item \<Rightarrow> bool" where
  "item_fits fmt (IStr s) \<longleftrightarrow> len s < 2 ^ 32"
| "item_fits fmt (IBin s) \<longleftrightarrow> len s < 2 ^ 32"
| "item_fits fmt (IArray n) \<longleftrightarrow> 0 \<le> n \<and> n < 2 ^ 32"
| "item_fits fmt (IMap n) \<longleftrightarrow> 0 \<le> n \<and> n < 2 ^ 32"
| "item_fits fmt (ITime t) \<longleftrightarrow> ts_valid fmt t"
| "item_fits fmt _ \<longleftrightarrow> True"

fun item_ok :: "TsFormat list \<Rightarrow> item \<Rightarrow> bool" where
  "item_ok fmt (IStr s) \<longleftrightarrow> len s < 2 ^ 32"
| "item_ok fmt (IBin s) \<longleftrightarrow> len s < 128 \<or> 256 \<le> len s \<and> len s < 2 ^ 15 \<or> 2 ^ 16 \<le> len s \<and> len s < 2 ^ 31"
| "item_ok fmt (IArray n) \<longleftrightarrow> 0 \<le> n \<and> n < 2 ^ 31 \<and> \<not> (2 ^ 15 \<le> n \<and> n < 2 ^ 16)"
| "item_ok fmt (IMap n) \<longleftrightarrow> 0 \<le> n \<and> n < 2 ^ 31 \<and> \<not> (2 ^ 15 \<le> n \<and> n < 2 ^ 16)"
| "item_ok fmt (ITime t) \<longleftrightarrow> ts_valid fmt t"
| "item_ok fmt _ \<longleftrightarrow> True"

interpretation item_appender: appender "append_item fmt" for fmt
proof
  fix dst x show "append_item fmt dst x = dst @ append_item fmt [] x"
    by (cases x) (simp_all add: int_codec.app_prefix [of dst] uint_codec.app_prefix [of dst] float_codec.app_prefix [of dst] string_codec.app_prefix [of dst]
      binary_codec.app_prefix [of dst] bool_codec.app_prefix [of dst] nil_codec.app_prefix [of dst] array_codec.app_prefix [of dst] map_codec.app_prefix [of dst] ts_codec.app_prefix [of dst])
qed

lemma read_append_item:
  assumes "item_ok fmt x"
  shows "read_item (family_of x) (append_item fmt dst x @ post) (len dst) = Ret (x, len (append_item fmt dst x), None)"
proof (cases x)
  case (IBin s)
  with assms have "bin_valid s" by (auto simp: bin_valid_def bin_length_def)
  from binary_codec.read_app_end [OF this] IBin show ?thesis by (simp add: as_item_def)
next
  case INil
  with nil_codec.read_app_end [where dst = dst and post = post] show ?thesis by (simp add: as_item_def)
qed (use assms in \<open>simp_all add: as_item_def int_codec.read_app_end uint_codec.read_app_end float_codec.read_app_end string_codec.read_app_end bool_codec.read_app_end
  array_codec.read_app_end map_codec.read_app_end ts_codec.read_app_end header_valid_def\<close>)

lemma read_append_items:
  assumes "\<forall>x \<in> set xs. item_ok fmt x"
  shows "read_items (map family_of xs) (foldl (append_item fmt) dst xs @ post) (len dst) = Ret (xs, len (foldl (append_item fmt) dst xs), None)"
  using assms
proof (induction xs arbitrary: dst)
  case (Cons x xs)
  have "foldl (append_item fmt) (append_item fmt dst x) xs @ post = append_item fmt dst x @ concat (map (append_item fmt []) xs) @ post"
    by (simp add: item_appender.app_fold)
  with read_append_item [of fmt x dst] Cons.prems have
    "read_item (family_of x) (foldl (append_item fmt) (append_item fmt dst x) xs @ post) (len dst) = Ret (x, len (append_item fmt dst x), None)" by simp
  with Cons.IH [of "append_item fmt dst x"] Cons.prems show ?case by simp
qed simp

text \<open>Outside of these ranges binary data makes its reader panic, and a count comes back negative.\<close>

lemma read_append_other:
  assumes "item_fits fmt x" and "\<not> item_ok fmt x"
  shows "read_item (family_of x) (append_item fmt dst x @ post) (len dst) \<noteq> Ret (x, j, None)"
proof (cases x)
  case (IBin s)
  with assms have "bin_length (len s) < 0" "len s < 2 ^ 32" by (auto simp: bin_length_def)
  from ReadBinary_header(2) [OF this(2,1), of dst post] IBin show ?thesis by (simp add: as_item_def binary_codec.app_prefix [of dst])
next
  case (IArray n)
  with assms have "header_count n < 0" "0 \<le> n" "n < 2 ^ 32" by (auto simp: header_count_def)
  with ReadArrayHeader_any [of n dst post] IArray show ?thesis by (auto simp: as_item_def array_codec.app_prefix [of dst])
next
  case (IMap n)
  with assms have "header_count n < 0" "0 \<le> n" "n < 2 ^ 32" by (auto simp: header_count_def)
  with ReadMapHeader_any [of n dst post] IMap show ?thesis by (auto simp: as_item_def map_codec.app_prefix [of dst])
qed (use assms in simp_all)

lemma read_append_items_only:
  assumes "\<forall>x \<in> set xs. item_fits fmt x"
    and "read_items (map family_of xs) (foldl (append_item fmt) dst xs @ post) (len dst) = Ret (xs, j, None)"
  shows "\<forall>x \<in> set xs. item_ok fmt x"
  using assms
proof (induction xs arbitrary: dst)
  case (Cons x xs)
  let ?d = "append_item fmt dst x"
  have b: "foldl (append_item fmt) ?d xs @ post = ?d @ concat (map (append_item fmt []) xs) @ post"
    by (simp add: item_appender.app_fold)
  from Cons.prems(2) obtain k where r: "read_item (family_of x) (?d @ concat (map (append_item fmt []) xs) @ post) (len dst) = Ret (x, k, None)"
    by (auto simp: b bind_eq_Some_conv split: if_splits)
  then have ok: "item_ok fmt x" using read_append_other [of fmt x dst "concat (map (append_item fmt []) xs) @ post" k] Cons.prems(1) by auto
  with Cons.prems(2) read_append_item [of fmt x dst "concat (map (append_item fmt []) xs) @ post"]
  have "read_items (map family_of xs) (foldl (append_item fmt) ?d xs @ post) (len ?d) = Ret (xs, j, None)"
    by (auto simp: b bind_eq_Some_conv)
  with Cons.IH [of ?d] Cons.prems(1) ok show ?case by simp
qed simp

subsection \<open>Property\<close>

text \<open>
  C12. Which buffers round-trip. Whatever sequence of append calls writes a buffer, integers, floats, strings, binary data, booleans, nils, headers and
  timestamps in any order, each in the range that its format can hold, the read calls of the same families return exactly these values and end
  where the writing ended, whatever stands before and after, if and only if every value is in the range of its reader (\<open>item_ok\<close>): no binary data
  of 128 to 255 or \<open>2^15\<close> to \<open>2^16 - 1\<close> bytes or from \<open>2^31\<close> bytes on, whose reader panics, and no count of an array or map in the last two of these
  ranges, which comes back negative.
\<close>

theorem buffers_roundtrip:
  assumes "\<forall>x \<in> set xs. item_fits fmt x"
  shows "read_items (map family_of xs) (foldl (append_item fmt) dst xs @ post) (len dst) = Ret (xs, len (foldl (append_item fmt) dst xs), None) \<longleftrightarrow>
    (\<forall>x \<in> set xs. item_ok fmt x)"
  using read_append_items read_append_items_only [OF assms] by blast

lemma buffers_roundtrip_witness:
  "read_items [FMap, FStr, FInt, FNil, FFloat, FTime, FBool]
     (foldl (append_item [TsFluentd]) [1] [IMap 3, IStr [0x6b], IInt (- 200), INil, IFloat (float64_of 0x3fc00000), ITime (time_Unix 7 5), IBool True] @ [2]) 1 =
   Ret ([IMap 3, IStr [0x6b], IInt (- 200), INil, IFloat (float64_of 0x3fc00000), ITime (time_Unix 7 5), IBool True], 24, None)"
proof -
  let ?xs = "[IMap 3, IStr [0x6b], IInt (- 200), INil, IFloat (float64_of 0x3fc00000), ITime (time_Unix 7 5), IBool True]"
  have "\<forall>x \<in> set ?xs. item_fits [TsFluentd] x" "\<forall>x \<in> set ?xs. item_ok [TsFluentd] x" by (simp_all add: ts_valid_def ts_format_def time_Unix_def time_ok_def)
  moreover have "AppendFloat dst (float64_of 0x3fc00000) = dst @ [0xca, 0x3f, 0xc0, 0, 0]" for dst
    using AppendFloat_float32 [of "0x3fc00000" dst] by (simp add: f32_nan_def f32_exp_def f32_man_def byte_at_def)
  then have "len (foldl (append_item [TsFluentd]) [1] ?xs) = 24"
    by (simp add: AppendMapHeader_def AppendString_def AppendInt_def AppendUint_def AppendNil_def AppendTimestamp_def ts_format_def AppendBool_def Let_def)
  ultimately show ?thesis using buffers_roundtrip [of ?xs "[TsFluentd]" "[1]" "[2]"] by simp
qed

end
