(* ===== verification/Message.thy ===== *)
theory Message
  imports Integer Scalars Headers Strings Floats Timestamp
begin

text \<open>
  The reference view of a MessagePack stream that the properties of \<open>Value\<close>, of the iterator and
  of the loggers share: a \<open>msg\<close> is the tree that a sequence of append operations writes and
  \<open>encode\<close> is those operations. \<open>header\<close> states what one header says, independently of which
  reader interprets it.
\<close>

datatype msg =
    MNil
  | MBool bool
  | MInt u64
  | MUint u64
  | MFloat f64
  | MStr bytes
  | MBin bytes
  | MTime go_time "TsFormat list"
  | MArray "msg list"
  | MMap "(msg \<times> msg) list"

fun encode :: "msg \<Rightarrow> bytes" where
  "encode MNil = AppendNil []"
| "encode (MBool b) = AppendBool [] b"
| "encode (MInt v) = AppendInt [] v"
| "encode (MUint v) = AppendUint [] v"
| "encode (MFloat f) = AppendFloat [] f"
| "encode (MStr s) = AppendString [] s"
| "encode (MBin s) = AppendBinary [] s"
| "encode (MTime t f) = AppendTimestamp [] t f"
| "encode (MArray ms) = AppendArrayHeader [] (len ms) @ concat (map encode ms)"
| "encode (MMap kvs) = AppendMapHeader [] (len kvs) @
     concat (map (\<lambda>kv. encode (fst kv) @ encode (snd kv)) kvs)"

text \<open>Messages whose sizes fit the wire format. \<open>Ts96\<close> is left out, since its header differs.\<close>

fun msg_ok :: "msg \<Rightarrow> bool" where
  "msg_ok (MStr s) \<longleftrightarrow> len s < 2 ^ 32"
| "msg_ok (MBin s) \<longleftrightarrow> len s < 2 ^ 32"
| "msg_ok (MTime t f) \<longleftrightarrow> ts_valid f t \<and> ts_format t f \<noteq> Ts96 \<and> ts_format t f \<noteq> TsInt"
| "msg_ok (MArray ms) \<longleftrightarrow> len ms < 2 ^ 32 \<and> (\<forall>m \<in> set ms. msg_ok m)"
| "msg_ok (MMap kvs) \<longleftrightarrow> len kvs < 2 ^ 32 \<and> (\<forall>kv \<in> set kvs. msg_ok (fst kv) \<and> msg_ok (snd kv))"
| "msg_ok _ \<longleftrightarrow> True"

text \<open>
  \<open>header c lb t l k\<close>: the byte \<open>c\<close> and the length bytes \<open>lb\<close> announce a value of family \<open>t\<close> and
  length (or count) \<open>l\<close>; a reader that takes the length bytes as a signed integer sees \<open>k\<close>.
\<close>

definition header :: "byte \<Rightarrow> bytes \<Rightarrow> Type \<Rightarrow> int \<Rightarrow> int \<Rightarrow> bool" where
  "header c lb t l k \<longleftrightarrow> 0 \<le> l \<and> l < 2 ^ 32 \<and> - (2 ^ 31) \<le> k \<and> k < 2 ^ 31 \<and>
     (case Get c of (typ, n, b) \<Rightarrow> typ = t \<and>
        (if b then lb = [] \<and> l = n \<and> k = n
         else len lb = n \<and> uintFromBuf lb = Ret (word_of_int l) \<and> intFromBuf lb = Ret (word_of_int k)))"

text \<open>A length \<open>l\<close> in the length bytes that the append functions choose for it, taken as signed.\<close>

definition signed_length :: "int \<Rightarrow> int \<Rightarrow> int" where
  "signed_length fix l = (if l \<le> fix then l else bin_length l)"

fun msg_type :: "msg \<Rightarrow> Type" where
  "msg_type MNil = NilT"
| "msg_type (MBool _) = BoolT"
| "msg_type (MInt v) = (if 0 \<le> sint v then UintT else IntT)"
| "msg_type (MUint _) = UintT"
| "msg_type (MFloat _) = FloatT"
| "msg_type (MStr _) = StrT"
| "msg_type (MBin _) = BinT"
| "msg_type (MTime _ _) = ExtT"
| "msg_type (MArray _) = ArrayT"
| "msg_type (MMap _) = MapT"

fun container :: "msg \<Rightarrow> bool" where
  "container (MArray _) \<longleftrightarrow> True"
| "container (MMap _) \<longleftrightarrow> True"
| "container _ \<longleftrightarrow> False"

text \<open>The messages whose length bytes mean the same when they are taken as a signed integer.\<close>

fun msg_short :: "msg \<Rightarrow> bool" where
  "msg_short (MStr s) \<longleftrightarrow> signed_length 31 (len s) = len s"
| "msg_short (MBin s) \<longleftrightarrow> bin_length (len s) = len s"
| "msg_short (MArray ms) \<longleftrightarrow> header_count (len ms) = len ms"
| "msg_short (MMap kvs) \<longleftrightarrow> header_count (len kvs) = len kvs"
| "msg_short _ \<longleftrightarrow> True"

lemma header_string:
  assumes "len s < 2 ^ 32"
  obtains c lb where "AppendString [] s = c # lb @ s" "header c lb StrT (len s) (signed_length 31 (len s))"
proof -
  consider "len s \<le> 31" | "31 < len s" "len s \<le> 0xFF" | "0xFF < len s" "len s \<le> 0xFFFF" | "0xFFFF < len s"
    by linarith
  then show thesis
  proof cases
    case 1 then show ?thesis
      by (intro that [of "0xa0 OR ibyte_at 0 (len s)" "[]"])
        (simp_all add: AppendString_def Let_def header_def signed_length_def Get_fix_header)
  next
    case 2 then show ?thesis
      by (intro that [of "0xd9" "[ibyte_at 0 (len s)]"])
        (simp_all add: AppendString_def Let_def header_def signed_length_def bin_length_def uintFromBuf_length intFromBuf_length)
  next
    case 3 then show ?thesis
      by (intro that [of "0xda" "[ibyte_at 8 (len s), ibyte_at 0 (len s)]"])
        (simp_all add: AppendString_def Let_def header_def signed_length_def bin_length_def uintFromBuf_length intFromBuf_length)
  next
    case 4 with assms show ?thesis
      by (intro that [of "0xdb" "[ibyte_at 24 (len s), ibyte_at 16 (len s), ibyte_at 8 (len s), ibyte_at 0 (len s)]"])
        (simp_all add: AppendString_def Let_def header_def signed_length_def bin_length_def uintFromBuf_length intFromBuf_length)
  qed
qed

lemma header_binary:
  assumes "len s < 2 ^ 32"
  obtains c lb where "AppendBinary [] s = c # lb @ s" "header c lb BinT (len s) (bin_length (len s))"
proof -
  consider "len s \<le> 0xFF" | "0xFF < len s" "len s \<le> 0xFFFF" | "0xFFFF < len s"
    by linarith
  then show thesis
  proof cases
    case 1 then show ?thesis
      by (intro that [of "0xc4" "[ibyte_at 0 (len s)]"])
        (simp_all add: AppendBinary_def appendBinaryHeader_def header_def bin_length_def uintFromBuf_length intFromBuf_length)
  next
    case 2 then show ?thesis
      by (intro that [of "0xc5" "[ibyte_at 8 (len s), ibyte_at 0 (len s)]"])
        (simp_all add: AppendBinary_def appendBinaryHeader_def header_def bin_length_def uintFromBuf_length intFromBuf_length)
  next
    case 3 with assms show ?thesis
      by (intro that [of "0xc6" "[ibyte_at 24 (len s), ibyte_at 16 (len s), ibyte_at 8 (len s), ibyte_at 0 (len s)]"])
        (simp_all add: AppendBinary_def appendBinaryHeader_def header_def bin_length_def uintFromBuf_length intFromBuf_length)
  qed
qed

lemma header_array:
  assumes "0 \<le> n" "n < 2 ^ 32"
  obtains c lb where "AppendArrayHeader [] n = c # lb" "header c lb ArrayT n (header_count n)"
proof -
  consider "n \<le> 15" | "15 < n" "n \<le> 0xFFFF" | "0xFFFF < n" by linarith
  then show thesis
  proof cases
    case 1 with assms show ?thesis
      by (intro that [of "0x90 OR ibyte_at 0 n" "[]"])
        (simp_all add: AppendArrayHeader_def header_def header_count_def Get_fix_header)
  next
    case 2 with assms show ?thesis
      by (intro that [of "0xdc" "[ibyte_at 8 n, ibyte_at 0 n]"])
        (simp_all add: AppendArrayHeader_def header_def header_count_def uintFromBuf_length intFromBuf_length)
  next
    case 3 with assms show ?thesis
      by (intro that [of "0xdd" "[ibyte_at 24 n, ibyte_at 16 n, ibyte_at 8 n, ibyte_at 0 n]"])
        (simp_all add: AppendArrayHeader_def header_def header_count_def uintFromBuf_length intFromBuf_length)
  qed
qed

lemma header_map:
  assumes "0 \<le> n" "n < 2 ^ 32"
  obtains c lb where "AppendMapHeader [] n = c # lb" "header c lb MapT n (header_count n)"
proof -
  consider "n \<le> 15" | "15 < n" "n \<le> 0xFFFF" | "0xFFFF < n" by linarith
  then show thesis
  proof cases
    case 1 with assms show ?thesis
      by (intro that [of "0x80 OR ibyte_at 0 n" "[]"])
        (simp_all add: AppendMapHeader_def header_def header_count_def Get_fix_header)
  next
    case 2 with assms show ?thesis
      by (intro that [of "0xde" "[ibyte_at 8 n, ibyte_at 0 n]"])
        (simp_all add: AppendMapHeader_def header_def header_count_def uintFromBuf_length intFromBuf_length)
  next
    case 3 with assms show ?thesis
      by (intro that [of "0xdf" "[ibyte_at 24 n, ibyte_at 16 n, ibyte_at 8 n, ibyte_at 0 n]"])
        (simp_all add: AppendMapHeader_def header_def header_count_def uintFromBuf_length intFromBuf_length)
  qed
qed

text \<open>Integers, floats, booleans, nil and timestamps have no length bytes.\<close>

lemma header_uint:
  obtains c body where "AppendUint [] v = c # body" "header c [] UintT (len body) (len body)"
proof -
  have "v \<le> 127 \<Longrightarrow> Get (byte_at 0 v) = (UintT, 0, True)" by (simp add: byte_at_0_le)
  then show thesis
    by (cases "AppendUint [] v") (auto simp: AppendUint_def header_def intro!: that split: if_splits)
qed

lemma AppendInt_head:
  "\<exists>c body. AppendInt [] v = c # body \<and> Get c = (msg_type (MInt v), len body, True) \<and> len body \<le> 8"
proof -
  consider "0 \<le> sint v" | "sint v < 0" "- 32 \<le> sint v" | "sint v < - 32" "- 128 \<le> sint v"
    | "sint v < - 128" "- 32768 \<le> sint v" | "sint v < - 32768" "- 2147483648 \<le> sint v" | "sint v < - 2147483648"
    by linarith
  then show ?thesis
  proof cases
    case 1
    then show ?thesis using byte_at_0_le [of v] by (simp add: AppendInt_def AppendUint_def)
  next
    case 2
    then show ?thesis using byte_at_0_ge [of v] by (simp add: AppendInt_def sbyte_at_byte_at)
  qed (simp_all add: AppendInt_def)
qed

lemma header_int:
  obtains c body where "AppendInt [] v = c # body" "header c [] (msg_type (MInt v)) (len body) (len body)"
  using AppendInt_head [of v] by (auto simp: header_def intro: that)

lemma header_float:
  obtains c body where "AppendFloat [] f = c # body" "header c [] FloatT (len body) (len body)"
    "floatFromBuf body = Ret f" "len body \<le> 8"
  using float_eq_narrow [of f]
  by (cases "AppendFloat [] f")
    (auto simp: AppendFloat_def header_def Let_def floatFromBuf_bytes intro!: that split: if_splits)

lemma header_time:
  assumes "msg_ok (MTime t f)"
  obtains c body where "AppendTimestamp [] t f = c # body" "header c [] ExtT (len body) (len body)" "len body \<le> 9"
  using assms
  by (cases "ts_format t f")
    (auto simp: AppendTimestamp_def header_def Let_def intro!: that)

text \<open>The body of a message, as the readers of the iterator take it from its head byte.\<close>

fun decodes :: "msg \<Rightarrow> byte \<Rightarrow> bytes \<Rightarrow> bool" where
  "decodes (MBool b) c body \<longleftrightarrow> readBoolUnsafe c = b \<and> body = []"
| "decodes (MInt v) c body \<longleftrightarrow> readIntUnsafe c body = Ret v \<and> len body \<le> 8"
| "decodes (MUint v) c body \<longleftrightarrow> readIntUnsafe c body = Ret v \<and> len body \<le> 8"
| "decodes (MFloat f) c body \<longleftrightarrow> floatFromBuf body = Ret f \<and> len body \<le> 8"
| "decodes (MStr s) c body \<longleftrightarrow> body = s"
| "decodes (MBin s) c body \<longleftrightarrow> body = s"
| "decodes (MTime t f) c body \<longleftrightarrow> readTimeUnsafe c body = Ret t \<and> len body \<le> 9"
| "decodes m c body \<longleftrightarrow> body = []"

lemma readIntUnsafe_AppendUint:
  assumes "AppendUint [] v = c # body"
  shows "readIntUnsafe c body = Ret v \<and> len body \<le> 8"
proof (cases "0 \<le> sint v")
  case True
  then have a: "AppendInt [] v = c # body" using assms by (simp add: AppendInt_def)
  with readIntUnsafe_AppendInt [OF a] AppendInt_head [of v] show ?thesis by auto
next
  case False
  then have "\<not> v \<le> 0x7fffffffffffffff" by (simp add: sint_nonneg_iff)
  then have "c # body = [0xcf, byte_at 56 v, byte_at 48 v, byte_at 40 v, byte_at 32 v, byte_at 24 v, byte_at 16 v,
      byte_at 8 v, byte_at 0 v]"
    using assms by (auto simp: AppendUint_def word_le_nat_alt split: if_splits)
  then show ?thesis by (simp add: readIntUnsafe_def be_simps)
qed

lemma header_scalar:
  assumes "msg_ok m" and "\<not> container m"
  obtains c lb body k where "encode m = c # lb @ body" "header c lb (msg_type m) (len body) k"
    "msg_short m \<Longrightarrow> k = len body" "decodes m c body"
proof (cases m)
  case MNil
  then show thesis by (intro that [of "0xc0" "[]" "[]" 0]) (simp_all add: AppendNil_def header_def)
next
  case (MBool b)
  then show thesis
    by (intro that [of "if b then 0xc3 else 0xc2" "[]" "[]" 0]) (simp_all add: AppendBool_def header_def readBoolUnsafe_def)
next
  case (MInt v)
  obtain c body where "AppendInt [] v = c # body" "header c [] (msg_type (MInt v)) (len body) (len body)"
    by (rule header_int)
  with MInt readIntUnsafe_AppendInt [of v c body] AppendInt_head [of v] show thesis by (intro that [of c "[]" body "len body"]) simp_all
next
  case (MUint v)
  obtain c body where "AppendUint [] v = c # body" "header c [] UintT (len body) (len body)"
    by (rule header_uint)
  with MUint readIntUnsafe_AppendUint [of v c body] show thesis by (intro that [of c "[]" body "len body"]) simp_all
next
  case (MFloat f)
  obtain c body where "AppendFloat [] f = c # body" "header c [] FloatT (len body) (len body)"
    "floatFromBuf body = Ret f" "len body \<le> 8"
    by (rule header_float)
  with MFloat show thesis by (intro that [of c "[]" body "len body"]) simp_all
next
  case (MStr s)
  with assms obtain c lb where "AppendString [] s = c # lb @ s"
    "header c lb StrT (len s) (signed_length 31 (len s))" using header_string [of s] by auto
  with MStr show thesis by (intro that [of c lb s "signed_length 31 (len s)"]) simp_all
next
  case (MBin s)
  with assms obtain c lb where "AppendBinary [] s = c # lb @ s"
    "header c lb BinT (len s) (bin_length (len s))" using header_binary [of s] by auto
  with MBin show thesis by (intro that [of c lb s "bin_length (len s)"]) simp_all
next
  case (MTime t f)
  with assms obtain c body where "AppendTimestamp [] t f = c # body" "header c [] ExtT (len body) (len body)" "len body \<le> 9"
    using header_time by metis
  with MTime assms readTimeUnsafe_AppendTimestamp [of f t c body] show thesis by (intro that [of c "[]" body "len body"]) simp_all
qed (use assms in simp_all)

lemma msg_type_container: "\<not> container m \<Longrightarrow> msg_type m \<noteq> ArrayT \<and> msg_type m \<noteq> MapT"
  by (cases m) auto

subsection \<open>Well-formed encodings\<close>

text \<open>
  \<open>wire m bs\<close>: the bytes \<open>bs\<close> are an encoding of \<open>m\<close>, with any of the headers that announce its
  length. The append functions choose the shortest one, those that take a callback do not.
\<close>

inductive wire :: "msg \<Rightarrow> bytes \<Rightarrow> bool" where
  wire_scalar: "\<not> container m \<Longrightarrow> header c lb (msg_type m) (len body) k \<Longrightarrow> decodes m c body \<Longrightarrow>
    wire m (c # lb @ body)"
| wire_array: "header c lb ArrayT (len ms) k \<Longrightarrow> list_all2 wire ms bss \<Longrightarrow>
    wire (MArray ms) (c # lb @ concat bss)"
| wire_map: "header c lb MapT (len kvs) k \<Longrightarrow>
    list_all2 (\<lambda>kv b. wire (fst kv) (fst b) \<and> wire (snd kv) (snd b)) kvs bss \<Longrightarrow>
    wire (MMap kvs) (c # lb @ concat (map (\<lambda>b. fst b @ snd b) bss))"

inductive_cases wire_ArrayE: "wire (MArray ms) bs"
inductive_cases wire_MapE: "wire (MMap kvs) bs"
inductive_cases wire_E: "wire m bs"

lemma wire_not_Nil: "wire m bs \<Longrightarrow> bs \<noteq> []"
  by (auto elim: wire_E)

lemma encode_wire: "msg_ok m \<Longrightarrow> wire m (encode m)"
proof (induction m rule: encode.induct)
  case (9 ms)
  then have "list_all2 wire ms (map encode ms)" by (auto simp: list_all2_conv_all_nth)
  moreover obtain c lb where "AppendArrayHeader [] (len ms) = c # lb" "header c lb ArrayT (len ms) (header_count (len ms))"
    using header_array [of "len ms"] "9.prems" by auto
  ultimately show ?case using wire_array [of c lb ms _ "map encode ms"] by simp
next
  case (10 kvs)
  then have "list_all2 (\<lambda>kv b. wire (fst kv) (fst b) \<and> wire (snd kv) (snd b)) kvs (map (\<lambda>kv. (encode (fst kv), encode (snd kv))) kvs)"
    unfolding list.rel_map by (intro list.rel_refl_strong) (use 10 in force)
  moreover obtain c lb where "AppendMapHeader [] (len kvs) = c # lb" "header c lb MapT (len kvs) (header_count (len kvs))"
    using header_map [of "len kvs"] "10.prems" by auto
  ultimately show ?case using wire_map [of c lb kvs _ "map (\<lambda>kv. (encode (fst kv), encode (snd kv))) kvs"]
    by (simp add: comp_def)
qed (metis header_scalar wire_scalar container.simps)+

end
