(* ===== verification/Format.thy ===== *)
theory Format
  imports Floats Timestamp
begin

text \<open>
  What the code uses of \<open>strconv\<close> and \<open>encoding/hex\<close>: decimal integers, booleans, fixed-point
  floats with six decimals and hexadecimal bytes, all as bytes. \<open>text s\<close> is a string constant of
  the source as bytes.
\<close>

definition text_bytes :: "string \<Rightarrow> bytes" where
  "text_bytes s = map of_char s"

fun digits :: "nat \<Rightarrow> bytes" where
  "digits n = (if n < 10 then [] else digits (n div 10)) @ [0x30 + of_nat (n mod 10)]"

declare digits.simps [simp del]

lemma digits_eval:
  "n < 10 \<Longrightarrow> digits n = [0x30 + of_nat n]"
  "10 \<le> n \<Longrightarrow> digits n = digits (n div 10) @ [0x30 + of_nat (n mod 10)]"
  by (simp_all add: digits.simps [of n])

text \<open>\<open>strconv.AppendInt(nil, n, 10)\<close>\<close>

definition itoa :: "int \<Rightarrow> bytes" where
  "itoa n = (if n < 0 then 0x2d # digits (nat (- n)) else digits (nat n))"

definition FormatBool :: "bool \<Rightarrow> bytes" where
  "FormatBool b = (if b then text_bytes ''true'' else text_bytes ''false'')"

text \<open>
  \<open>strconv.FormatFloat(f, 'f', 6, 64)\<close>: the value is \<open>sig * 2 ^ (e - 1075)\<close>, and its millionths
  are rounded to nearest, ties to even.
\<close>

definition FormatFloat :: "f64 \<Rightarrow> bytes" where
  "FormatFloat f =
     (let e = f64_exp f; m = f64_man f; sign = (if f64_sign f = 1 then text_bytes ''-'' else []) in
      if e = 2047 then
        (if m \<noteq> 0 then text_bytes ''NaN''
         else if f64_sign f = 1 then text_bytes ''-Inf'' else text_bytes ''+Inf'')
      else
        let e1 = max e 1; sig = m + (if e = 0 then 0 else 2 ^ 52);
            n = (if e1 \<ge> 1075 then sig * 2 ^ (e1 - 1075) * 10 ^ 6 else rne (sig * 10 ^ 6) (1075 - e1));
            frac = digits (n mod 10 ^ 6)
        in sign @ digits (n div 10 ^ 6) @ [0x2e] @ replicate (6 - length frac) 0x30 @ frac)"

definition hex_digit :: "nat \<Rightarrow> byte" where
  "hex_digit n = of_nat (if n < 10 then 0x30 + n else 0x57 + n)"

definition hex_Encode :: "bytes \<Rightarrow> bytes" where
  "hex_Encode bs = concat (map (\<lambda>b. [hex_digit (unat b div 16), hex_digit (unat b mod 16)]) bs)"

lemma replicate_5: "replicate 5 c = [c, c, c, c, c]"
  by (simp add: numeral_eq_Suc)

lemma FormatFloat_finite:
  fixes f :: f64
  assumes "f64_exp f = e" "e \<noteq> 2047" "f64_man f + (if e = 0 then 0 else 2 ^ 52) = sig"
    and "(if max e 1 \<ge> 1075 then sig * 2 ^ (max e 1 - 1075) * 10 ^ 6 else rne (sig * 10 ^ 6) (1075 - max e 1)) = n"
  shows "FormatFloat f = (if f64_sign f = 1 then text_bytes ''-'' else []) @ digits (n div 10 ^ 6) @ [0x2e] @
    replicate (6 - length (digits (n mod 10 ^ 6))) 0x30 @ digits (n mod 10 ^ 6)"
  using assms unfolding FormatFloat_def Let_def by (simp only: if_False)

lemmas FormatFloat_eval = f64_exp_def f64_man_def f64_sign_def rne_def digits_eval text_bytes_def replicate_5

lemma FormatFloat_examples:
  "FormatFloat 0x3ff8000000000000 = text_bytes ''1.500000''"
  "FormatFloat 0xbfb999999999999a = text_bytes ''-0.100000''"
  "FormatFloat 0x4341c37937e08000 = text_bytes ''10000000000000000.000000''"
  "FormatFloat 0x8000000000000000 = text_bytes ''-0.000000''"
proof -
  show "FormatFloat 0x3ff8000000000000 = text_bytes ''1.500000''"
    by (rule trans [OF FormatFloat_finite [where e = 1023 and sig = 6755399441055744 and n = 1500000]]) (simp_all add: FormatFloat_eval)
  show "FormatFloat 0xbfb999999999999a = text_bytes ''-0.100000''"
    by (rule trans [OF FormatFloat_finite [where e = 1019 and sig = 7205759403792794 and n = 100000]]) (simp_all add: FormatFloat_eval)
  show "FormatFloat 0x4341c37937e08000 = text_bytes ''10000000000000000.000000''"
    by (rule trans [OF FormatFloat_finite [where e = 1076 and sig = 5000000000000000 and n = "10 ^ 22"]]) (simp_all add: FormatFloat_eval)
  show "FormatFloat 0x8000000000000000 = text_bytes ''-0.000000''"
    by (rule trans [OF FormatFloat_finite [where e = 0 and sig = 0 and n = 0]]) (simp_all add: FormatFloat_eval)
qed

lemma format_examples:
  "itoa (- 120) = text_bytes ''-120''" "itoa 0 = text_bytes ''0''"
  "hex_Encode [0xab, 7] = text_bytes ''ab07''"
  by (simp_all add: itoa_def hex_Encode_def hex_digit_def digits_eval text_bytes_def)

end
