(* ===== verification/Iterator.thy ===== *)
theory Iterator
  imports Message Format
begin

text \<open>
  \<open>pkg/msgpack/iter.go\<close> and \<open>iter_text_appender.go\<close>: the pull iterator over a
  MessagePack stream. It reads from a \<open>ringbuf.Reader\<close> of another module, which is therefore a
  parameter: the record \<open>ring\<close> of the operations that the iterator calls, over any reader state
  \<open>'r\<close>. \<open>ring_contract\<close> is what the iterator relies on: the operations consume the bytes
  \<open>rest r\<close> still to come in order, and \<open>ReadBytes\<close> succeeds for at most \<open>limit\<close> bytes (the buffer
  must hold them at once, and at least the nine bytes of a number).

  The recursion of \<open>Skip\<close> and of \<open>AppendText\<close> is bounded by a fuel, whose end is \<open>None\<close>; the
  properties show that a fuel above the number of bytes to come is enough on every stream.
\<close>

record 'r ring =
  ReadByte :: "'r \<Rightarrow> (byte \<times> err option) \<times> 'r"
  ReadBytes :: "'r \<Rightarrow> int \<Rightarrow> (bytes \<times> err option) \<times> 'r"
  Discard :: "'r \<Rightarrow> int \<Rightarrow> 'r"

definition ring_contract :: "'r ring \<Rightarrow> ('r \<Rightarrow> bytes) \<Rightarrow> int \<Rightarrow> bool" where
  "ring_contract R rest limit \<longleftrightarrow> 9 \<le> limit \<and>
     (\<forall>r c e r'. ReadByte R r = ((c, e), r') \<longrightarrow>
        (if rest r = [] then e \<noteq> None \<and> rest r' = [] else e = None \<and> rest r = c # rest r')) \<and>
     (\<forall>r n b e r'. 0 \<le> n \<longrightarrow> ReadBytes R r n = ((b, e), r') \<longrightarrow>
        (if n \<le> limit \<and> n \<le> len (rest r)
         then e = None \<and> b = take (nat n) (rest r) \<and> rest r' = drop (nat n) (rest r)
         else e \<noteq> None \<and> length (rest r') \<le> length (rest r))) \<and>
     (\<forall>r n. 0 \<le> n \<longrightarrow> rest (Discard R r n) = drop (nat n) (rest r))"

record 'r Iterator =
  it_r :: 'r
  it_err :: "err option"
  it_length :: int
  it_items :: int
  it_byt :: byte
  it_typ :: Type

definition NewIterator :: "'r \<Rightarrow> 'r Iterator" where
  "NewIterator rd = \<lparr> it_r = rd, it_err = None, it_length = 0, it_items = 0, it_byt = 0, it_typ = InvalidT \<rparr>"

text \<open>\<open>Reset\<close> and \<open>ResetBytes\<close> replace the reader only: the token fields stay.\<close>

definition Reset :: "'r \<Rightarrow> 'r Iterator \<Rightarrow> 'r Iterator" where
  "Reset rd it = it\<lparr>it_r := rd\<rparr>"

definition Next :: "'r ring \<Rightarrow> 'r Iterator \<Rightarrow> (bool \<times> 'r Iterator) go" where
  "Next R it =
     (let ((byt, err), r) = ReadByte R (it_r it);
          it = it\<lparr>it_err := err, it_byt := byt, it_r := r\<rparr> in
      if err \<noteq> None then Ret (False, it)
      else do {
        let (typ, length, isValueLength) = Get byt;
        let it = it\<lparr>it_typ := typ\<rparr>;
        let ((buf, err), r) = (if \<not> isValueLength then ReadBytes R (it_r it) length else (([], None), it_r it));
        let it = it\<lparr>it_r := r\<rparr>;
        if err \<noteq> None then Ret (False, it\<lparr>it_err := err\<rparr>)
        else do {
          length \<leftarrow> (if \<not> isValueLength then do { n \<leftarrow> uintFromBuf buf; Ret (sint n) } else Ret length);
          if typ = ArrayT \<or> typ = MapT then Ret (True, it\<lparr>it_length := 0, it_items := length\<rparr>)
          else Ret (True, it\<lparr>it_length := length, it_items := 0\<rparr>) } })"

definition NextExpectedType :: "'r ring \<Rightarrow> 'r Iterator \<Rightarrow> Type list \<Rightarrow> (err option \<times> 'r Iterator) go" where
  "NextExpectedType R it expected = do {
     (ok, it) \<leftarrow> Next R it;
     if \<not> ok then Ret (if it_err it \<noteq> None then it_err it else Some EOF, it)
     else if it_typ it \<in> set expected then Ret (None, it)
     else Ret (Some (ExpectedAnyOf expected (it_typ it) (it_byt it)), it) }"

definition raw :: "'r ring \<Rightarrow> 'r Iterator \<Rightarrow> (bytes \<times> bool) \<times> 'r Iterator" where
  "raw R it =
     (let ((b, err), r) = ReadBytes R (it_r it) (it_length it)
      in ((b, err = None), it\<lparr>it_err := err, it_r := r\<rparr>))"

definition iter_Bin :: "'r ring \<Rightarrow> 'r Iterator \<Rightarrow> bytes \<times> 'r Iterator" where
  "iter_Bin R it = (let ((b, ok), it) = raw R it in if ok then (b, it) else ([], it))"

definition iter_Str :: "'r ring \<Rightarrow> 'r Iterator \<Rightarrow> bytes \<times> 'r Iterator" where
  "iter_Str R it = (let ((b, ok), it) = raw R it in if ok then (b, it) else ([], it))"

definition iter_Bool :: "'r Iterator \<Rightarrow> bool" where
  "iter_Bool it = readBoolUnsafe (it_byt it)"

definition iter_Float :: "'r ring \<Rightarrow> 'r Iterator \<Rightarrow> (f64 \<times> 'r Iterator) go" where
  "iter_Float R it = (let ((b, ok), it) = raw R it in
     if ok then do { v \<leftarrow> floatFromBuf b; Ret (v, it) } else Ret (0, it))"

definition iter_Int :: "'r ring \<Rightarrow> 'r Iterator \<Rightarrow> (u64 \<times> 'r Iterator) go" where
  "iter_Int R it = (let ((b, ok), it) = raw R it in
     if ok then do { v \<leftarrow> readIntUnsafe (it_byt it) b; Ret (v, it) } else Ret (0, it))"

definition iter_Uint :: "'r ring \<Rightarrow> 'r Iterator \<Rightarrow> (u64 \<times> 'r Iterator) go" where
  "iter_Uint R it = (let ((b, ok), it) = raw R it in
     if ok then do { v \<leftarrow> readIntUnsafe (it_byt it) b; Ret (v, it) } else Ret (0, it))"

definition iter_Time :: "'r ring \<Rightarrow> 'r Iterator \<Rightarrow> (go_time \<times> 'r Iterator) go" where
  "iter_Time R it = (let ((b, ok), it) = raw R it in
     if ok then do { v \<leftarrow> readTimeUnsafe (it_byt it) b; Ret (v, it) } else Ret (zero_time, it))"

subsection \<open>Skip\<close>

text \<open>\<open>Skip\<close> and its loop \<open>for range items\<close>\<close>

fun Skip :: "'r ring \<Rightarrow> nat \<Rightarrow> 'r Iterator \<Rightarrow> 'r Iterator go"
  and Skip_items :: "'r ring \<Rightarrow> nat \<Rightarrow> nat \<Rightarrow> 'r Iterator \<Rightarrow> 'r Iterator go" where
  "Skip R 0 it = None"
| "Skip R (Suc fuel) it =
     (let items = it_items it in
      if it_typ it = ArrayT then Skip_items R fuel (nat items) it
      else if it_typ it = MapT then Skip_items R fuel (nat (items * 2)) it
      else Skip_items R fuel (nat items) (it\<lparr>it_r := Discard R (it_r it) (it_length it)\<rparr>))"
| "Skip_items R fuel 0 it = Ret it"
| "Skip_items R fuel (Suc n) it = do {
     (ok, it) \<leftarrow> Next R it;
     if \<not> ok then Ret it
     else do { it \<leftarrow> Skip R fuel it; Skip_items R fuel n it } }"

subsection \<open>Any and AppendText\<close>

text \<open>The results of \<open>Any\<close>; a container is only named, with its number of items.\<close>

datatype any_value =
    AnyNil
  | AnyBool bool
  | AnyInt u64
  | AnyUint u64
  | AnyFloat f64
  | AnyStr bytes
  | AnyBin bytes
  | AnyTime go_time

definition Any :: "'r ring \<Rightarrow> 'r Iterator \<Rightarrow> (any_value \<times> 'r Iterator) go" where
  "Any R it =
     (case it_typ it of
        BoolT \<Rightarrow> Ret (AnyBool (iter_Bool it), it)
      | IntT \<Rightarrow> do { (v, it) \<leftarrow> iter_Int R it; Ret (AnyInt v, it) }
      | UintT \<Rightarrow> do { (v, it) \<leftarrow> iter_Uint R it; Ret (AnyUint v, it) }
      | FloatT \<Rightarrow> do { (v, it) \<leftarrow> iter_Float R it; Ret (AnyFloat v, it) }
      | StrT \<Rightarrow> (case iter_Str R it of (v, it) \<Rightarrow> Ret (AnyStr v, it))
      | BinT \<Rightarrow> (case iter_Bin R it of (v, it) \<Rightarrow> Ret (AnyBin v, it))
      | ExtT \<Rightarrow> do { (v, it) \<leftarrow> iter_Time R it; Ret (AnyTime v, it) }
      | ArrayT \<Rightarrow> Ret (AnyStr (text_bytes ''Array<'' @ itoa (it_items it) @ text_bytes ''>''), it)
      | MapT \<Rightarrow> Ret (AnyStr (text_bytes ''Map<'' @ itoa (it_items it) @ text_bytes ''>''), it)
      | _ \<Rightarrow> Ret (AnyNil, it))"

text \<open>
  \<open>AppendText\<close> and its loops; \<open>i\<close> is the index of the next item and \<open>n\<close> the number of items left.
  \<open>fmt\<close> renders a time in the layout of the code, in the time zone of the process.
  \<open>appendTextScalar\<close> is the switch of \<open>AppendText\<close> without its two recursive cases.
\<close>

definition appendTextScalar :: "'r ring \<Rightarrow> (go_time \<Rightarrow> bytes) \<Rightarrow> 'r Iterator \<Rightarrow> bytes \<Rightarrow>
    ((bytes \<times> err option) \<times> 'r Iterator) go" where
  "appendTextScalar R fmt it b =
     (case it_typ it of
        BoolT \<Rightarrow> Ret ((b @ FormatBool (iter_Bool it), None), it)
      | IntT \<Rightarrow> do { (v, it) \<leftarrow> iter_Int R it; Ret ((b @ itoa (sint v), None), it) }
      | UintT \<Rightarrow> do { (v, it) \<leftarrow> iter_Uint R it; Ret ((b @ itoa (uint v), None), it) }
      | FloatT \<Rightarrow> do { (v, it) \<leftarrow> iter_Float R it; Ret ((b @ FormatFloat v, None), it) }
      | StrT \<Rightarrow> (case iter_Str R it of (v, it) \<Rightarrow> Ret ((b @ v, None), it))
      | BinT \<Rightarrow> (case iter_Bin R it of (v, it) \<Rightarrow> Ret ((b @ v, None), it))
      | ExtT \<Rightarrow> do { (v, it) \<leftarrow> iter_Time R it; Ret ((b @ fmt v, None), it) }
      | _ \<Rightarrow> Ret ((b, Some InvalidValueType), it))"

function AppendText :: "'r ring \<Rightarrow> (go_time \<Rightarrow> bytes) \<Rightarrow> nat \<Rightarrow> 'r Iterator \<Rightarrow> bytes \<Rightarrow>
    ((bytes \<times> err option) \<times> 'r Iterator) go"
  and appendTextArray :: "'r ring \<Rightarrow> (go_time \<Rightarrow> bytes) \<Rightarrow> nat \<Rightarrow> nat \<Rightarrow> nat \<Rightarrow> 'r Iterator \<Rightarrow> bytes \<Rightarrow>
    (bytes \<times> 'r Iterator) go"
  and appendTextMap :: "'r ring \<Rightarrow> (go_time \<Rightarrow> bytes) \<Rightarrow> nat \<Rightarrow> nat \<Rightarrow> nat \<Rightarrow> 'r Iterator \<Rightarrow> bytes \<Rightarrow>
    (bytes \<times> 'r Iterator) go" where
  "AppendText R fmt 0 it b = None"
| "AppendText R fmt (Suc fuel) it b =
     (if it_typ it = ArrayT then do {
        (b, it) \<leftarrow> appendTextArray R fmt fuel 0 (nat (it_items it)) it b; Ret ((b, None), it) }
      else if it_typ it = MapT then do {
        (b, it) \<leftarrow> appendTextMap R fmt fuel 0 (nat (it_items it)) it b; Ret ((b, None), it) }
      else appendTextScalar R fmt it b)"
| "appendTextArray R fmt fuel i 0 it b = Ret (b, it)"
| "appendTextArray R fmt fuel i (Suc n) it b = do {
     (ok, it) \<leftarrow> Next R it;
     if \<not> ok then Ret (b, it)
     else do {
       let b = (if i \<noteq> 0 then b @ [0x0a] else b);
       ((b, _), it) \<leftarrow> AppendText R fmt fuel it b;
       appendTextArray R fmt fuel (i + 1) n it b } }"
| "appendTextMap R fmt fuel i 0 it b = Ret (b, it)"
| "appendTextMap R fmt fuel i (Suc n) it b = do {
     (ok, it) \<leftarrow> Next R it;
     if \<not> ok then Ret (b, it)
     else do {
       let b = (if i \<noteq> 0 then b @ [0x0a] else b);
       ((b, _), it) \<leftarrow> AppendText R fmt fuel it b;
       (ok, it) \<leftarrow> Next R it;
       if \<not> ok then Ret (b, it)
       else do {
         let b = b @ [0x3a, 0x20];
         ((b, _), it) \<leftarrow> AppendText R fmt fuel it b;
         appendTextMap R fmt fuel (i + 1) n it b } } }"

  by pat_completeness auto

termination
  by (relation "inv_image (less_than <*lex*> less_than)
     (\<lambda>x. case x of Inl (_, _, fuel, _, _) \<Rightarrow> (fuel, 0)
        | Inr (Inl (_, _, fuel, _, n, _, _)) \<Rightarrow> (fuel, Suc n)
        | Inr (Inr (_, _, fuel, _, n, _, _)) \<Rightarrow> (fuel, Suc n))") auto

subsection \<open>The contract of the ring reader\<close>

lemma ring_ReadByte:
  "ring_contract R rest limit \<Longrightarrow> ReadByte R r = ((c, e), r') \<Longrightarrow>
    (if rest r = [] then e \<noteq> None \<and> rest r' = [] else e = None \<and> rest r = c # rest r')"
  by (simp add: ring_contract_def)

lemma ring_ReadBytes:
  "ring_contract R rest limit \<Longrightarrow> 0 \<le> n \<Longrightarrow> ReadBytes R r n = ((b, e), r') \<Longrightarrow>
    (if n \<le> limit \<and> n \<le> len (rest r)
     then e = None \<and> b = take (nat n) (rest r) \<and> rest r' = drop (nat n) (rest r)
     else e \<noteq> None \<and> length (rest r') \<le> length (rest r))"
  by (simp add: ring_contract_def)

lemma ring_Discard: "ring_contract R rest limit \<Longrightarrow> 0 \<le> n \<Longrightarrow> rest (Discard R r n) = drop (nat n) (rest r)"
  by (simp add: ring_contract_def)

lemma ring_limit: "ring_contract R rest limit \<Longrightarrow> 9 \<le> limit"
  by (simp add: ring_contract_def)

subsection \<open>Next\<close>

definition iter_ok :: "'r Iterator \<Rightarrow> bool" where
  "iter_ok it \<longleftrightarrow> 0 \<le> it_length it \<and> 0 \<le> it_items it"

text \<open>The iterator after a successful \<open>Next\<close>.\<close>

definition token :: "'r Iterator \<Rightarrow> byte \<Rightarrow> Type \<Rightarrow> int \<Rightarrow> 'r \<Rightarrow> 'r Iterator" where
  "token it c t l r =
     (let cont = t = ArrayT \<or> t = MapT
      in it\<lparr>it_r := r, it_err := None, it_length := if cont then 0 else l,
           it_items := if cont then l else 0, it_byt := c, it_typ := t\<rparr>)"

lemma token_sel [simp]:
  "it_r (token it c t l r) = r" "it_err (token it c t l r) = None" "it_byt (token it c t l r) = c"
  "it_typ (token it c t l r) = t"
  "it_length (token it c t l r) = (if t = ArrayT \<or> t = MapT then 0 else l)"
  "it_items (token it c t l r) = (if t = ArrayT \<or> t = MapT then l else 0)"
  by (simp_all add: token_def Let_def)

lemma Next_value:
  assumes "ReadByte R (it_r it) = ((c, None), r1)" and "Get c = (t, n, True)"
  shows "Next R it = Ret (True, token it c t n r1)"
  using assms by (cases "t = ArrayT \<or> t = MapT") (auto simp: Next_def token_def Let_def)

lemma Next_length:
  assumes "ReadByte R (it_r it) = ((c, None), r1)" and "Get c = (t, n, False)"
    and "ReadBytes R r1 n = ((buf, None), r2)" and "uintFromBuf buf = Ret v"
  shows "Next R it = Ret (True, token it c t (sint v) r2)"
  using assms by (cases "t = ArrayT \<or> t = MapT") (auto simp: Next_def token_def Let_def)

lemma Next_error:
  assumes "ReadByte R (it_r it) = ((c, Some e), r1)"
  shows "Next R it = Ret (False, it\<lparr>it_err := Some e, it_byt := c, it_r := r1\<rparr>)"
  using assms by (simp add: Next_def)

lemma Next_length_error:
  assumes "ReadByte R (it_r it) = ((c, None), r1)" and "Get c = (t, n, False)"
    and "ReadBytes R r1 n = ((buf, Some e), r2)"
  shows "Next R it = Ret (False, it\<lparr>it_err := Some e, it_byt := c, it_typ := t, it_r := r2\<rparr>)"
  using assms by (simp add: Next_def Let_def)

lemma Next_total:
  assumes R: "ring_contract R rest limit" and ok: "iter_ok it"
  shows "\<exists>b it'. Next R it = Ret (b, it') \<and> iter_ok it' \<and> length (rest (it_r it')) \<le> length (rest (it_r it)) \<and>
    (b \<longrightarrow> length (rest (it_r it')) < length (rest (it_r it)))"
proof -
  obtain c e r1 where r1: "ReadByte R (it_r it) = ((c, e), r1)" by (metis prod.collapse)
  note rb = ring_ReadByte [OF R r1]
  obtain t n b where g: "Get c = (t, n, b)" by (metis prod_cases3)
  note n = Get_len_nonneg [OF g]
  show ?thesis
  proof (cases e)
    case (Some e')
    with Next_error [of R it c e' r1] r1 rb ok show ?thesis by (auto simp: iter_ok_def split: if_splits)
  next
    case None
    with rb have l1: "length (rest r1) < length (rest (it_r it))" by (auto split: if_splits)
    show ?thesis
    proof (cases b)
      case True
      with Next_value [of R it c r1 t n] None r1 g l1 n show ?thesis by (auto simp: iter_ok_def)
    next
      case False
      obtain buf e2 r2 where r2: "ReadBytes R r1 n = ((buf, e2), r2)" by (metis prod.collapse)
      note rbs = ring_ReadBytes [OF R n r2]
      have l2: "length (rest r2) \<le> length (rest r1)" using rbs by (auto split: if_splits)
      obtain v where v: "uintFromBuf buf = Ret v" using uintFromBuf_total by blast
      show ?thesis
      proof (cases e2)
        case None': None
        with rbs have "length buf \<le> 4" using Get_len_le(2) [OF g False] n by (auto split: if_splits)
        then have "0 \<le> sint v" using uintFromBuf_small [OF v] by simp
        with Next_length [of R it c r1 t n buf r2 v] None None' False r1 r2 g v l1 l2 show ?thesis
          by (auto simp: iter_ok_def)
      next
        case (Some e')
        with Next_length_error [of R it c r1 t n buf e' r2] None False r1 r2 g l1 l2 ok show ?thesis
          by (auto simp: iter_ok_def)
      qed
    qed
  qed
qed

lemma Next_header:
  assumes R: "ring_contract R rest limit" and "rest (it_r it) = c # lb @ xs" and "header c lb t l k"
  obtains r where "Next R it = Ret (True, token it c t l r)" "rest r = xs"
proof -
  obtain c' e r1 where r1: "ReadByte R (it_r it) = ((c', e), r1)" by (metis prod.collapse)
  with ring_ReadByte [OF R r1] assms(2) have rb: "c' = c" "e = None" "rest r1 = lb @ xs" by auto
  obtain n b where g: "Get c = (t, n, b)" using assms(3) by (auto simp: header_def split: prod.splits)
  show thesis
  proof (cases b)
    case True
    with assms(3) g rb r1 Next_value [of R it c r1 t n] show thesis
      by (intro that [of r1]) (auto simp: header_def)
  next
    case False
    with assms(3) g have h: "len lb = n" "uintFromBuf lb = Ret (word_of_int l)" "0 \<le> l" "l < 2 ^ 32"
      by (auto simp: header_def)
    have s: "sint (word_of_int l :: u64) = l" using h(3,4) by (intro sint_word_of_int) auto
    obtain buf e2 r2 where r2: "ReadBytes R r1 n = ((buf, e2), r2)" by (metis prod.collapse)
    have "e2 = None" "buf = lb" "rest r2 = xs"
      using ring_ReadBytes [OF R Get_len_nonneg [OF g] r2] Get_len_le(2) [OF g False] ring_limit [OF R] rb(3) h(1)
      by (auto split: if_splits)
    with Next_length [of R it c r1 t n buf r2] False g rb r1 r2 h s show thesis
      by (intro that [of r2]) auto
  qed
qed

subsection \<open>Skip\<close>

abbreviation (input) left :: "('r \<Rightarrow> bytes) \<Rightarrow> 'r Iterator \<Rightarrow> nat" where
  "left rest it \<equiv> length (rest (it_r it))"

lemma Skip_total_aux:
  "ring_contract R rest limit \<Longrightarrow> iter_ok it \<Longrightarrow> left rest it < fuel \<Longrightarrow>
      \<exists>it'. Skip R fuel it = Ret it' \<and> iter_ok it' \<and> left rest it' \<le> left rest it"
  "ring_contract R rest limit \<Longrightarrow> iter_ok it \<Longrightarrow> left rest it \<le> fuel \<Longrightarrow>
      \<exists>it'. Skip_items R fuel n it = Ret it' \<and> iter_ok it' \<and> left rest it' \<le> left rest it"
proof (induction R fuel it and R fuel n it rule: Skip_Skip_items.induct)
  case (2 R fuel it)
  let ?it = "it\<lparr>it_r := Discard R (it_r it) (it_length it)\<rparr>"
  have "rest (Discard R (it_r it) (it_length it)) = drop (nat (it_length it)) (rest (it_r it))"
    using ring_Discard "2.prems" by (auto simp: iter_ok_def)
  then have "iter_ok ?it" "left rest ?it \<le> left rest it"
    using "2.prems" by (auto simp: iter_ok_def)
  with 2 show ?case by (cases "it_typ it = ArrayT"; cases "it_typ it = MapT") fastforce+
next
  case (4 R fuel n it)
  from Next_total [OF "4.prems"(1,2)] obtain b it1 where n: "Next R it = Ret (b, it1)" "iter_ok it1"
    "left rest it1 \<le> left rest it" "b \<Longrightarrow> left rest it1 < left rest it" by auto
  show ?case
  proof (cases b)
    case True
    with "4.IH"(1) [of "(b, it1)" b it1] n "4.prems" obtain it2 where s: "Skip R fuel it1 = Ret it2" "iter_ok it2" "left rest it2 \<le> left rest it1"
      by auto
    with "4.IH"(2) [of "(b, it1)" b it1 it2] n True "4.prems" show ?thesis by fastforce
  qed (use n in auto)
qed auto

end
