(* ===== verification/Iteration.thy ===== *)
theory Iteration
  imports Iterator
begin

text \<open>
  What the iterator does on well-formed streams. For bytes \<open>bs\<close> that are an encoding of a message
  \<open>m\<close> (\<open>wire m bs\<close>), \<open>skips\<close> says that \<open>Next\<close> and \<open>Skip\<close> consume exactly \<open>bs\<close> and \<open>texts\<close> says
  that \<open>Next\<close> and \<open>AppendText\<close> do and write \<open>text_of m\<close>; both are proved by induction over the
  encoding. The properties at the end also cover streams that are not well-formed.
\<close>

subsection \<open>The headers of well-formed messages, by \<open>Next\<close>\<close>

lemma Next_scalar:
  assumes R: "ring_contract R rest limit" and "wire m bs" "\<not> container m" "rest (it_r it) = bs @ xs"
  obtains c lb body r where "bs = c # lb @ body" "decodes m c body" "Next R it = Ret (True, token it c (msg_type m) (len body) r)"
    "rest r = body @ xs"
proof -
  from assms(2,3) obtain c lb body k where h: "bs = c # lb @ body" "header c lb (msg_type m) (len body) k" "decodes m c body"
    by (auto elim: wire_E)
  from Next_header [OF R _ h(2), of it "body @ xs"] assms(4) h(1) show thesis
    by (metis append.assoc append_Cons that h(3))
qed

lemma Next_array:
  assumes R: "ring_contract R rest limit" and "header c lb ArrayT (len ms) k" "rest (it_r it) = (c # lb @ concat bss) @ xs"
  obtains r where "Next R it = Ret (True, token it c ArrayT (len ms) r)" "rest r = concat bss @ xs"
  using Next_header [OF R _ assms(2), of it "concat bss @ xs"] assms(3) by auto

lemma Next_map:
  assumes R: "ring_contract R rest limit" and "header c lb MapT (len kvs) k"
    and "rest (it_r it) = (c # lb @ concat (map (\<lambda>b. fst b @ snd b) bss)) @ xs"
  obtains r where "Next R it = Ret (True, token it c MapT (len kvs) r)"
    "rest r = concat (map (\<lambda>b. fst b @ snd b) bss) @ xs"
  using Next_header [OF R _ assms(2), of it "concat (map (\<lambda>b. fst b @ snd b) bss) @ xs"] assms(3) by auto

lemma wire_header: "wire m bs \<Longrightarrow> \<exists>c lb l k ys. bs = c # lb @ ys \<and> header c lb (msg_type m) l k"
  by (induction m bs rule: wire.induct) (metis, metis msg_type.simps(9), metis msg_type.simps(10))

lemma Next_wire:
  assumes R: "ring_contract R rest limit" and "wire m bs" "rest (it_r it) = bs @ xs"
  obtains c l r where "Next R it = Ret (True, token it c (msg_type m) l r)" "length (rest r) < length (bs @ xs)"
proof -
  from assms(2) obtain c lb l k ys where "bs = c # lb @ ys" "header c lb (msg_type m) l k"
    using wire_header by metis
  moreover from this assms(3) have "rest (it_r it) = c # lb @ (ys @ xs)" by simp
  from Next_header [OF R this] calculation obtain r where "Next R it = Ret (True, token it c (msg_type m) l r)" "rest r = ys @ xs"
    by metis
  ultimately show thesis by (intro that) auto
qed

subsection \<open>Skip\<close>

definition skips :: "'r ring \<Rightarrow> ('r \<Rightarrow> bytes) \<Rightarrow> bytes \<Rightarrow> bool" where
  "skips R rest bs \<longleftrightarrow> (\<forall>it xs fuel. rest (it_r it) = bs @ xs \<and> left rest it \<le> fuel \<longrightarrow>
     (\<exists>it1 it2. Next R it = Ret (True, it1) \<and> Skip R fuel it1 = Ret it2 \<and> rest (it_r it2) = xs))"

lemma skips_step:
  assumes "skips R rest bs" and "rest (it_r it) = bs @ xs" and "left rest it \<le> fuel"
  obtains it1 it2 where "Next R it = Ret (True, it1)" "Skip R fuel it1 = Ret it2" "rest (it_r it2) = xs" "left rest it2 \<le> fuel"
proof -
  obtain it1 it2 where s: "Next R it = Ret (True, it1)" "Skip R fuel it1 = Ret it2" "rest (it_r it2) = xs"
    using assms unfolding skips_def by blast
  moreover have "left rest it2 \<le> fuel" using assms(2,3) s(3) by simp
  ultimately show thesis by (rule that)
qed

lemma Skip_items_skips:
  assumes "\<forall>bs \<in> set bss. skips R rest bs" and "rest (it_r it) = concat bss @ xs" and "left rest it \<le> fuel"
  shows "\<exists>it'. Skip_items R fuel (length bss) it = Ret it' \<and> rest (it_r it') = xs"
  using assms
proof (induction bss arbitrary: it)
  case (Cons bs bss)
  have b: "skips R rest bs" and r: "rest (it_r it) = bs @ concat bss @ xs" using Cons.prems by simp_all
  obtain it1 it2 where "Next R it = Ret (True, it1)" "Skip R fuel it1 = Ret it2"
    "rest (it_r it2) = concat bss @ xs" "left rest it2 \<le> fuel"
    by (rule skips_step [OF b r Cons.prems(3)])
  with Cons.IH [of it2] Cons.prems(1) show ?case by simp
qed simp

lemma skips_scalar:
  assumes R: "ring_contract R rest limit" and "wire m bs" "\<not> container m"
  shows "skips R rest bs"
  unfolding skips_def
proof (intro allI impI)
  fix it :: "'a Iterator" and xs fuel assume *: "rest (it_r it) = bs @ xs \<and> left rest it \<le> fuel"
  then obtain c lb body r where n: "bs = c # lb @ body" "Next R it = Ret (True, token it c (msg_type m) (len body) r)"
    "rest r = body @ xs"
    using Next_scalar [OF R assms(2,3)] by metis
  with * obtain f where "fuel = Suc f" by (cases fuel) auto
  with n msg_type_container [OF assms(3)] ring_Discard [OF R, of "len body" r]
  show "\<exists>it1 it2. Next R it = Ret (True, it1) \<and> Skip R fuel it1 = Ret it2 \<and> rest (it_r it2) = xs"
    by simp
qed

lemma skips_array:
  assumes R: "ring_contract R rest limit" and h: "header c lb ArrayT (len ms) k"
    and all: "\<forall>bs \<in> set bss. skips R rest bs" and l: "length ms = length bss"
  shows "skips R rest (c # lb @ concat bss)"
  unfolding skips_def
proof (intro allI impI)
  fix it :: "'a Iterator" and xs fuel assume *: "rest (it_r it) = (c # lb @ concat bss) @ xs \<and> left rest it \<le> fuel"
  obtain r where n: "Next R it = Ret (True, token it c ArrayT (len ms) r)" "rest r = concat bss @ xs"
    by (rule Next_array [OF R h conjunct1 [OF *]])
  with * obtain f where f: "fuel = Suc f" "length (rest r) \<le> f" by (cases fuel) auto
  with n l Skip_items_skips [OF all, of "token it c ArrayT (len ms) r" xs f]
  show "\<exists>it1 it2. Next R it = Ret (True, it1) \<and> Skip R fuel it1 = Ret it2 \<and> rest (it_r it2) = xs"
    by simp
qed

lemma skips_map:
  assumes R: "ring_contract R rest limit" and h: "header c lb MapT (len kvs) k"
    and all: "\<forall>b \<in> set bss. skips R rest (fst b) \<and> skips R rest (snd b)" and l: "length kvs = length bss"
  shows "skips R rest (c # lb @ concat (map (\<lambda>b. fst b @ snd b) bss))"
  unfolding skips_def
proof (intro allI impI)
  fix it :: "'a Iterator" and xs fuel
  assume *: "rest (it_r it) = (c # lb @ concat (map (\<lambda>b. fst b @ snd b) bss)) @ xs \<and> left rest it \<le> fuel"
  let ?bs = "concat (map (\<lambda>b. [fst b, snd b]) bss)"
  have e: "concat ?bs = concat (map (\<lambda>b. fst b @ snd b) bss)" by (induction bss) auto
  have lb: "nat (len kvs * 2) = length ?bs" unfolding l by (induction bss) auto
  have all': "\<forall>bs \<in> set ?bs. skips R rest bs" using all by auto
  obtain r where n: "Next R it = Ret (True, token it c MapT (len kvs) r)" "rest r = concat (map (\<lambda>b. fst b @ snd b) bss) @ xs"
    by (rule Next_map [OF R h conjunct1 [OF *]])
  with * obtain f where f: "fuel = Suc f" "length (rest r) \<le> f" by (cases fuel) auto
  with n lb Skip_items_skips [OF all', of "token it c MapT (len kvs) r" xs f, unfolded e]
  show "\<exists>it1 it2. Next R it = Ret (True, it1) \<and> Skip R fuel it1 = Ret it2 \<and> rest (it_r it2) = xs"
    by simp
qed

lemma wire_skips:
  assumes R: "ring_contract R rest limit"
  shows "wire m bs \<Longrightarrow> skips R rest bs"
proof (induction m bs rule: wire.induct)
  case (wire_scalar m c lb body k)
  then show ?case by (intro skips_scalar [OF R wire.wire_scalar])
next
  case (wire_array c lb ms k bss)
  then have "\<forall>bs \<in> set bss. skips R rest bs" "length ms = length bss"
    by (auto simp: list_all2_conv_all_nth in_set_conv_nth)
  then show ?case by (rule skips_array [OF R wire_array.hyps(1)])
next
  case (wire_map c lb kvs k bss)
  have "\<forall>b \<in> set bss. skips R rest (fst b) \<and> skips R rest (snd b)" "length kvs = length bss"
    using wire_map.IH unfolding list_all2_conv_all_nth all_set_conv_all_nth by simp_all
  then show ?case by (rule skips_map [OF R wire_map.hyps(1)])
qed

subsection \<open>Values\<close>

lemma raw_body:
  assumes R: "ring_contract R rest limit" and "rest (it_r it) = body @ xs" "it_length it = len body" "len body \<le> limit"
  obtains r where "raw R it = ((body, True), it\<lparr>it_err := None, it_r := r\<rparr>)" "rest r = xs"
proof -
  obtain b e r where r: "ReadBytes R (it_r it) (len body) = ((b, e), r)" by (metis prod.collapse)
  from ring_ReadBytes [OF R _ r] assms(2,4) have "e = None" "b = body" "rest r = xs" by auto
  with r assms(3) show thesis by (intro that [of r]) (auto simp: raw_def)
qed

text \<open>What \<open>Any\<close> returns and what \<open>AppendText\<close> writes for a message.\<close>

fun value_of :: "msg \<Rightarrow> any_value" where
  "value_of (MBool b) = AnyBool b"
| "value_of (MInt v) = (if 0 \<le> sint v then AnyUint v else AnyInt v)"
| "value_of (MUint v) = AnyUint v"
| "value_of (MFloat f) = AnyFloat f"
| "value_of (MStr s) = AnyStr s"
| "value_of (MBin s) = AnyBin s"
| "value_of (MTime t f) = AnyTime t"
| "value_of (MArray ms) = AnyStr (text_bytes ''Array<'' @ itoa (len ms) @ text_bytes ''>'')"
| "value_of (MMap kvs) = AnyStr (text_bytes ''Map<'' @ itoa (len kvs) @ text_bytes ''>'')"
| "value_of MNil = AnyNil"

fun lines :: "bytes list \<Rightarrow> bytes" where
  "lines [] = []"
| "lines [x] = x"
| "lines (x # y # zs) = x @ [0x0a] @ lines (y # zs)"

fun text_of :: "(go_time \<Rightarrow> bytes) \<Rightarrow> msg \<Rightarrow> bytes" where
  "text_of fmt (MBool b) = FormatBool b"
| "text_of fmt (MInt v) = itoa (sint v)"
| "text_of fmt (MUint v) = itoa (uint v)"
| "text_of fmt (MFloat f) = FormatFloat f"
| "text_of fmt (MStr s) = s"
| "text_of fmt (MBin s) = s"
| "text_of fmt (MTime t f) = fmt t"
| "text_of fmt (MArray ms) = lines (map (text_of fmt) ms)"
| "text_of fmt (MMap kvs) = lines (map (\<lambda>kv. text_of fmt (fst kv) @ [0x3a, 0x20] @ text_of fmt (snd kv)) kvs)"
| "text_of fmt MNil = []"

text \<open>The payloads that the buffer of the reader can hold\<close>

fun fits :: "int \<Rightarrow> msg \<Rightarrow> bool" where
  "fits limit (MStr s) \<longleftrightarrow> len s \<le> limit"
| "fits limit (MBin s) \<longleftrightarrow> len s \<le> limit"
| "fits limit (MArray ms) \<longleftrightarrow> (\<forall>m \<in> set ms. fits limit m)"
| "fits limit (MMap kvs) \<longleftrightarrow> (\<forall>kv \<in> set kvs. fits limit (fst kv) \<and> fits limit (snd kv))"
| "fits limit _ \<longleftrightarrow> True"

lemmas iter_reads = iter_Bool_def iter_Int_def iter_Uint_def iter_Float_def iter_Str_def iter_Bin_def iter_Time_def

lemma decodes_length:
  "decodes m c body \<Longrightarrow> fits limit m \<Longrightarrow> 9 \<le> limit \<Longrightarrow> \<not> container m \<Longrightarrow> len body \<le> limit"
  by (cases m) auto

lemma token_scalar:
  assumes R: "ring_contract R rest limit" and m: "\<not> container m" "decodes m c body" "fits limit m"
    and r: "rest r = body @ xs"
  shows "\<exists>it2. Any R (token it c (msg_type m) (len body) r) = Ret (value_of m, it2) \<and> rest (it_r it2) = xs"
    and "\<exists>it2 e. appendTextScalar R fmt (token it c (msg_type m) (len body) r) b = Ret ((b @ text_of fmt m, e), it2) \<and>
      rest (it_r it2) = xs \<and> (m \<noteq> MNil \<longrightarrow> e = None)"
proof -
  let ?it = "token it c (msg_type m) (len body) r"
  have l: "it_length ?it = len body" using msg_type_container [OF m(1)] by simp
  obtain r2 where r2: "raw R ?it = ((body, True), ?it\<lparr>it_err := None, it_r := r2\<rparr>)" "rest r2 = xs"
    using raw_body [OF R _ l decodes_length [OF m(2,3) ring_limit [OF R] m(1)]] r by auto
  show "\<exists>it2. Any R ?it = Ret (value_of m, it2) \<and> rest (it_r it2) = xs"
    using r2 m r by (cases m) (auto simp: Any_def iter_reads)
  show "\<exists>it2 e. appendTextScalar R fmt ?it b = Ret ((b @ text_of fmt m, e), it2) \<and> rest (it_r it2) = xs \<and>
      (m \<noteq> MNil \<longrightarrow> e = None)"
    using r2 m r by (cases m) (auto simp: appendTextScalar_def iter_reads sint_eq_uint_pos)
qed

definition texts :: "'r ring \<Rightarrow> ('r \<Rightarrow> bytes) \<Rightarrow> (go_time \<Rightarrow> bytes) \<Rightarrow> msg \<Rightarrow> bytes \<Rightarrow> bool" where
  "texts R rest fmt m bs \<longleftrightarrow> (\<forall>it xs fuel b. rest (it_r it) = bs @ xs \<and> left rest it \<le> fuel \<longrightarrow>
     (\<exists>it1 it2 e. Next R it = Ret (True, it1) \<and> AppendText R fmt fuel it1 b = Ret ((b @ text_of fmt m, e), it2) \<and>
       rest (it_r it2) = xs \<and> (m \<noteq> MNil \<longrightarrow> e = None)))"

lemma texts_step:
  assumes "texts R rest fmt m bs" and "rest (it_r it) = bs @ xs" and "left rest it \<le> fuel"
  obtains it1 it2 e where "Next R it = Ret (True, it1)" "AppendText R fmt fuel it1 b = Ret ((b @ text_of fmt m, e), it2)"
    "rest (it_r it2) = xs" "left rest it2 \<le> fuel"
proof -
  obtain it1 it2 e where s: "Next R it = Ret (True, it1)"
    "AppendText R fmt fuel it1 b = Ret ((b @ text_of fmt m, e), it2)" "rest (it_r it2) = xs"
    using assms unfolding texts_def by blast
  have "left rest it2 \<le> fuel" using assms(2,3) s(3) by simp
  with s show thesis by (rule that)
qed

lemma lines_Cons: "lines (x # xs) = x @ (if xs = [] then [] else [0x0a]) @ lines xs"
  by (cases xs) auto

lemma appendTextArray_texts:
  assumes "list_all2 (texts R rest fmt) ms bss" and "rest (it_r it) = concat bss @ xs" and "left rest it \<le> fuel"
  shows "\<exists>it'. appendTextArray R fmt fuel i (length ms) it b =
      Ret (b @ (if i \<noteq> 0 \<and> ms \<noteq> [] then [0x0a] else []) @ lines (map (text_of fmt) ms), it') \<and> rest (it_r it') = xs"
  using assms
proof (induction ms bss arbitrary: it i b rule: list_all2_induct)
  case (Cons m ms bs bss)
  let ?b = "if i \<noteq> 0 then b @ [0x0a] else b"
  have r: "rest (it_r it) = bs @ concat bss @ xs" using Cons.prems by simp
  obtain it1 it2 e where s: "Next R it = Ret (True, it1)"
    "AppendText R fmt fuel it1 ?b = Ret ((?b @ text_of fmt m, e), it2)"
    "rest (it_r it2) = concat bss @ xs" "left rest it2 \<le> fuel"
    by (rule texts_step [OF Cons.hyps(1) r Cons.prems(2)])
  from Cons.IH [OF s(3,4), of "i + 1" "?b @ text_of fmt m"] obtain it' where
    "appendTextArray R fmt fuel (i + 1) (length ms) it2 (?b @ text_of fmt m) =
      Ret ((?b @ text_of fmt m) @ (if ms \<noteq> [] then [0x0a] else []) @ lines (map (text_of fmt) ms), it')" "rest (it_r it') = xs"
    by auto
  with s show ?case by (auto simp: lines_Cons Let_def)
qed simp

lemma appendTextMap_step:
  assumes "Next R it = Ret (True, it1)"
    and "AppendText R fmt fuel it1 (if i \<noteq> 0 then b @ [0x0a] else b) = Ret ((b1, e), it2)"
    and "Next R it2 = Ret (True, it3)" and "AppendText R fmt fuel it3 (b1 @ [0x3a, 0x20]) = Ret ((b2, e'), it4)"
  shows "appendTextMap R fmt fuel i (Suc n) it b = appendTextMap R fmt fuel (i + 1) n it4 b2"
  using assms by (simp only: appendTextMap.simps Let_def bind.bind_lunit split simp_thms if_False)

lemma appendTextMap_texts:
  assumes "list_all2 (\<lambda>kv b. texts R rest fmt (fst kv) (fst b) \<and> texts R rest fmt (snd kv) (snd b)) kvs bss"
    and "rest (it_r it) = concat (map (\<lambda>b. fst b @ snd b) bss) @ xs" and "left rest it \<le> fuel"
  shows "\<exists>it'. appendTextMap R fmt fuel i (length kvs) it b =
      Ret (b @ (if i \<noteq> 0 \<and> kvs \<noteq> [] then [0x0a] else []) @ lines (map (\<lambda>kv. text_of fmt (fst kv) @ [0x3a, 0x20] @ text_of fmt (snd kv)) kvs), it') \<and>
      rest (it_r it') = xs"
  using assms
proof (induction kvs bss arbitrary: it i b rule: list_all2_induct)
  case (Cons kv kvs bs bss)
  let ?b = "if i \<noteq> 0 then b @ [0x0a] else b"
  let ?xs = "concat (map (\<lambda>b. fst b @ snd b) bss) @ xs"
  let ?b2 = "(?b @ text_of fmt (fst kv)) @ [0x3a, 0x20]"
  have m: "texts R rest fmt (fst kv) (fst bs)" "texts R rest fmt (snd kv) (snd bs)"
    and r: "rest (it_r it) = fst bs @ snd bs @ ?xs"
    using Cons.hyps(1) Cons.prems by simp_all
  obtain it1 it2 e where s: "Next R it = Ret (True, it1)"
    "AppendText R fmt fuel it1 ?b = Ret ((?b @ text_of fmt (fst kv), e), it2)"
    "rest (it_r it2) = snd bs @ ?xs" "left rest it2 \<le> fuel"
    by (rule texts_step [OF m(1) r Cons.prems(2)])
  obtain it3 it4 e' where s': "Next R it2 = Ret (True, it3)"
    "AppendText R fmt fuel it3 ?b2 = Ret ((?b2 @ text_of fmt (snd kv), e'), it4)"
    "rest (it_r it4) = ?xs" "left rest it4 \<le> fuel"
    by (rule texts_step [OF m(2) s(3,4)])
  from Cons.IH [OF s'(3,4), of "i + 1" "?b2 @ text_of fmt (snd kv)"] obtain it' where
    "appendTextMap R fmt fuel (i + 1) (length kvs) it4 (?b2 @ text_of fmt (snd kv)) =
      Ret ((?b2 @ text_of fmt (snd kv)) @ (if kvs \<noteq> [] then [0x0a] else []) @
        lines (map (\<lambda>kv. text_of fmt (fst kv) @ [0x3a, 0x20] @ text_of fmt (snd kv)) kvs), it')" and r': "rest (it_r it') = xs"
    by (elim exE conjE) simp
  with appendTextMap_step [OF s(1,2) s'(1,2), of "length kvs"] have
    "appendTextMap R fmt fuel i (length (kv # kvs)) it b =
      Ret ((?b2 @ text_of fmt (snd kv)) @ (if kvs \<noteq> [] then [0x0a] else []) @
        lines (map (\<lambda>kv. text_of fmt (fst kv) @ [0x3a, 0x20] @ text_of fmt (snd kv)) kvs), it')"
    by (simp only: list.size add_0_right add_Suc_right One_nat_def)
  moreover have "(?b2 @ text_of fmt (snd kv)) @ (if kvs \<noteq> [] then [0x0a] else []) @ zs =
      b @ (if i \<noteq> 0 \<and> kv # kvs \<noteq> [] then [0x0a] else []) @
      (text_of fmt (fst kv) @ [0x3a, 0x20] @ text_of fmt (snd kv)) @ (if kvs = [] then [] else [0x0a]) @ zs" for zs
    by simp
  ultimately show ?case using r' by (simp only: list.map lines_Cons map_is_Nil_conv) blast
qed simp

lemma texts_scalar:
  assumes R: "ring_contract R rest limit" and m: "wire m bs" "\<not> container m" "fits limit m"
  shows "texts R rest fmt m bs"
  unfolding texts_def
proof (intro allI impI)
  fix it :: "'a Iterator" and xs fuel b assume *: "rest (it_r it) = bs @ xs \<and> left rest it \<le> fuel"
  then obtain c lb body r where n: "bs = c # lb @ body" "decodes m c body" "Next R it = Ret (True, token it c (msg_type m) (len body) r)"
    "rest r = body @ xs"
    using Next_scalar [OF R m(1,2)] by metis
  with * obtain f where "fuel = Suc f" by (cases fuel) auto
  with n msg_type_container [OF m(2)] token_scalar(2) [OF R m(2) n(2) m(3) n(4), of fmt it b]
  show "\<exists>it1 it2 e. Next R it = Ret (True, it1) \<and> AppendText R fmt fuel it1 b = Ret ((b @ text_of fmt m, e), it2) \<and>
       rest (it_r it2) = xs \<and> (m \<noteq> MNil \<longrightarrow> e = None)"
    by simp
qed

lemma wire_texts:
  assumes R: "ring_contract R rest limit"
  shows "wire m bs \<Longrightarrow> fits limit m \<Longrightarrow> texts R rest fmt m bs"
proof (induction m bs rule: wire.induct)
  case (wire_scalar m c lb body k)
  then show ?case by (intro texts_scalar [OF R wire.wire_scalar])
next
  case (wire_array c lb ms k bss)
  then have all: "list_all2 (texts R rest fmt) ms bss"
    by (auto simp: list_all2_conv_all_nth)
  show ?case unfolding texts_def
  proof (intro allI impI)
    fix it :: "'a Iterator" and xs fuel b assume *: "rest (it_r it) = (c # lb @ concat bss) @ xs \<and> left rest it \<le> fuel"
    obtain r where n: "Next R it = Ret (True, token it c ArrayT (len ms) r)" "rest r = concat bss @ xs"
      by (rule Next_array [OF R wire_array.hyps(1) conjunct1 [OF *]])
    with * obtain f where f: "fuel = Suc f" "length (rest r) \<le> f" by (cases fuel) auto
    show "\<exists>it1 it2 e. Next R it = Ret (True, it1) \<and> AppendText R fmt fuel it1 b = Ret ((b @ text_of fmt (MArray ms), e), it2) \<and>
       rest (it_r it2) = xs \<and> (MArray ms \<noteq> MNil \<longrightarrow> e = None)"
      using n f appendTextArray_texts [OF all, of "token it c ArrayT (len ms) r" xs f 0 b] by auto
  qed
next
  case (wire_map c lb kvs k bss)
  then have all: "list_all2 (\<lambda>kv b. texts R rest fmt (fst kv) (fst b) \<and> texts R rest fmt (snd kv) (snd b)) kvs bss"
    by (auto simp: list_all2_conv_all_nth)
  show ?case unfolding texts_def
  proof (intro allI impI)
    fix it :: "'a Iterator" and xs fuel b
    assume *: "rest (it_r it) = (c # lb @ concat (map (\<lambda>b. fst b @ snd b) bss)) @ xs \<and> left rest it \<le> fuel"
    obtain r where n: "Next R it = Ret (True, token it c MapT (len kvs) r)"
      "rest r = concat (map (\<lambda>b. fst b @ snd b) bss) @ xs"
      by (rule Next_map [OF R wire_map.hyps(1) conjunct1 [OF *]])
    with * obtain f where f: "fuel = Suc f" "length (rest r) \<le> f" by (cases fuel) auto
    show "\<exists>it1 it2 e. Next R it = Ret (True, it1) \<and> AppendText R fmt fuel it1 b = Ret ((b @ text_of fmt (MMap kvs), e), it2) \<and>
       rest (it_r it2) = xs \<and> (MMap kvs \<noteq> MNil \<longrightarrow> e = None)"
      using n f appendTextMap_texts [OF all, of "token it c MapT (len kvs) r" xs f 0 b] by auto
  qed
qed

lemma Skip_total:
  assumes "ring_contract R rest limit" "iter_ok it" "left rest it < fuel"
  shows "\<exists>it'. Skip R fuel it = Ret it' \<and> iter_ok it' \<and> left rest it' \<le> left rest it"
  using assms by (rule Skip_total_aux(1))

lemma iter_ok_NewIterator: "iter_ok (NewIterator rd)"
  by (simp add: iter_ok_def NewIterator_def)

text \<open>A reader over the bytes of a slice, as after \<open>ResetBytes\<close>: the contract can be met.\<close>

definition list_ring :: "int \<Rightarrow> bytes ring" where
  "list_ring limit =
     \<lparr> ReadByte = (\<lambda>r. case r of [] \<Rightarrow> ((0, Some EOF), []) | c # xs \<Rightarrow> ((c, None), xs)),
       ReadBytes = (\<lambda>r n. if n \<le> limit \<and> n \<le> len r then ((take (nat n) r, None), drop (nat n) r)
                          else (([], Some ErrUnexpectedEOF), r)),
       Discard = (\<lambda>r n. drop (nat n) r) \<rparr>"

lemma list_ring_contract: "9 \<le> limit \<Longrightarrow> ring_contract (list_ring limit) (\<lambda>r. r) limit"
  by (auto simp: ring_contract_def list_ring_def split: list.splits if_splits)

lemma NewIterator_it_r [simp]: "it_r (NewIterator rd) = rd"
  by (simp add: NewIterator_def)

subsection \<open>Properties\<close>

lemma NextExpectedType_token:
  "Next R it = Ret (True, token it c t l r) \<Longrightarrow> NextExpectedType R it ts =
    Ret (if t \<in> set ts then None else Some (ExpectedAnyOf ts t c), token it c t l r)"
  by (simp add: NextExpectedType_def)



text \<open>
  C23. \<^bold>\<open>Next and Skip return on every stream\<close>, malformed and truncated ones included, without a
  panic and without a negative length; a fuel above the number of bytes to come is enough, and
  \<open>Skip\<close> never moves backwards.
\<close>

theorem Next_Skip_total:
  assumes "ring_contract R rest limit" and "iter_ok it" and "length (rest (it_r it)) \<le> fuel"
  shows "\<exists>ok it1. Next R it = Ret (ok, it1) \<and> iter_ok it1 \<and> (ok \<longrightarrow>
    (\<exists>it2. Skip R fuel it1 = Ret it2 \<and> iter_ok it2 \<and> length (rest (it_r it2)) < length (rest (it_r it))))"
proof -
  obtain ok it1 where n: "Next R it = Ret (ok, it1)" "iter_ok it1" "ok \<Longrightarrow> left rest it1 < left rest it"
    using Next_total [OF assms(1,2)] by auto
  then show ?thesis using Skip_total [OF assms(1) n(2), of fuel] assms(3) by fastforce
qed

theorem Next_Skip_total_witness:
  "\<exists>ok it1. Next (list_ring 9) (NewIterator [0xdd, 0xff, 0xff, 0xff, 0xff, 0x91]) = Ret (ok, it1) \<and> iter_ok it1 \<and> (ok \<longrightarrow>
    (\<exists>it2. Skip (list_ring 9) 6 it1 = Ret it2 \<and> iter_ok it2 \<and> length (it_r it2) < length [0xdd, 0xff, 0xff, 0xff, 0xff, 0x91 :: byte]))"
  using Next_Skip_total [OF list_ring_contract iter_ok_NewIterator, of 9 "[0xdd, 0xff, 0xff, 0xff, 0xff, 0x91]" 6]
  by (simp del: Skip.simps)





text \<open>
  \<^bold>\<open>The iterator misreads 96-bit timestamps.\<close> The length of an \<open>ext8\<close> header leaves out the
  type byte, and the iterator takes it for the whole body: \<open>Time\<close> returns the epoch and leaves
  the last byte of the timestamp in the stream, where the next header is expected.
\<close>

theorem iterator_misreads_Ts96:
  assumes "ring_contract R rest limit" and "12 \<le> limit" and "rest (it_r it) = AppendTimestamp [] t [Ts96] @ xs"
  shows "\<exists>it1 it2. Next R it = Ret (True, it1) \<and> iter_Time R it1 = Ret (time_Unix 0 0, it2) \<and>
    rest (it_r it2) = byte_at 0 (t_Unix t) # xs"
proof -
  obtain body where body: "AppendTimestamp [] t [Ts96] = 0xc7 # [12] @ (msgpackTimestamp # body) @ [byte_at 0 (t_Unix t)]" "length body = 11"
    by (simp add: AppendTimestamp_def ts_format_def Let_def sbyte_at_byte_at)
  have "header 0xc7 [12] ExtT 12 12" by (simp add: header_def be_simps)
  from Next_header [OF assms(1) _ this, of it "(msgpackTimestamp # body) @ [byte_at 0 (t_Unix t)] @ xs"] assms(3) body(1)
  obtain r where r: "Next R it = Ret (True, token it 0xc7 ExtT 12 r)" "rest r = (msgpackTimestamp # body) @ byte_at 0 (t_Unix t) # xs"
    by auto
  obtain r2 where "raw R (token it 0xc7 ExtT 12 r) = ((msgpackTimestamp # body, True), token it 0xc7 ExtT 12 r\<lparr>it_err := None, it_r := r2\<rparr>)"
    "rest r2 = byte_at 0 (t_Unix t) # xs"
    using raw_body [OF assms(1), of "token it 0xc7 ExtT 12 r" "msgpackTimestamp # body" "byte_at 0 (t_Unix t) # xs"] r(2) body(2) assms(2)
    by auto
  moreover have "readTimeUnsafe 0xc7 (msgpackTimestamp # body) = Ret (time_Unix 0 0)"
    using body(2) by (simp add: readTimeUnsafe_def)
  ultimately show ?thesis using r(1) by (auto simp: iter_Time_def)
qed

theorem iterator_misreads_Ts96_witness:
  "\<exists>it1 it2. Next (list_ring 4096) (NewIterator (AppendTimestamp [] \<lparr>t_Unix = 5, t_Nanosecond = 0\<rparr> [Ts96])) = Ret (True, it1) \<and>
     iter_Time (list_ring 4096) it1 = Ret (time_Unix 0 0, it2) \<and> it_r it2 = [5]"
  using iterator_misreads_Ts96 [OF list_ring_contract, of 4096
      "NewIterator (AppendTimestamp [] \<lparr>t_Unix = 5, t_Nanosecond = 0\<rparr> [Ts96])" "\<lparr>t_Unix = 5, t_Nanosecond = 0\<rparr>" "[]"]
  by (simp add: byte_at_def)

text \<open>
  \<^bold>\<open>NextExpectedType\<close> accepts a message exactly if its family is among the expected ones, and
  at the end of the stream it returns an error.
\<close>

theorem NextExpectedType_checks:
  assumes "ring_contract R rest limit" and "wire m bs"
  shows "(rest (it_r it) = bs @ xs \<longrightarrow>
      (\<exists>e it1. NextExpectedType R it ts = Ret (e, it1) \<and> (e = None \<longleftrightarrow> msg_type m \<in> set ts))) \<and>
    (rest (it_r it) = [] \<longrightarrow> (\<exists>e it1. NextExpectedType R it ts = Ret (Some e, it1)))"
proof (intro conjI impI)
  assume r: "rest (it_r it) = bs @ xs"
  show "\<exists>e it1. NextExpectedType R it ts = Ret (e, it1) \<and> (e = None \<longleftrightarrow> msg_type m \<in> set ts)"
  proof -
    obtain c l r' where "Next R it = Ret (True, token it c (msg_type m) l r')"
      by (rule Next_wire [OF assms r])
    from NextExpectedType_token [OF this, of ts] show ?thesis by simp
  qed
next
  assume "rest (it_r it) = []"
  moreover obtain c e r where r: "ReadByte R (it_r it) = ((c, e), r)" by (metis prod.collapse)
  ultimately obtain e' where "e = Some e'" using ring_ReadByte [OF assms(1) r] by auto
  with Next_error [of R it c e' r] r show "\<exists>e it1. NextExpectedType R it ts = Ret (Some e, it1)"
    by (simp add: NextExpectedType_def)
qed

theorem NextExpectedType_checks_witness:
  "\<exists>e it1. NextExpectedType (list_ring 9) (NewIterator (encode MNil)) [StrT, ArrayT] = Ret (e, it1) \<and> e \<noteq> None"
  using NextExpectedType_checks [OF list_ring_contract encode_wire, of 9 MNil "NewIterator (encode MNil)" "[]" "[StrT, ArrayT]"]
  by auto

end
