(* ===== verification/Value.thy ===== *)
theory Value
  imports Message Format
begin

text \<open>
  \<open>pkg/msgpack/value.go\<close>: a \<open>Value\<close> is a byte slice that starts with an encoded value. \<open>Array\<close> and
  \<open>Map\<close> return iterator functions: here they take the loop body as \<open>yield\<close>, a function on the
  state of the caller that says whether to go on. \<open>intFromBuf[int]\<close> makes the lengths signed, so
  every slice expression can panic. \<open>fmt\<close> renders a time with \<open>time.DateTime\<close> in the time zone of
  the process. \<open>AppendJson\<close> is a panic in the source.
\<close>

definition Value_IsZero :: "bytes \<Rightarrow> bool" where
  "Value_IsZero v \<longleftrightarrow> len v = 0"

definition Value_Type :: "bytes \<Rightarrow> Type go" where
  "Value_Type v =
     (if len v = 0 then Ret NilT
      else do { c \<leftarrow> go_index v 0; Ret (fst (Get c)) })"

definition Value_BytesLen :: "bytes \<Rightarrow> int go" where
  "Value_BytesLen v =
     (if len v = 0 then Ret 0
      else do {
        let offset = 0;
        c \<leftarrow> go_index v offset;
        let (typ, length, isValueLength) = Get c;
        let offset = offset + 1;
        (length, offset) \<leftarrow> (if \<not> isValueLength then do {
            buf \<leftarrow> go_slice v offset (offset + length);
            n \<leftarrow> intFromBuf buf;
            Ret (sint n, offset + length) }
          else Ret (length, offset));
        if typ \<noteq> ArrayT \<and> typ \<noteq> MapT then Ret (offset + length) else Ret offset })"

definition Value_Len :: "bytes \<Rightarrow> int go" where
  "Value_Len v =
     (if len v = 0 then Ret 0
      else do {
        c \<leftarrow> go_index v 0;
        let (_, l, isValueLength) = Get c;
        if \<not> isValueLength then do {
          buf \<leftarrow> go_slice v 1 (1 + l);
          n \<leftarrow> intFromBuf buf;
          Ret (sint n) }
        else Ret l })"

text \<open>The loops \<open>for range length\<close> of \<open>Array\<close> and \<open>Map\<close>\<close>

fun array_loop :: "nat \<Rightarrow> bytes \<Rightarrow> ('s \<Rightarrow> bytes \<Rightarrow> bool \<times> 's) \<Rightarrow> 's \<Rightarrow> 's go" where
  "array_loop 0 v yield s = Ret s"
| "array_loop (Suc n) v yield s = do {
     nxt \<leftarrow> Value_BytesLen v;
     x \<leftarrow> go_slice v 0 nxt;
     let (more, s) = yield s x;
     if \<not> more then Ret s
     else do { v \<leftarrow> go_slice v nxt (len v); array_loop n v yield s } }"

definition Value_Array :: "bytes \<Rightarrow> ('s \<Rightarrow> bytes \<Rightarrow> bool \<times> 's) \<Rightarrow> 's \<Rightarrow> 's go" where
  "Value_Array v yield s =
     (if len v = 0 then Ret s
      else do {
        let offset = 0;
        c \<leftarrow> go_index v offset;
        let (typ, length, isValueLength) = Get c;
        if typ \<noteq> ArrayT then Ret s
        else do {
          let offset = offset + 1;
          (length, offset) \<leftarrow> (if \<not> isValueLength then do {
              buf \<leftarrow> go_slice v offset (offset + length);
              n \<leftarrow> intFromBuf buf;
              Ret (sint n, offset + length) }
            else Ret (length, offset));
          v \<leftarrow> go_slice v offset (len v);
          array_loop (nat length) v yield s } })"

fun map_loop :: "nat \<Rightarrow> bytes \<Rightarrow> ('s \<Rightarrow> bytes \<Rightarrow> bytes \<Rightarrow> bool \<times> 's) \<Rightarrow> 's \<Rightarrow> 's go" where
  "map_loop 0 v yield s = Ret s"
| "map_loop (Suc n) v yield s = do {
     nxt \<leftarrow> Value_BytesLen v;
     key \<leftarrow> go_slice v 0 nxt;
     v \<leftarrow> go_slice v nxt (len v);
     nxt \<leftarrow> Value_BytesLen v;
     val \<leftarrow> go_slice v 0 nxt;
     v \<leftarrow> go_slice v nxt (len v);
     let (more, s) = yield s key val;
     if \<not> more then Ret s else map_loop n v yield s }"

definition Value_Map :: "bytes \<Rightarrow> ('s \<Rightarrow> bytes \<Rightarrow> bytes \<Rightarrow> bool \<times> 's) \<Rightarrow> 's \<Rightarrow> 's go" where
  "Value_Map v yield s =
     (if len v = 0 then Ret s
      else do {
        let offset = 0;
        c \<leftarrow> go_index v offset;
        let (typ, length, isValueLength) = Get c;
        if typ \<noteq> MapT then Ret s
        else do {
          let offset = offset + 1;
          (length, offset) \<leftarrow> (if \<not> isValueLength then do {
              buf \<leftarrow> go_slice v offset (offset + length);
              n \<leftarrow> intFromBuf buf;
              Ret (sint n, offset + length) }
            else Ret (length, offset));
          v \<leftarrow> go_slice v offset (len v);
          map_loop (nat length) v yield s } })"

subsection \<open>Accessors: the value that the reader returns, its error dropped\<close>

definition Value_Bool :: "bytes \<Rightarrow> bool go" where
  "Value_Bool v = do { (val, _, _) \<leftarrow> ReadBool v 0; Ret val }"

definition Value_Int :: "bytes \<Rightarrow> u64 go" where
  "Value_Int v = do { (val, _, _) \<leftarrow> ReadInt v 0; Ret val }"

definition Value_Uint :: "bytes \<Rightarrow> u64 go" where
  "Value_Uint v = do { (val, _, _) \<leftarrow> ReadUint v 0; Ret val }"

definition Value_Float :: "bytes \<Rightarrow> f64 go" where
  "Value_Float v = do { (val, _, _) \<leftarrow> ReadFloat v 0; Ret val }"

definition Value_Str :: "bytes \<Rightarrow> bytes go" where
  "Value_Str v = do { (val, _, _) \<leftarrow> ReadString v 0; Ret val }"

definition Value_StrCopy :: "bytes \<Rightarrow> bytes go" where
  "Value_StrCopy v = do { (val, _, _) \<leftarrow> ReadStringCopy v 0; Ret val }"

definition Value_Bin :: "bytes \<Rightarrow> bytes go" where
  "Value_Bin v = do { (val, _, _) \<leftarrow> ReadBinary v 0; Ret val }"

definition Value_Timestamp :: "bytes \<Rightarrow> go_time go" where
  "Value_Timestamp v = do { (val, _, _) \<leftarrow> ReadTimestamp v 0; Ret val }"

definition Value_String :: "(go_time \<Rightarrow> bytes) \<Rightarrow> bytes \<Rightarrow> bytes go" where
  "Value_String fmt v = do {
     t \<leftarrow> Value_Type v;
     (case t of
        BoolT \<Rightarrow> do { x \<leftarrow> Value_Bool v; Ret (FormatBool x) }
      | IntT \<Rightarrow> do { x \<leftarrow> Value_Int v; Ret (itoa (sint x)) }
      | UintT \<Rightarrow> do { x \<leftarrow> Value_Uint v; Ret (itoa (uint x)) }
      | FloatT \<Rightarrow> do { x \<leftarrow> Value_Float v; Ret (FormatFloat x) }
      | StrT \<Rightarrow> Value_StrCopy v
      | BinT \<Rightarrow> do { x \<leftarrow> Value_Bin v; Ret (hex_Encode x) }
      | ArrayT \<Rightarrow> do { n \<leftarrow> Value_Len v; Ret (text_bytes ''Array<'' @ itoa n @ text_bytes ''>'') }
      | MapT \<Rightarrow> do { n \<leftarrow> Value_Len v; Ret (text_bytes ''Map<'' @ itoa n @ text_bytes ''>'') }
      | ExtT \<Rightarrow> do { x \<leftarrow> Value_Timestamp v; Ret (fmt x) }
      | _ \<Rightarrow> Ret []) }"

definition Value_AppendText :: "(go_time \<Rightarrow> bytes) \<Rightarrow> bytes \<Rightarrow> bytes \<Rightarrow> (bytes \<times> err option) go" where
  "Value_AppendText fmt v b = do {
     t \<leftarrow> Value_Type v;
     (case t of
        BoolT \<Rightarrow> do { x \<leftarrow> Value_Bool v; Ret (b @ FormatBool x, None) }
      | IntT \<Rightarrow> do { x \<leftarrow> Value_Int v; Ret (b @ itoa (sint x), None) }
      | UintT \<Rightarrow> do { x \<leftarrow> Value_Uint v; Ret (b @ itoa (uint x), None) }
      | FloatT \<Rightarrow> do { x \<leftarrow> Value_Float v; Ret (b @ FormatFloat x, None) }
      | StrT \<Rightarrow> do { x \<leftarrow> Value_Str v; Ret (b @ x, None) }
      | BinT \<Rightarrow> do { x \<leftarrow> Value_Bin v; Ret (b @ hex_Encode x, None) }
      | ArrayT \<Rightarrow> do { n \<leftarrow> Value_Len v; Ret (b @ text_bytes ''Array<'' @ itoa n @ text_bytes ''>'', None) }
      | MapT \<Rightarrow> do { n \<leftarrow> Value_Len v; Ret (b @ text_bytes ''Map<'' @ itoa n @ text_bytes ''>'', None) }
      | ExtT \<Rightarrow> do { x \<leftarrow> Value_Timestamp v; Ret (b @ fmt x, None) }
      | _ \<Rightarrow> Ret (b, Some ErrInvalidFormat)) }"

definition Value_AppendBinary :: "bytes \<Rightarrow> bytes \<Rightarrow> bytes \<times> err option" where
  "Value_AppendBinary v b = (b @ v, None)"

definition Value_AppendJson :: "bytes \<Rightarrow> bytes \<Rightarrow> (bytes \<times> err option) go" where
  "Value_AppendJson v b = Panic"

subsection \<open>Reference\<close>

text \<open>The loop body run over a list of values, or of pairs, until it says to stop\<close>

fun seq_run :: "('s \<Rightarrow> 'a \<Rightarrow> bool \<times> 's) \<Rightarrow> 'a list \<Rightarrow> 's \<Rightarrow> 's" where
  "seq_run yield [] s = s"
| "seq_run yield (x # xs) s = (let (more, s) = yield s x in if more then seq_run yield xs s else s)"

text \<open>What \<open>String\<close> returns for a message\<close>

fun string_of :: "(go_time \<Rightarrow> bytes) \<Rightarrow> msg \<Rightarrow> bytes" where
  "string_of fmt (MBool b) = FormatBool b"
| "string_of fmt (MInt v) = itoa (sint v)"
| "string_of fmt (MUint v) = itoa (uint v)"
| "string_of fmt (MFloat f) = FormatFloat f"
| "string_of fmt (MStr s) = s"
| "string_of fmt (MBin s) = hex_Encode s"
| "string_of fmt (MTime t f) = fmt t"
| "string_of fmt (MArray ms) = text_bytes ''Array<'' @ itoa (len ms) @ text_bytes ''>''"
| "string_of fmt (MMap kvs) = text_bytes ''Map<'' @ itoa (len kvs) @ text_bytes ''>''"
| "string_of fmt MNil = []"

lemma header_Get:
  assumes "header c lb t l k"
  obtains n b where "Get c = (t, n, b)" "b \<Longrightarrow> lb = [] \<and> k = n" "\<not> b \<Longrightarrow> len lb = n \<and> intFromBuf lb = Ret (word_of_int k)"
    "sint (word_of_int k :: u64) = k"
proof -
  have "sint (word_of_int k :: u64) = k" using assms by (intro sint_word_of_int) (auto simp: header_def)
  then show thesis using assms that by (auto simp: header_def split: prod.splits if_splits)
qed

lemma Value_header:
  assumes "header c lb t l k"
  shows "Value_Type (c # xs) = Ret t"
    and "Value_Len (c # lb @ xs) = Ret k"
    and "Value_BytesLen (c # lb @ xs) = Ret (1 + len lb + (if t = ArrayT \<or> t = MapT then 0 else k))"
proof -
  obtain n b where g: "Get c = (t, n, b)" "b \<Longrightarrow> lb = [] \<and> k = n" "\<not> b \<Longrightarrow> len lb = n \<and> intFromBuf lb = Ret (word_of_int k)"
    "sint (word_of_int k :: u64) = k"
    using header_Get [OF assms] by blast
  show "Value_Type (c # xs) = Ret t" using g by (simp add: Value_Type_def)
  show "Value_Len (c # lb @ xs) = Ret k"
    using g by (cases b) (auto simp: Value_Len_def go_simps)
  show "Value_BytesLen (c # lb @ xs) = Ret (1 + len lb + (if t = ArrayT \<or> t = MapT then 0 else k))"
    using g by (cases b) (auto simp: Value_BytesLen_def go_simps)
qed

text \<open>The messages that \<open>Array\<close> and \<open>Map\<close> pass on as they are\<close>

definition flat :: "msg \<Rightarrow> bool" where
  "flat m \<longleftrightarrow> msg_ok m \<and> msg_short m \<and> \<not> container m"

lemma Value_BytesLen_flat:
  assumes "flat m"
  shows "Value_BytesLen (encode m @ xs) = Ret (len (encode m))"
proof -
  obtain c lb body k where h: "encode m = c # lb @ body" "header c lb (msg_type m) (len body) k"
    "msg_short m \<Longrightarrow> k = len body"
    using header_scalar assms unfolding flat_def by metis
  with assms Value_header(3) [OF h(2), of "body @ xs"] show ?thesis
    by (auto simp: flat_def msg_type_container)
qed

lemma array_loop_flat:
  assumes "\<forall>m \<in> set ms. flat m"
  shows "array_loop (length ms) (concat (map encode ms) @ xs) yield s = Ret (seq_run yield (map encode ms) s)"
  using assms
proof (induction ms arbitrary: s)
  case (Cons m ms)
  then have b: "Value_BytesLen (encode m @ concat (map encode ms) @ xs) = Ret (len (encode m))"
    by (simp add: Value_BytesLen_flat)
  obtain more s' where y: "yield s (encode m) = (more, s')" by fastforce
  with b Cons show ?case by (simp add: go_simps)
qed simp

lemma map_loop_flat:
  assumes "\<forall>kv \<in> set kvs. flat (fst kv) \<and> flat (snd kv)"
  shows "map_loop (length kvs) (concat (map (\<lambda>kv. encode (fst kv) @ encode (snd kv)) kvs) @ xs) yield s =
    Ret (seq_run (\<lambda>s kv. yield s (encode (fst kv)) (encode (snd kv))) kvs s)"
  using assms
proof (induction kvs arbitrary: s)
  case (Cons kv kvs)
  let ?xs = "concat (map (\<lambda>kv. encode (fst kv) @ encode (snd kv)) kvs) @ xs"
  have b: "Value_BytesLen (encode (fst kv) @ encode (snd kv) @ ?xs) = Ret (len (encode (fst kv)))"
    "Value_BytesLen (encode (snd kv) @ ?xs) = Ret (len (encode (snd kv)))"
    using Cons.prems by (simp_all only: Value_BytesLen_flat list.set_intros)
  obtain more s' where y: "yield s (encode (fst kv)) (encode (snd kv)) = (more, s')" by fastforce
  with b Cons show ?case by (simp add: go_simps)
qed simp

lemma Value_Array_header:
  assumes "header c lb ArrayT l k"
  shows "Value_Array (c # lb @ xs) yield s = array_loop (nat k) xs yield s"
proof -
  obtain n b where g: "Get c = (ArrayT, n, b)" "b \<Longrightarrow> lb = [] \<and> k = n" "\<not> b \<Longrightarrow> len lb = n \<and> intFromBuf lb = Ret (word_of_int k)"
    "sint (word_of_int k :: u64) = k"
    using header_Get [OF assms] by blast
  then show ?thesis by (cases b) (auto simp: Value_Array_def go_simps)
qed

lemma Value_Map_header:
  assumes "header c lb MapT l k"
  shows "Value_Map (c # lb @ xs) yield s = map_loop (nat k) xs yield s"
proof -
  obtain n b where g: "Get c = (MapT, n, b)" "b \<Longrightarrow> lb = [] \<and> k = n" "\<not> b \<Longrightarrow> len lb = n \<and> intFromBuf lb = Ret (word_of_int k)"
    "sint (word_of_int k :: u64) = k"
    using header_Get [OF assms] by blast
  then show ?thesis by (cases b) (auto simp: Value_Map_def go_simps)
qed

lemma codec_at_0:
  assumes "codec app read valid" and "valid v"
  shows "read (app [] v) 0 = Ret (v, len (app [] v), None)"
  using codec.read_app_end [OF assms, of "[]" "[]"] by simp

lemmas reads_at_0 = codec_at_0 [OF bool_codec.codec_axioms TrueI] codec_at_0 [OF int_codec.codec_axioms TrueI]
  codec_at_0 [OF uint_codec.codec_axioms TrueI] codec_at_0 [OF float_codec.codec_axioms TrueI]
  codec_at_0 [OF string_codec.codec_axioms] codec_at_0 [OF binary_codec.codec_axioms]
  codec_at_0 [OF ts_codec.codec_axioms]

lemma ReadUint_AppendInt:
  "0 \<le> sint v \<Longrightarrow> ReadUint (AppendInt [] v) 0 = Ret (v, len (AppendInt [] v), None)"
  by (simp add: AppendInt_def reads_at_0)

lemma Value_String_encode:
  assumes "msg_ok m" and "msg_short m"
  shows "Value_String fmt (encode m) = Ret (string_of fmt m)"
proof (cases "container m")
  case False
  obtain c lb body k where h: "encode m = c # lb @ body" "header c lb (msg_type m) (len body) k"
    using header_scalar assms(1) False by metis
  have t: "Value_Type (encode m) = Ret (msg_type m)" using Value_header(1) [OF h(2)] h(1) by simp
  note defs = Value_String_def Value_Bool_def Value_Int_def Value_Uint_def Value_Float_def Value_StrCopy_def
    ReadStringCopy_def Value_Bin_def Value_Timestamp_def
  show ?thesis
    using t assms False
    by (cases m) (auto simp: defs reads_at_0 ReadUint_AppendInt sint_eq_uint_pos bin_valid_def)
next
  case True
  then consider (arr) ms where "m = MArray ms" | (map) kvs where "m = MMap kvs" by (cases m) auto
  then show ?thesis
  proof cases
    case arr
    with assms header_array [of "len ms"] obtain c lb where
      "AppendArrayHeader [] (len ms) = c # lb" "header c lb ArrayT (len ms) (header_count (len ms))" by auto
    with arr assms(2) Value_header(1,2) [of c lb ArrayT "len ms" "header_count (len ms)"] show ?thesis
      by (simp add: Value_String_def)
  next
    case map
    with assms header_map [of "len kvs"] obtain c lb where
      "AppendMapHeader [] (len kvs) = c # lb" "header c lb MapT (len kvs) (header_count (len kvs))" by auto
    with map assms(2) Value_header(1,2) [of c lb MapT "len kvs" "header_count (len kvs)"] show ?thesis
      by (simp add: Value_String_def)
  qed
qed

subsection \<open>Properties\<close>



text \<open>
  \<^bold>\<open>Ranging over a longer string panics.\<close> \<open>BytesLen\<close> reads the length with \<open>intFromBuf\<close>, which extends its sign: an array whose
  first element is a string of 128 to 253 bytes is sliced with a negative bound.
\<close>

theorem Value_Array_long_string_panics:
  assumes "128 \<le> len s" and "len s < 254" and "header_valid (len (MStr s # ms))"
  shows "Value_Array (encode (MArray (MStr s # ms)) @ xs) yield st = Panic"
proof -
  let ?ys = "concat (map encode ms) @ xs"
  have "0 \<le> len (MStr s # ms)" "len (MStr s # ms) < 2 ^ 32" using assms(3) unfolding header_valid_def by simp_all
  then obtain c lb where h: "AppendArrayHeader [] (len (MStr s # ms)) = c # lb" "header c lb ArrayT (len (MStr s # ms)) (header_count (len (MStr s # ms)))"
    by (rule header_array)
  have e: "encode (MStr s) = 0xd9 # [ibyte_at 0 (len s)] @ s" using assms(1,2) by (simp add: AppendString_def)
  have "header 0xd9 [ibyte_at 0 (len s)] StrT (len s) (len s - 2 ^ 8)" using assms(1,2) by (simp add: header_def uintFromBuf_length intFromBuf_length)
  from Value_header(3) [OF this, of "s @ ?ys"] have b: "Value_BytesLen (encode (MStr s) @ ?ys) = Ret (len s - 254)" unfolding e by simp
  have "array_loop (nat (len (MStr s # ms))) (encode (MStr s) @ ?ys) yield st = Panic"
    using b assms(2) by (simp add: go_slice_Panic nat_add_distrib del: encode.simps)
  then show ?thesis
    using h(1) Value_Array_header [OF h(2), of "encode (MStr s) @ ?ys" yield st] header_count_valid [OF assms(3)] by simp
qed

theorem Value_Array_long_string_panics_witness:
  "Value_Array (encode (MArray [MStr (replicate 200 0x61)])) (\<lambda>s x. (True, s @ [x])) [] = Panic"
  using Value_Array_long_string_panics [of "replicate 200 0x61" "[]" "[]"] by (simp add: header_valid_def)

text \<open>
  \<^bold>\<open>String\<close> renders every kind of value whose length is read back as written: numbers in
  decimal, strings as they are, binary data in hexadecimal, containers by their number of items.
\<close>

theorem Value_String_renders:
  assumes "msg_ok m" and "msg_short m"
  shows "Value_String fmt (encode m) = Ret (string_of fmt m)"
  by (rule Value_String_encode [OF assms])

theorem Value_String_renders_witness:
  "Value_String (\<lambda>_. []) [0x93, 1, 2, 3] = Ret (text_bytes ''Array<3>'')"
  using Value_String_renders [of "MArray [MUint 1, MUint 2, MUint 3]" "\<lambda>_. []"]
  by (simp add: header_count_def AppendArrayHeader_def AppendUint_def byte_at_def ibyte_at_def itoa_def digits_eval text_bytes_def)

text \<open>
  \<^bold>\<open>Ranging over nested containers loses elements.\<close> \<open>BytesLen\<close> of a container is the length
  of its header, and \<open>Array\<close> takes it for the whole element: the element after it is the first
  item of the inner array, and the last element is never reached.
\<close>

theorem Value_Array_nested:
  assumes "flat m" and "flat m2"
  shows "Value_Array (encode (MArray [MArray [m], m2]) @ xs) (\<lambda>s x. (True, s @ [x])) [] = Ret [[0x91], encode m]"
proof -
  have h: "AppendArrayHeader [] 2 = 0x92 # []" "AppendArrayHeader [] 1 = 0x91 # []"
    by (simp_all add: AppendArrayHeader_def ibyte_at_def)
  have g: "header 0x92 [] ArrayT 2 2" "header 0x91 [] ArrayT 1 1"
    by (simp_all add: header_def Get_fixlen)
  have "Value_Array (encode (MArray [MArray [m], m2]) @ xs) (\<lambda>s x. (True, s @ [x])) [] =
      array_loop (nat 2) (0x91 # encode m @ encode m2 @ xs) (\<lambda>s x. (True, s @ [x])) []"
    using Value_Array_header [OF g(1), of "0x91 # encode m @ encode m2 @ xs"] h by simp
  moreover have "Value_BytesLen (0x91 # encode m @ encode m2 @ xs) = Ret 1"
    using Value_header(3) [OF g(2)] by simp
  ultimately show ?thesis
    using Value_BytesLen_flat [OF assms(1), of "encode m2 @ xs"]
    by (simp add: numeral_2_eq_2 go_simps)
qed

theorem Value_Array_nested_witness:
  "Value_Array [0x92, 0x91, 1, 2] (\<lambda>s x. (True, s @ [x])) [] = Ret [[0x91], [1]]"
  using Value_Array_nested [of "MUint 1" "MUint 2" "[]"]
  by (simp add: flat_def AppendUint_def AppendArrayHeader_def byte_at_def ibyte_at_def)

end
