(* ===== verification/Args.thy ===== *)
theory Args
  imports Message Format
begin

text \<open>
  How log arguments become MessagePack: \<open>pkg/msgpack/any.go\<close>, \<open>append_key_value.go\<close>,
  \<open>append_args.go\<close>, \<open>append_json.go\<close>, \<open>append_stack_trace.go\<close>, \<open>printf.go\<close> and \<open>severity.go\<close>.

  A Go \<open>any\<close> is a \<open>goval\<close>: what its type implements of the interfaces the code asks for, and its
  value when its type is one of the built-in types the code asks for. The JSON encoder is another
  module and is the parameter \<open>json\<close>; its result \<open>None\<close> is an error. The stack frames that the
  run-time returns are the parameter \<open>fs\<close>.
\<close>

datatype builtin =
    KBytes bytes
  | KBool bool
  | KFloat32 f32
  | KFloat64 f64
  | KInt u64
  | KInt8 byte
  | KInt16 "16 word"
  | KInt32 u32
  | KInt64 u64
  | KUint u64
  | KUint8 byte
  | KUint16 "16 word"
  | KUint32 u32
  | KUint64 u64
  | KString bytes
  | KOther

record goval =
  v_KeyValueAppender :: "(bytes \<Rightarrow> bytes \<Rightarrow> bytes \<times> byte) option"
  v_TextAppender :: "(bytes \<Rightarrow> bytes) option"
  v_Stringer :: "bytes option"
  v_error :: "bytes option"
  v_builtin :: builtin

definition plain :: "builtin \<Rightarrow> goval" where
  "plain k = \<lparr> v_KeyValueAppender = None, v_TextAppender = None, v_Stringer = None, v_error = None, v_builtin = k \<rparr>"

type_synonym json = "bytes \<Rightarrow> goval \<Rightarrow> bytes option"

subsection \<open>any.go\<close>

definition AppendAny :: "bytes \<Rightarrow> goval \<Rightarrow> bytes go" where
  "AppendAny dst v =
     (case v_builtin v of
        KBytes val \<Rightarrow> Ret (AppendBinary dst val)
      | KBool val \<Rightarrow> Ret (AppendBool dst val)
      | KFloat32 val \<Rightarrow> Ret (AppendFloat dst (float64_of val))
      | KFloat64 val \<Rightarrow> Ret (AppendFloat dst val)
      | KInt val \<Rightarrow> Ret (AppendInt dst val)
      | KInt8 val \<Rightarrow> Ret (AppendInt dst (scast val))
      | KInt16 val \<Rightarrow> Ret (AppendInt dst (scast val))
      | KInt32 val \<Rightarrow> Ret (AppendInt dst (scast val))
      | KInt64 val \<Rightarrow> Ret (AppendInt dst val)
      | KUint val \<Rightarrow> Ret (AppendUint dst val)
      | KUint8 val \<Rightarrow> Ret (AppendUint dst (ucast val))
      | KUint16 val \<Rightarrow> Ret (AppendUint dst (ucast val))
      | KUint32 val \<Rightarrow> Ret (AppendUint dst (ucast val))
      | KUint64 val \<Rightarrow> Ret (AppendUint dst val)
      | KString val \<Rightarrow> Ret (AppendString dst val)
      | KOther \<Rightarrow>
         (case v_TextAppender v of
            Some val \<Rightarrow> AppendTextAppender dst val
          | None \<Rightarrow> (case v_Stringer v of
              Some s \<Rightarrow> Ret (AppendString dst s)
            | None \<Rightarrow> Ret dst)))"

subsection \<open>append_json.go, append_key_value.go, append_args.go\<close>

definition appendJSON :: "json \<Rightarrow> bytes \<Rightarrow> goval \<Rightarrow> bytes go" where
  "appendJSON json dst v =
     AppendBinaryUnknownLength dst (\<lambda>dst. case json dst v of None \<Rightarrow> dst | Some newDst \<Rightarrow> newDst)"

definition appendKeyValue :: "json \<Rightarrow> bytes \<Rightarrow> bytes \<Rightarrow> goval \<Rightarrow> (bytes \<times> byte) go" where
  "appendKeyValue json dst key value =
     (case v_KeyValueAppender value of Some val \<Rightarrow> Ret (val dst key) | None \<Rightarrow>
     (case v_TextAppender value of
        Some val \<Rightarrow> do { dst \<leftarrow> AppendTextAppender (AppendString dst key) val; Ret (dst, 1) } | None \<Rightarrow>
     (case v_Stringer value of
        Some s \<Rightarrow> Ret (AppendString (AppendString dst key) s, 1) | None \<Rightarrow>
     (case v_error value of
        Some s \<Rightarrow> Ret (AppendString (AppendString dst key) s, 1) | None \<Rightarrow>
     (case v_builtin value of
        KBytes val \<Rightarrow> Ret (AppendBinary (AppendString dst key) val, 1)
      | KBool val \<Rightarrow> Ret (AppendBool (AppendString dst key) val, 1)
      | KFloat32 val \<Rightarrow> Ret (AppendFloat (AppendString dst key) (float64_of val), 1)
      | KFloat64 val \<Rightarrow> Ret (AppendFloat (AppendString dst key) val, 1)
      | KInt val \<Rightarrow> Ret (AppendInt (AppendString dst key) val, 1)
      | KInt8 val \<Rightarrow> Ret (AppendInt (AppendString dst key) (scast val), 1)
      | KInt16 val \<Rightarrow> Ret (AppendInt (AppendString dst key) (scast val), 1)
      | KInt32 val \<Rightarrow> Ret (AppendInt (AppendString dst key) (scast val), 1)
      | KInt64 val \<Rightarrow> Ret (AppendInt (AppendString dst key) val, 1)
      | KUint val \<Rightarrow> Ret (AppendUint (AppendString dst key) val, 1)
      | KUint8 val \<Rightarrow> Ret (AppendUint (AppendString dst key) (ucast val), 1)
      | KUint16 val \<Rightarrow> Ret (AppendUint (AppendString dst key) (ucast val), 1)
      | KUint32 val \<Rightarrow> Ret (AppendUint (AppendString dst key) (ucast val), 1)
      | KUint64 val \<Rightarrow> Ret (AppendUint (AppendString dst key) val, 1)
      | KString val \<Rightarrow> Ret (AppendString (AppendString dst key) val, 1)
      | KOther \<Rightarrow> do { dst \<leftarrow> appendJSON json (AppendString dst key) value; Ret (dst, 1) })))))"

text \<open>The loop of \<open>appendArgs\<close>, from the state of its variables \<open>key\<close>, \<open>b.B\<close> and \<open>n\<close>\<close>

fun appendArgs_loop :: "json \<Rightarrow> bytes \<Rightarrow> bytes \<Rightarrow> byte \<Rightarrow> goval list \<Rightarrow> (bytes \<times> byte) go" where
  "appendArgs_loop json key b n [] = Ret (b, n)"
| "appendArgs_loop json key b n (a # as) =
     (case (key, v_builtin a) of
        ([], KString k) \<Rightarrow> appendArgs_loop json k b n as
      | _ \<Rightarrow> do {
          (b, nn) \<leftarrow> appendKeyValue json b key a;
          appendArgs_loop json [] b (n + nn) as })"

definition appendArgs :: "json \<Rightarrow> bytes \<Rightarrow> goval list \<Rightarrow> (bytes \<times> byte) go" where
  "appendArgs json b args = appendArgs_loop json [] b 0 args"

subsection \<open>append_stack_trace.go\<close>

record frame =
  File :: bytes
  Line :: int

definition zero_frame :: frame where
  "zero_frame = \<lparr> File = [], Line = 0 \<rparr>"

definition frame_text :: "frame \<Rightarrow> bytes" where
  "frame_text f = File f @ [0x3a] @ itoa (Line f)"

text \<open>
  The loop \<open>for more\<close>: \<open>Next\<close> of \<open>runtime.Frames\<close> returns the next frame and whether there are more
  after it, and the zero frame when there is none, so the body runs at least once.
\<close>

fun stack_loop :: "bytes \<Rightarrow> byte \<Rightarrow> frame list \<Rightarrow> (bytes \<times> byte) go" where
  "stack_loop dst i [] = do {
     dst \<leftarrow> AppendStringMax255 dst (\<lambda>dst. dst @ frame_text zero_frame);
     Ret (dst, i + 1) }"
| "stack_loop dst i [f] = do {
     dst \<leftarrow> AppendStringMax255 dst (\<lambda>dst. dst @ frame_text f);
     Ret (dst, i + 1) }"
| "stack_loop dst i (f # fs) = do {
     dst \<leftarrow> AppendStringMax255 dst (\<lambda>dst. dst @ frame_text f);
     stack_loop dst (i + 1) fs }"

definition appendStackTrace :: "bytes \<Rightarrow> frame list \<Rightarrow> bytes go" where
  "appendStackTrace dst fs = do {
     let dst = AppendString dst (text_bytes ''stackTrace'');
     let dst = AppendArrayHeader dst 0;
     let x = len dst - 1;
     (dst, i) \<leftarrow> stack_loop dst 0 fs;
     go_store dst x (0x90 OR i) }"

subsection \<open>printf.go\<close>

text \<open>
  \<open>countFmtArgs\<close>: \<open>idx\<close> walks over the format; \<open>cur\<close> and \<open>n\<close> are Go \<open>int\<close>s, whose arithmetic wraps.
  \<open>index_loop\<close> is the inner loop over the digits of an explicit index. Both stop since \<open>idx\<close> grows.
\<close>

function index_loop :: "bytes \<Rightarrow> int \<Rightarrow> u64 \<Rightarrow> (int \<times> u64) go" where
  "index_loop b idx val =
     (if idx < len b then do {
        c \<leftarrow> go_index b idx;
        if 0x30 \<le> c \<and> c \<le> 0x39 then index_loop b (idx + 1) (val * 10 + ucast (c - 0x30))
        else if c = 0x5d then Ret (idx + 1, val)
        else Ret (idx, val) }
      else Ret (idx, val))"
  by pat_completeness auto
termination by (relation "measure (\<lambda>(b, idx, val). nat (len b - idx))") auto

declare index_loop.simps [simp del]

lemma index_loop_ge: "index_loop b idx val = Ret (idx', val') \<Longrightarrow> idx \<le> idx'"
proof (induction b idx val rule: index_loop.induct)
  case (1 b idx val)
  from "1.prems" show ?case
    unfolding index_loop.simps [of b idx val]
    using "1.IH" by (fastforce simp: bind_eq_Some_conv split: if_splits)
qed

function count_loop :: "bytes \<Rightarrow> int \<Rightarrow> u64 \<Rightarrow> u64 \<Rightarrow> u64 go" where
  "count_loop b idx n cur =
     (if idx < len b then do {
        c \<leftarrow> go_index b idx;
        if c \<noteq> 0x25 then count_loop b (idx + 1) n cur
        else let idx = idx + 1 in
          if idx \<ge> len b then Ret n
          else do {
            c \<leftarrow> go_index b idx;
            if c = 0x25 then count_loop b (idx + 1) n cur
            else if c = 0x5b then
              do {
                (idx, val) \<leftarrow> index_loop b (idx + 1) 0;
                if 0 <s val then count_loop b idx (if n <s val then val else n) val
                else count_loop b idx n cur }
            else let cur = cur + 1 in count_loop b (idx + 1) (if n <s cur then cur else n) cur } }
      else Ret n)"
  by pat_completeness auto
termination
  by (relation "measure (\<lambda>(b, idx, n, cur). nat (len b - idx))") (auto dest: index_loop_ge)

declare count_loop.simps [simp del]

definition countFmtArgs :: "bytes \<Rightarrow> int go" where
  "countFmtArgs format = do { n \<leftarrow> count_loop format 0 0 0; Ret (sint n) }"

subsection \<open>severity.go\<close>

datatype Severity = EMERG | ALERT | CRIT | ERR | WARN | NOTICE | INFO | DEBUG

fun sev_code :: "Severity \<Rightarrow> byte" where
  "sev_code EMERG = 0"
| "sev_code ALERT = 1"
| "sev_code CRIT = 2"
| "sev_code ERR = 3"
| "sev_code WARN = 4"
| "sev_code NOTICE = 5"
| "sev_code INFO = 6"
| "sev_code DEBUG = 7"

lemma sev_code_inj: "sev_code a = sev_code b \<longleftrightarrow> a = b"
  by (cases a; cases b) simp_all

instantiation Severity :: linorder
begin

definition less_eq_Severity :: "Severity \<Rightarrow> Severity \<Rightarrow> bool" where
  "less_eq_Severity a b \<longleftrightarrow> sev_code a \<le> sev_code b"

definition less_Severity :: "Severity \<Rightarrow> Severity \<Rightarrow> bool" where
  "less_Severity a b \<longleftrightarrow> sev_code a < sev_code b"

instance
  by standard (auto simp: less_eq_Severity_def less_Severity_def sev_code_inj [symmetric])

end

subsection \<open>Encodings with a fixed header width\<close>

lemma wire_str32: "len s < 2 ^ 32 \<Longrightarrow>
    wire (MStr s) ([0xdb, ibyte_at 24 (len s), ibyte_at 16 (len s), ibyte_at 8 (len s), ibyte_at 0 (len s)] @ s)"
  using wire_scalar [of "MStr s" "0xdb" "[ibyte_at 24 (len s), ibyte_at 16 (len s), ibyte_at 8 (len s), ibyte_at 0 (len s)]" s "if len s < 2 ^ 31 then len s else len s - 2 ^ 32"]
  by (simp add: header_def uintFromBuf_length intFromBuf_length)

lemma wire_bin32: "len s < 2 ^ 32 \<Longrightarrow>
    wire (MBin s) ([0xc6, ibyte_at 24 (len s), ibyte_at 16 (len s), ibyte_at 8 (len s), ibyte_at 0 (len s)] @ s)"
  using wire_scalar [of "MBin s" "0xc6" "[ibyte_at 24 (len s), ibyte_at 16 (len s), ibyte_at 8 (len s), ibyte_at 0 (len s)]" s "if len s < 2 ^ 31 then len s else len s - 2 ^ 32"]
  by (simp add: header_def uintFromBuf_length intFromBuf_length)

lemma wire_str8: "len s < 2 ^ 8 \<Longrightarrow> wire (MStr s) ([0xd9, ibyte_at 0 (len s)] @ s)"
  using wire_scalar [of "MStr s" "0xd9" "[ibyte_at 0 (len s)]" s "if len s < 2 ^ 7 then len s else len s - 2 ^ 8"]
  by (simp add: header_def uintFromBuf_length intFromBuf_length)

subsection \<open>Pairs of a map\<close>

definition pairs_wire :: "(msg \<times> msg) list \<Rightarrow> bytes \<Rightarrow> bool" where
  "pairs_wire kvs b \<longleftrightarrow> (\<exists>bss. list_all2 (\<lambda>kv b. wire (fst kv) (fst b) \<and> wire (snd kv) (snd b)) kvs bss \<and>
     b = concat (map (\<lambda>b. fst b @ snd b) bss))"

lemma pairs_wire_Nil [simp]: "pairs_wire [] []"
  by (simp add: pairs_wire_def)

lemma pairs_wire_append: "pairs_wire kvs b \<Longrightarrow> pairs_wire kvs' b' \<Longrightarrow> pairs_wire (kvs @ kvs') (b @ b')"
proof -
  assume "pairs_wire kvs b" "pairs_wire kvs' b'"
  then obtain bss bss' where "list_all2 (\<lambda>kv b. wire (fst kv) (fst b) \<and> wire (snd kv) (snd b)) (kvs @ kvs') (bss @ bss')"
    "b @ b' = concat (map (\<lambda>b. fst b @ snd b) (bss @ bss'))"
    unfolding pairs_wire_def by (auto intro: list_all2_appendI)
  then show ?thesis unfolding pairs_wire_def by blast
qed

lemma pairs_wire_single: "wire k kb \<Longrightarrow> wire m vb \<Longrightarrow> pairs_wire [(k, m)] (kb @ vb)"
  unfolding pairs_wire_def by (intro exI [of _ "[(kb, vb)]"]) simp

lemma wire_map_pairs: "header c lb MapT (len kvs) k \<Longrightarrow> pairs_wire kvs b \<Longrightarrow> wire (MMap kvs) (c # lb @ b)"
  unfolding pairs_wire_def by (auto intro: wire_map)

subsection \<open>The fields that a value contributes\<close>

fun builtin_msg :: "builtin \<Rightarrow> msg option" where
  "builtin_msg (KBytes val) = Some (MBin val)"
| "builtin_msg (KBool val) = Some (MBool val)"
| "builtin_msg (KFloat32 val) = Some (MFloat (float64_of val))"
| "builtin_msg (KFloat64 val) = Some (MFloat val)"
| "builtin_msg (KInt val) = Some (MInt val)"
| "builtin_msg (KInt8 val) = Some (MInt (scast val))"
| "builtin_msg (KInt16 val) = Some (MInt (scast val))"
| "builtin_msg (KInt32 val) = Some (MInt (scast val))"
| "builtin_msg (KInt64 val) = Some (MInt val)"
| "builtin_msg (KUint val) = Some (MUint val)"
| "builtin_msg (KUint8 val) = Some (MUint (ucast val))"
| "builtin_msg (KUint16 val) = Some (MUint (ucast val))"
| "builtin_msg (KUint32 val) = Some (MUint (ucast val))"
| "builtin_msg (KUint64 val) = Some (MUint val)"
| "builtin_msg (KString val) = Some (MStr val)"
| "builtin_msg KOther = None"

text \<open>
  \<open>value_msg json v m\<close>: the value \<open>v\<close> is written as \<open>m\<close>. A \<open>TextAppender\<close> appends; a value of no
  known kind is the JSON text that the encoder appends, or nothing when the encoder fails.
\<close>

definition value_msg :: "json \<Rightarrow> goval \<Rightarrow> msg \<Rightarrow> bool" where
  "value_msg json v m \<longleftrightarrow> v_KeyValueAppender v = None \<and>
     (case v_TextAppender v of Some f \<Rightarrow> (\<exists>s. appends f s \<and> m = MStr s) | None \<Rightarrow>
     (case v_Stringer v of Some s \<Rightarrow> m = MStr s | None \<Rightarrow>
     (case v_error v of Some s \<Rightarrow> m = MStr s | None \<Rightarrow>
     (case builtin_msg (v_builtin v) of Some m' \<Rightarrow> m = m' | None \<Rightarrow>
        (\<exists>j. appends (\<lambda>dst. case json dst v of None \<Rightarrow> dst | Some d \<Rightarrow> d) j \<and> m = MBin j)))))"

text \<open>
  \<open>fields json key v kvs\<close>: under the key \<open>key\<close> the value \<open>v\<close> means the pairs \<open>kvs\<close>. A \<open>KeyValueAppender\<close> means the
  pairs that it appends and counts, by the contract of its interface; every other value means one pair, the key as
  a string and the value itself. The relation does not mention the code that writes them.
\<close>

inductive fields :: "json \<Rightarrow> bytes \<Rightarrow> goval \<Rightarrow> (msg \<times> msg) list \<Rightarrow> bool" for json where
  appender_fields: "v_KeyValueAppender v = Some f \<Longrightarrow> pairs_wire kvs b \<Longrightarrow> (\<And>dst. f dst key = (dst @ b, of_nat (length kvs))) \<Longrightarrow> fields json key v kvs"
| value_fields: "value_msg json v m \<Longrightarrow> msg_ok m \<Longrightarrow> len key < 2 ^ 32 \<Longrightarrow> fields json key v [(MStr key, m)]"

lemma AppendString_then:
  "AppendString (AppendString dst s) t = dst @ AppendString [] s @ AppendString [] t"
  "AppendBinary (AppendString dst s) d = dst @ AppendString [] s @ AppendBinary [] d"
  "AppendFloat (AppendString dst s) f = dst @ AppendString [] s @ AppendFloat [] f"
  "AppendInt (AppendString dst s) v = dst @ AppendString [] s @ AppendInt [] v"
  "AppendUint (AppendString dst s) v = dst @ AppendString [] s @ AppendUint [] v"
  "AppendBool (AppendString dst s) b = dst @ AppendString [] s @ AppendBool [] b"
  by (subst AppendString_prefix AppendBinary_prefix AppendFloat_prefix AppendInt_prefix AppendUint_prefix bool_codec.app_prefix,
      subst AppendString_prefix [of dst], simp)+

lemma appendKeyValue_builtin:
  assumes "v_KeyValueAppender v = None" "v_TextAppender v = None" "v_Stringer v = None" "v_error v = None"
    and "builtin_msg (v_builtin v) = Some m"
  shows "appendKeyValue json dst key v = Ret (dst @ AppendString [] key @ encode m, 1)"
  using assms by (cases "v_builtin v") (auto simp: appendKeyValue_def AppendString_then)

lemma appendKeyValue_text:
  assumes "v_KeyValueAppender v = None" "v_TextAppender v = Some f" "appends f s"
  shows "appendKeyValue json dst key v = Ret (dst @ AppendString [] key @
    [0xdb, ibyte_at 24 (len s), ibyte_at 16 (len s), ibyte_at 8 (len s), ibyte_at 0 (len s)] @ s, 1)"
  using assms by (simp add: appendKeyValue_def AppendTextAppender_def AppendStringUnknownLength_appends AppendString_prefix [of dst key])

lemma appendKeyValue_string:
  assumes "v_KeyValueAppender v = None" "v_TextAppender v = None"
    and "v_Stringer v = Some s \<or> v_Stringer v = None \<and> v_error v = Some s"
  shows "appendKeyValue json dst key v = Ret (dst @ AppendString [] key @ AppendString [] s, 1)"
  using assms by (auto simp: appendKeyValue_def AppendString_then(1))

lemma appendKeyValue_json:
  assumes "v_KeyValueAppender v = None" "v_TextAppender v = None" "v_Stringer v = None" "v_error v = None"
    and "v_builtin v = KOther" and "appends (\<lambda>dst. case json dst v of None \<Rightarrow> dst | Some d \<Rightarrow> d) j"
  shows "appendKeyValue json dst key v = Ret (dst @ AppendString [] key @
    [0xc6, ibyte_at 24 (len j), ibyte_at 16 (len j), ibyte_at 8 (len j), ibyte_at 0 (len j)] @ j, 1)"
  using assms by (simp add: appendKeyValue_def appendJSON_def AppendBinaryUnknownLength_appends AppendString_prefix [of dst key])

lemma builtin_msg_None: "builtin_msg k = None \<longleftrightarrow> k = KOther"
  by (cases k) auto

lemma value_msg_cases:
  assumes "value_msg json v m"
  obtains (tap) f s where "v_KeyValueAppender v = None" "v_TextAppender v = Some f" "appends f s" "m = MStr s"
  | (strg) s where "v_KeyValueAppender v = None" "v_TextAppender v = None"
      "v_Stringer v = Some s \<or> v_Stringer v = None \<and> v_error v = Some s" "m = MStr s"
  | (bltn) "v_KeyValueAppender v = None" "v_TextAppender v = None" "v_Stringer v = None" "v_error v = None"
      "builtin_msg (v_builtin v) = Some m"
  | (other) j where "v_KeyValueAppender v = None" "v_TextAppender v = None" "v_Stringer v = None" "v_error v = None"
      "v_builtin v = KOther" "appends (\<lambda>dst. case json dst v of None \<Rightarrow> dst | Some d \<Rightarrow> d) j" "m = MBin j"
  using assms unfolding value_msg_def
  by (cases "v_TextAppender v"; cases "v_Stringer v"; cases "v_error v"; cases "builtin_msg (v_builtin v)")
    (fastforce simp: builtin_msg_None)+

lemma appendKeyValue_value:
  assumes "value_msg json v m" and "msg_ok m" and "len key < 2 ^ 32"
  obtains b where "pairs_wire [(MStr key, m)] b" "\<And>dst. appendKeyValue json dst key v = Ret (dst @ b, 1)"
proof -
  have enc: "wire m (encode m)" using assms(2) by (rule encode_wire)
  have "\<exists>vb. wire m vb \<and> (\<forall>dst. appendKeyValue json dst key v = Ret (dst @ AppendString [] key @ vb, 1))"
    using assms(1)
  proof (cases rule: value_msg_cases)
    case (tap f s)
    with assms(2) wire_str32 [of s] appendKeyValue_text [OF tap(1-3)] show ?thesis by (simp only: msg_ok.simps) blast
  next
    case (strg s)
    with enc appendKeyValue_string [OF strg(1-3)] show ?thesis by (simp only: encode.simps) blast
  next
    case bltn
    with enc appendKeyValue_builtin [OF bltn] show ?thesis by blast
  next
    case (other j)
    with assms(2) wire_bin32 [of j] appendKeyValue_json [OF other(1-5), of json j _ key] other(6) show ?thesis by (simp only: msg_ok.simps) blast
  qed
  then obtain vb where vb: "wire m vb" "\<And>dst. appendKeyValue json dst key v = Ret (dst @ AppendString [] key @ vb, 1)" by blast
  have "wire (MStr key) (AppendString [] key)"
    using encode_wire [of "MStr key"] assms(3) by simp
  from that [OF pairs_wire_single [OF this vb(1)] vb(2)] show thesis .
qed

lemma appendKeyValue_appends:
  assumes "fields json key v kvs"
  obtains b where "pairs_wire kvs b" "\<And>dst. appendKeyValue json dst key v = Ret (dst @ b, of_nat (length kvs))"
  using assms
proof (cases rule: fields.cases)
  case (appender_fields f b)
  then show thesis by (intro that [of b]) (simp_all add: appendKeyValue_def)
next
  case (value_fields m)
  then show thesis by (auto elim!: appendKeyValue_value intro: that)
qed

subsection \<open>Argument lists\<close>

text \<open>
  The key and value of each field that an argument list means: a string where a key is due is the
  key of the next argument, any other argument there has the empty key, and a key without an
  argument after it is dropped.
\<close>

fun arg_fields :: "bytes \<Rightarrow> goval list \<Rightarrow> (bytes \<times> goval) list" where
  "arg_fields key [] = []"
| "arg_fields key (a # as) =
     (case (key, v_builtin a) of
        ([], KString k) \<Rightarrow> arg_fields k as
      | _ \<Rightarrow> (key, a) # arg_fields [] as)"

definition args_add :: "json \<Rightarrow> bytes \<Rightarrow> goval list \<Rightarrow> (msg \<times> msg) list \<Rightarrow> bool" where
  "args_add json key args kvs \<longleftrightarrow>
     (\<exists>kvss. list_all2 (\<lambda>kv kvs. fields json (fst kv) (snd kv) kvs) (arg_fields key args) kvss \<and> kvs = concat kvss)"

lemma appendArgs_loop_Cons:
  "appendArgs_loop json key b n (a # as) =
     (if key = [] \<and> (\<exists>k. v_builtin a = KString k) then appendArgs_loop json (case v_builtin a of KString k \<Rightarrow> k) b n as
      else do { (b, nn) \<leftarrow> appendKeyValue json b key a; appendArgs_loop json [] b (n + nn) as })"
  by (cases key; cases "v_builtin a") auto

lemma arg_fields_Cons:
  "arg_fields key (a # as) =
     (if key = [] \<and> (\<exists>k. v_builtin a = KString k) then arg_fields (case v_builtin a of KString k \<Rightarrow> k) as
      else (key, a) # arg_fields [] as)"
  by (cases key; cases "v_builtin a") auto

declare appendArgs_loop.simps(2) [simp del] arg_fields.simps(2) [simp del]

lemma appendArgs_loop_fields:
  assumes "list_all2 (\<lambda>kv kvs. fields json (fst kv) (snd kv) kvs) (arg_fields key as) kvss"
  shows "\<exists>b'. pairs_wire (concat kvss) b' \<and>
    (\<forall>b n. appendArgs_loop json key b n as = Ret (b @ b', n + of_nat (length (concat kvss))))"
  using assms
proof (induction as arbitrary: key kvss)
  case Nil
  then show ?case by (intro exI [of _ "[]"]) simp
next
  case (Cons a as)
  show ?case
  proof (cases "key = [] \<and> (\<exists>k. v_builtin a = KString k)")
    case True
    with Cons show ?thesis by (simp add: arg_fields_Cons appendArgs_loop_Cons)
  next
    case False
    with Cons.prems obtain kvs kvss' where k: "kvss = kvs # kvss'" "fields json key a kvs"
      and r: "list_all2 (\<lambda>kv kvs. fields json (fst kv) (snd kv) kvs) (arg_fields [] as) kvss'"
      by (auto simp: arg_fields_Cons list_all2_Cons1)
    from k(2) obtain b1 where b1: "pairs_wire kvs b1"
      "\<And>dst. appendKeyValue json dst key a = Ret (dst @ b1, of_nat (length kvs))"
      using appendKeyValue_appends by metis
    from Cons.IH [OF r] obtain b2 where b2: "pairs_wire (concat kvss') b2"
      "\<And>b n. appendArgs_loop json [] b n as = Ret (b @ b2, n + of_nat (length (concat kvss')))" by auto
    have "appendArgs_loop json key b n (a # as) = Ret (b @ (b1 @ b2), n + of_nat (length (concat kvss)))" for b n
      unfolding appendArgs_loop_Cons if_not_P [OF False] using b1(2) b2(2) k(1) by (simp add: add.assoc)
    with pairs_wire_append [OF b1(1) b2(1)] k(1) show ?thesis by auto
  qed
qed

lemma appendArgs_fields:
  assumes "args_add json [] args kvs"
  obtains b' where "pairs_wire kvs b'" "\<And>b. appendArgs json b args = Ret (b @ b', of_nat (length kvs))"
proof -
  from assms obtain kvss where "list_all2 (\<lambda>kv kvs. fields json (fst kv) (snd kv) kvs) (arg_fields [] args) kvss" "kvs = concat kvss"
    unfolding args_add_def by auto
  with appendArgs_loop_fields [OF this(1)] that show thesis
    unfolding appendArgs_def by (metis add_0)
qed

subsection \<open>Stack traces\<close>

definition frames_of :: "frame list \<Rightarrow> frame list" where
  "frames_of fs = (if fs = [] then [zero_frame] else fs)"

definition stack_msg :: "frame list \<Rightarrow> msg" where
  "stack_msg fs = MArray (map (\<lambda>f. MStr (take 255 (frame_text f))) (frames_of fs))"

definition str8 :: "bytes \<Rightarrow> bytes" where
  "str8 s = [0xd9, ibyte_at 0 (min 255 (len s))] @ take 255 s"

lemma wire_str8_take: "wire (MStr (take 255 s)) (str8 s)"
  using wire_str8 [of "take 255 s"] by (simp add: str8_def min.commute of_nat_min)

lemma stack_loop_frames:
  "stack_loop dst i fs = Ret (dst @ concat (map (\<lambda>f. str8 (frame_text f)) (frames_of fs)), i + of_nat (length (frames_of fs)))"
proof (induction dst i fs rule: stack_loop.induct)
  case (3 dst i f f' fs)
  have "AppendStringMax255 dst (\<lambda>dst. dst @ frame_text f) = Ret (dst @ str8 (frame_text f))"
    using AppendStringMax255_appends [of "\<lambda>dst. dst @ frame_text f" "frame_text f" dst] by (simp add: appends_def str8_def)
  with 3 show ?case by (simp add: frames_of_def)
qed (simp_all add: frames_of_def AppendStringMax255_appends [of _ "frame_text f" for f] appends_def str8_def)

lemma appendStackTrace_wire:
  assumes "length fs \<le> 15"
  obtains b where "pairs_wire [(MStr (text_bytes ''stackTrace''), stack_msg fs)] b"
    "\<And>dst. appendStackTrace dst fs = Ret (dst @ b)"
proof -
  let ?F = "frames_of fs" and ?key = "text_bytes ''stackTrace''"
  let ?vb = "(0x90 OR of_nat (length ?F)) # concat (map (\<lambda>f. str8 (frame_text f)) ?F)"
  have l: "length ?F \<le> 15" using assms by (simp add: frames_of_def)
  have "Get (0x90 OR of_nat (length ?F)) = (ArrayT, len ?F, True)"
    using Get_fix_header(3) [of "len ?F"] l by (simp add: ibyte_at_def)
  then have h: "header (0x90 OR of_nat (length ?F)) [] ArrayT (len ?F) (len ?F)"
    using l by (simp add: header_def)
  have "list_all2 wire (map (\<lambda>f. MStr (take 255 (frame_text f))) ?F) (map (\<lambda>f. str8 (frame_text f)) ?F)"
    unfolding list.rel_map by (intro list.rel_refl_strong wire_str8_take)
  from wire_array [OF _ this, of "0x90 OR of_nat (length ?F)" "[]" "len ?F"] h
  have v: "wire (stack_msg fs) ?vb" by (simp add: stack_msg_def)
  have "AppendArrayHeader d 0 = d @ [0x90]" for d
    by (simp add: AppendArrayHeader_def ibyte_at_def)
  then have "appendStackTrace dst fs = Ret (dst @ AppendString [] ?key @ ?vb)" for dst
    by (simp add: appendStackTrace_def stack_loop_frames AppendString_prefix [of dst ?key] go_simps)
  moreover have "wire (MStr ?key) (AppendString [] ?key)"
    using encode_wire [of "MStr ?key"] by (simp add: text_bytes_def)
  ultimately show thesis using pairs_wire_single [OF _ v] by (intro that) auto
qed

subsection \<open>countFmtArgs\<close>

lemma index_loop_total: "0 \<le> idx \<Longrightarrow> \<exists>idx' val'. index_loop b idx val = Ret (idx', val')"
proof (induction b idx val rule: index_loop.induct)
  case (1 b idx val)
  then show ?case
    unfolding index_loop.simps [of b idx val] by (auto simp: go_index_Some)
qed

lemma count_loop_total: "0 \<le> idx \<Longrightarrow> 0 \<le> sint n \<Longrightarrow> \<exists>m. count_loop b idx n cur = Ret m \<and> 0 \<le> sint m"
proof (induction "nat (len b - idx)" arbitrary: idx n cur rule: less_induct)
  case less
  show ?case
  proof (cases "idx < len b")
    case True
    obtain idx' val where i: "index_loop b (2 + idx) 0 = Ret (idx', val)" using index_loop_total less.prems by fastforce
    from index_loop_ge [OF i] less.prems have "idx < idx'" by simp
    with less i True show ?thesis
      unfolding count_loop.simps [of b idx n cur]
      by (auto simp: go_index_Some Let_def word_sless_alt)
  qed (use less.prems in \<open>simp add: count_loop.simps\<close>)
qed

text \<open>The number of verbs in a format without explicit indices\<close>

fun verbs :: "bytes \<Rightarrow> nat" where
  "verbs (c # d # xs) = (if c \<noteq> 0x25 then verbs (d # xs) else if d = 0x25 then verbs xs else 1 + verbs xs)"
| "verbs _ = 0"

lemma verbs_le: "verbs xs \<le> length xs"
  by (induction xs rule: verbs.induct) auto

lemma verbs_skip: "c \<noteq> 0x25 \<Longrightarrow> verbs (c # xs) = verbs xs"
  by (cases xs) auto

lemma drop_nat_Cons: "0 \<le> idx \<Longrightarrow> idx < len b \<Longrightarrow> drop (nat idx) b = b ! nat idx # drop (nat (idx + 1)) b"
  by (metis Cons_nth_drop_Suc Suc_nat_eq_nat_zadd1 add.commute nat_less_iff)

lemma sint_plus_1:
  assumes "0 \<le> sint (n :: u64)" and "sint n + 1 < 2 ^ 63"
  shows "sint (n + 1) = sint n + 1"
proof -
  have "n + 1 = word_of_int (sint n + 1)" by simp
  then show ?thesis using assms sint_word_of_int [of "sint n + 1"] by simp
qed

lemma count_loop_verbs:
  assumes "0x5b \<notin> set b" and "0 \<le> idx" and "0 \<le> sint n" and "sint n + len (drop (nat idx) b) < 2 ^ 63" and "cur = n"
  shows "count_loop b idx n cur = Ret (n + of_nat (verbs (drop (nat idx) b)))"
  using assms
proof (induction "nat (len b - idx)" arbitrary: idx n cur rule: less_induct)
  case less
  show ?case
  proof (cases "idx < len b")
    case False
    then show ?thesis by (simp add: count_loop.simps)
  next
    case True
    let ?c = "b ! nat idx"
    have c: "go_index b idx = Ret ?c" using True less.prems by (simp add: go_index_Some)
    have dc: "drop (nat idx) b = ?c # drop (nat (idx + 1)) b" using drop_nat_Cons True less.prems by simp
    show ?thesis
    proof (cases "?c = 0x25")
      case False
      with less True c dc show ?thesis by (simp add: count_loop.simps [of b idx] verbs_skip)
    next
      case c25: True
      show ?thesis
      proof (cases "idx + 1 < len b")
        case False
        with c25 c True dc show ?thesis by (simp add: count_loop.simps [of b idx])
      next
        case lt: True
        let ?d = "b ! nat (idx + 1)"
        have d: "go_index b (idx + 1) = Ret ?d" using lt less.prems by (simp add: go_index_Some)
        have dd: "drop (nat (idx + 1)) b = ?d # drop (nat (2 + idx)) b"
          using drop_nat_Cons [of "idx + 1" b] lt less.prems by simp
        have "?d \<in> set b" using lt less.prems by simp
        then have nb: "?d \<noteq> 0x5b" using less.prems(1) by auto
        have s: "sint (n + 1) = sint n + 1" using less.prems dc dd by (intro sint_plus_1) simp_all
        show ?thesis
        proof (cases "?d = 0x25")
          case True
          with less c c25 d dc dd lt \<open>idx < len b\<close> show ?thesis by (simp add: count_loop.simps [of b idx])
        next
          case False
          have "count_loop b (2 + idx) (n + 1) (n + 1) = Ret (n + 1 + of_nat (verbs (drop (nat (2 + idx)) b)))"
            using less.prems lt s dc dd by (intro less.hyps) simp_all
          then show ?thesis
            using False nb c c25 d dc dd lt \<open>idx < len b\<close> less.prems(5) s
            by (simp add: count_loop.simps [of b idx] word_sless_alt)
        qed
      qed
    qed
  qed
qed

lemma countFmtArgs_verbs:
  assumes "0x5b \<notin> set format" and "len format < 2 ^ 63"
  shows "countFmtArgs format = Ret (int (verbs format))"
proof -
  have "sint (word_of_int (int (verbs format)) :: u64) = int (verbs format)"
    using assms(2) verbs_le [of format] by (intro sint_word_of_int) auto
  with assms count_loop_verbs [of format 0 0 0] show ?thesis by (simp add: countFmtArgs_def)
qed

subsection \<open>Properties\<close>

text \<open>
  C16. \<^bold>\<open>Log arguments become the fields of a map.\<close> Whatever mixture of keys, values, text
  appenders, errors, JSON values and nested appenders the arguments are, \<open>appendArgs\<close> appends the
  encoding of exactly the pairs that they mean, in order, and returns their number modulo 256. What they mean is
  \<open>arg_fields\<close> (which argument is a key) and \<open>fields\<close> (the pairs of a value: its kind, its number extended by its own
  sign, its bytes), stated apart from \<open>appendKeyValue\<close>. Strings and keys are shorter than \<open>2^32\<close> bytes, and a text
  appender, the JSON encoder and a nested appender append to the buffer they are given.
\<close>

theorem appendArgs_appends_fields:
  assumes "list_all2 (\<lambda>kv kvs. fields json (fst kv) (snd kv) kvs) (arg_fields [] args) kvss"
  shows "\<exists>b'. pairs_wire (concat kvss) b' \<and>
    appendArgs json b args = Ret (b @ b', of_nat (length (concat kvss)))"
  using appendArgs_loop_fields [OF assms] by (auto simp: appendArgs_def)

theorem appendArgs_appends_fields_witness:
  "\<exists>b'. pairs_wire [(MStr [0x61], MInt (- 5)), (MStr [], MBool True)] b' \<and>
     appendArgs (\<lambda>_ _. None) [7] [plain (KString [0x61]), plain (KInt8 0xfb), plain (KBool True), plain (KString [0x62])] =
       Ret ([7] @ b', 2)"
proof -
  have "fields (\<lambda>_ _. None) [0x61] (plain (KInt8 0xfb)) [(MStr [0x61], MInt (- 5))]"
    "fields (\<lambda>_ _. None) [] (plain (KBool True)) [(MStr [], MBool True)]"
    by (intro value_fields; simp add: value_msg_def plain_def)+
  then show ?thesis
    using appendArgs_appends_fields [of "\<lambda>_ _. None"
        "[plain (KString [0x61]), plain (KInt8 0xfb), plain (KBool True), plain (KString [0x62])]"
        "[[(MStr [0x61], MInt (- 5))], [(MStr [], MBool True)]]" "[7]"]
    by (simp add: arg_fields_Cons plain_def)
qed

text \<open>
  C29. \<^bold>\<open>countFmtArgs\<close> returns on every format, without a panic and never a negative number; on a
  format without explicit indices it is the number of verbs.
\<close>

theorem countFmtArgs_counts:
  "(\<exists>n \<ge> 0. countFmtArgs format = Ret n) \<and>
   (0x5b \<notin> set format \<and> len format < 2 ^ 63 \<longrightarrow> countFmtArgs format = Ret (int (verbs format)))"
  using count_loop_total [of 0 0 format 0] countFmtArgs_verbs [of format] by (auto simp: countFmtArgs_def)

theorem countFmtArgs_counts_witness: "countFmtArgs (text_bytes ''a %d %% %s'') = Ret 2"
  using countFmtArgs_counts [of "text_bytes ''a %d %% %s''"] by (simp add: text_bytes_def)

end
