(* ===== verification/Instance.thy ===== *)
theory Instance
  imports Args Iteration
begin

text \<open>
  \<open>instance.go\<close>, \<open>logger.go\<close> and \<open>slog.go\<close>: how a log call becomes one message of the Forward
  protocol. Parameters: an identifier of the \<open>hexid\<close> module is the time and the number that the
  code reads of it; \<open>appendf\<close> is \<open>fmt.Appendf\<close>; \<open>json\<close> and the stack frames are those of \<open>Args\<close>.
  The buffers come empty from the pool. What happens to the finished buffer is the subject of the
  theory \<open>Queue\<close>.
\<close>

record hexid =
  id_Time :: go_time
  id_Uint64 :: u64

datatype WriteBehavior = Block | Loose | Fallback

record Options =
  opt_Tag :: bytes
  opt_BufferSize :: int
  opt_WriteBehavior :: WriteBehavior
  opt_StackTraceThreshold :: Severity

definition setDefaults :: "Options \<Rightarrow> Options" where
  "setDefaults opt =
     (let opt = (if opt_Tag opt = [] then opt\<lparr>opt_Tag := text_bytes ''fluentlog''\<rparr> else opt)
      in if opt_BufferSize opt \<le> 0 then opt\<lparr>opt_BufferSize := 16\<rparr> else opt)"

text \<open>The environment of a call: \<open>fmt.Appendf\<close>, the JSON encoder and the frames of the stack\<close>

record env =
  env_Appendf :: "bytes \<Rightarrow> bytes \<Rightarrow> goval list \<Rightarrow> bytes"
  env_json :: json
  env_frames :: "frame list"

text \<open>\<open>b.B[x] += n\<close> on bytes\<close>

definition incr_at :: "bytes \<Rightarrow> int \<Rightarrow> byte \<Rightarrow> bytes go" where
  "incr_at b x n = do { c \<leftarrow> go_index b x; go_store b x (c + n) }"

subsection \<open>Instance.log and Instance.metrics, up to the queue\<close>

text \<open>
  \<open>None\<close> in the result is the early return of a closed instance. The argument slice of a call has
  its length as capacity, so \<open>args[:fmtArgs]\<close> panics when there are fewer arguments than verbs.
\<close>

definition log :: "env \<Rightarrow> Options \<Rightarrow> bool \<Rightarrow> hexid \<Rightarrow> Severity \<Rightarrow> bytes \<Rightarrow> goval list \<Rightarrow> bool \<Rightarrow>
    bytes \<Rightarrow> byte \<Rightarrow> bytes option go" where
  "log E opt closed hid sev msg args sprintf extraData extraCount = do {
     fmtArgs \<leftarrow> (if sprintf then countFmtArgs msg else Ret 0);
     if closed then Ret None
     else do {
       let b = [];
       let b = AppendArrayHeader b 3;
       let b = AppendString b (opt_Tag opt);
       let b = AppendTimestamp b (id_Time hid) [TsFluentd];
       let b = b @ [0xde, 0, 0];
       let x = len b - 1;
       b \<leftarrow> incr_at b x 1;
       let b = AppendString b (text_bytes ''@id'');
       let b = AppendUint b (id_Uint64 hid);
       b \<leftarrow> incr_at b x 1;
       let b = AppendString b (text_bytes ''pri'');
       let b = AppendUint b (ucast (sev_code sev));
       b \<leftarrow> incr_at b x 1;
       let b = AppendString b (text_bytes ''message'');
       b \<leftarrow> (if fmtArgs > 0 then do {
               fargs \<leftarrow> go_slice args 0 fmtArgs;
               AppendStringDynamic b (\<lambda>dst. env_Appendf E dst msg fargs) }
             else Ret (AppendString b msg));
       b \<leftarrow> (if extraCount > 0 then incr_at (b @ extraData) x extraCount else Ret b);
       b \<leftarrow> (if len args > fmtArgs then do {
               rest \<leftarrow> go_slice args fmtArgs (len args);
               (b, n) \<leftarrow> appendArgs (env_json E) b rest;
               incr_at b x n }
             else Ret b);
       b \<leftarrow> (if sev \<le> opt_StackTraceThreshold opt then do {
               b \<leftarrow> appendStackTrace b (env_frames E);
               incr_at b x 1 }
             else Ret b);
       Ret (Some b) } }"

definition metrics :: "env \<Rightarrow> Options \<Rightarrow> bool \<Rightarrow> go_time \<Rightarrow> goval list \<Rightarrow> bytes option go" where
  "metrics E opt closed now args =
     (if closed then Ret None
      else do {
        let b = [];
        let b = AppendArrayHeader b 3;
        let b = AppendString b (opt_Tag opt);
        let b = AppendTimestamp b now [TsFluentd];
        let b = b @ [0xde, 0, 0];
        let x = len b - 1;
        (b, n) \<leftarrow> appendArgs (env_json E) b args;
        b \<leftarrow> incr_at b x n;
        Ret (Some b) })"

subsection \<open>logger.go\<close>

text \<open>A nil \<open>fieldData\<close> is \<open>None\<close>; \<open>bufPool.Get\<close> returns an empty buffer.\<close>

record Logger =
  fieldData :: "bytes option"
  fieldCount :: byte

definition new_Logger :: Logger where
  "new_Logger = \<lparr> fieldData = None, fieldCount = 0 \<rparr>"

definition data_of :: "Logger \<Rightarrow> bytes" where
  "data_of l = (case fieldData l of None \<Rightarrow> [] | Some b \<Rightarrow> b)"

type_synonym log_call = "env \<Rightarrow> Options \<Rightarrow> bool \<Rightarrow> hexid \<Rightarrow> Logger \<Rightarrow> bytes \<Rightarrow> goval list \<Rightarrow> bytes option go"

definition Debug :: log_call where
  "Debug E opt closed hid l msg args = log E opt closed hid DEBUG msg args False (data_of l) (fieldCount l)"

definition Info :: log_call where
  "Info E opt closed hid l msg args = log E opt closed hid INFO msg args False (data_of l) (fieldCount l)"

definition Notice :: log_call where
  "Notice E opt closed hid l msg args = log E opt closed hid NOTICE msg args False (data_of l) (fieldCount l)"

definition Warn :: log_call where
  "Warn E opt closed hid l msg args = log E opt closed hid WARN msg args False (data_of l) (fieldCount l)"

definition Error :: log_call where
  "Error E opt closed hid l msg args = log E opt closed hid ERR msg args False (data_of l) (fieldCount l)"

definition Crit :: log_call where
  "Crit E opt closed hid l msg args = log E opt closed hid CRIT msg args False (data_of l) (fieldCount l)"

definition Alert :: log_call where
  "Alert E opt closed hid l msg args = log E opt closed hid ALERT msg args False (data_of l) (fieldCount l)"

definition Emerg :: log_call where
  "Emerg E opt closed hid l msg args = log E opt closed hid EMERG msg args False (data_of l) (fieldCount l)"

definition Debugf :: log_call where
  "Debugf E opt closed hid l format args = log E opt closed hid DEBUG format args True (data_of l) (fieldCount l)"

definition Infof :: log_call where
  "Infof E opt closed hid l format args = log E opt closed hid INFO format args True (data_of l) (fieldCount l)"

definition Noticef :: log_call where
  "Noticef E opt closed hid l format args = log E opt closed hid NOTICE format args True (data_of l) (fieldCount l)"

definition Warnf :: log_call where
  "Warnf E opt closed hid l format args = log E opt closed hid WARN format args True (data_of l) (fieldCount l)"

definition Errorf :: log_call where
  "Errorf E opt closed hid l format args = log E opt closed hid ERR format args True (data_of l) (fieldCount l)"

definition Critf :: log_call where
  "Critf E opt closed hid l format args = log E opt closed hid CRIT format args True (data_of l) (fieldCount l)"

definition Alertf :: log_call where
  "Alertf E opt closed hid l format args = log E opt closed hid ALERT format args True (data_of l) (fieldCount l)"

definition Emergf :: log_call where
  "Emergf E opt closed hid l format args = log E opt closed hid EMERG format args True (data_of l) (fieldCount l)"

definition Metrics :: "env \<Rightarrow> Options \<Rightarrow> bool \<Rightarrow> go_time \<Rightarrow> goval list \<Rightarrow> bytes option go" where
  "Metrics E opt closed now args = metrics E opt closed now args"

definition Logger_Recover :: "env \<Rightarrow> Options \<Rightarrow> bool \<Rightarrow> hexid \<Rightarrow> Logger \<Rightarrow> goval \<Rightarrow> bytes option go" where
  "Logger_Recover E opt closed hid l err =
     log E opt closed hid CRIT (text_bytes ''panic: %v'') [err] True (data_of l) (fieldCount l)"

definition With :: "json \<Rightarrow> Logger \<Rightarrow> goval list \<Rightarrow> Logger go" where
  "With json l args =
     (let lg = new_Logger in
      if len args > 0 then do {
        let lg = lg\<lparr>fieldData := Some []\<rparr>;
        let lg = (case fieldData l of
            Some d \<Rightarrow> lg\<lparr>fieldData := Some (data_of lg @ d), fieldCount := fieldCount l\<rparr>
          | None \<Rightarrow> lg);
        (d, n) \<leftarrow> appendArgs json (data_of lg) args;
        Ret (lg\<lparr>fieldData := Some d, fieldCount := fieldCount lg + n\<rparr>) }
      else Ret lg)"

text \<open>\<open>Instance.Release\<close>: the logger goes back to the pool empty.\<close>

definition Release :: "Logger \<Rightarrow> Logger" where
  "Release l = l\<lparr>fieldData := None, fieldCount := 0\<rparr>"

subsection \<open>slog.go\<close>

datatype slog_value =
    KindInt64 u64
  | KindUint64 u64
  | KindFloat64 f64
  | KindBool bool
  | KindTime go_time
  | KindString bytes
  | KindAny goval

record slog_attr =
  attr_Key :: bytes
  attr_Value :: slog_value

definition LevelDebug :: int where "LevelDebug = - 4"
definition LevelInfo :: int where "LevelInfo = 0"
definition LevelWarn :: int where "LevelWarn = 4"
definition LevelError :: int where "LevelError = 8"

definition slog_severity :: "int \<Rightarrow> Severity" where
  "slog_severity level =
     (if level = LevelDebug then DEBUG
      else if level = LevelInfo then INFO
      else if level = LevelWarn then WARN
      else if level = LevelError then ERR
      else INFO)"

definition appendSlogAttr :: "bytes \<Rightarrow> slog_attr \<Rightarrow> bytes go" where
  "appendSlogAttr b a =
     (let b = AppendString b (attr_Key a) in
      case attr_Value a of
        KindInt64 v \<Rightarrow> Ret (AppendInt b v)
      | KindUint64 v \<Rightarrow> Ret (AppendUint b v)
      | KindFloat64 v \<Rightarrow> Ret (AppendFloat b v)
      | KindBool v \<Rightarrow> Ret (AppendBool b v)
      | KindTime v \<Rightarrow> Ret (AppendTimestamp b v [])
      | KindString v \<Rightarrow> Ret (AppendString b v)
      | KindAny v \<Rightarrow> AppendAny b v)"

fun slog_loop :: "bytes \<Rightarrow> slog_attr list \<Rightarrow> bytes go" where
  "slog_loop b [] = Ret b"
| "slog_loop b (a # as) = do { b \<leftarrow> appendSlogAttr b a; slog_loop b as }"

definition appendSlogAttrs :: "bytes \<Rightarrow> slog_attr list \<Rightarrow> (bytes \<times> byte) go" where
  "appendSlogAttrs b attrs = do { b \<leftarrow> slog_loop b attrs; Ret (b, of_nat (length attrs)) }"

definition slog_WithAttrs :: "Logger \<Rightarrow> slog_attr list \<Rightarrow> Logger go" where
  "slog_WithAttrs l attrs = do {
     let lg = new_Logger\<lparr>fieldData := Some []\<rparr>;
     let lg = (case fieldData l of
         Some d \<Rightarrow> lg\<lparr>fieldData := Some (data_of lg @ d), fieldCount := fieldCount l\<rparr>
       | None \<Rightarrow> lg);
     d \<leftarrow> slog_loop (data_of lg) attrs;
     Ret (lg\<lparr>fieldData := Some d, fieldCount := fieldCount lg + of_nat (length attrs)\<rparr>) }"

definition slog_WithGroup :: "Logger \<Rightarrow> bytes \<Rightarrow> Logger" where
  "slog_WithGroup l name = new_Logger"

text \<open>\<open>hid\<close> is the identifier that \<open>hexid.IDFromTime\<close> makes of the time \<open>ts\<close>, where the zero time of
  the record is replaced by \<open>now\<close>.\<close>

definition slog_log :: "env \<Rightarrow> Options \<Rightarrow> bool \<Rightarrow> go_time \<Rightarrow> (go_time \<Rightarrow> u64) \<Rightarrow> Severity \<Rightarrow> bytes \<Rightarrow> go_time \<Rightarrow>
    slog_attr list \<Rightarrow> bytes \<Rightarrow> byte \<Rightarrow> bytes option go" where
  "slog_log E opt closed now IDFromTime sev msg rec_Time attrs extraData extraCount =
     (if closed then Ret None
      else do {
       let ts = (if rec_Time = zero_time then now else rec_Time);
       let b = [];
       let hid = IDFromTime ts;
       let b = AppendArrayHeader b 3;
       let b = AppendString b (opt_Tag opt);
       let b = AppendTimestamp b ts [TsFluentd];
       let b = b @ [0xde, 0, 0];
       let x = len b - 1;
       b \<leftarrow> incr_at b x 1;
       let b = AppendString b (text_bytes ''@id'');
       let b = AppendUint b hid;
       b \<leftarrow> incr_at b x 1;
       let b = AppendString b (text_bytes ''pri'');
       let b = AppendUint b (ucast (sev_code sev));
       b \<leftarrow> incr_at b x 1;
       let b = AppendString b (text_bytes ''message'');
       let b = AppendString b msg;
       b \<leftarrow> (if extraCount > 0 then incr_at (b @ extraData) x extraCount else Ret b);
       (b, n) \<leftarrow> appendSlogAttrs b attrs;
       b \<leftarrow> incr_at b x n;
       b \<leftarrow> (if sev \<le> opt_StackTraceThreshold opt then do {
               b \<leftarrow> appendStackTrace b (env_frames E);
               incr_at b x 1 }
             else Ret b);
       Ret (Some b) })"

definition slog_Handle :: "env \<Rightarrow> Options \<Rightarrow> bool \<Rightarrow> go_time \<Rightarrow> (go_time \<Rightarrow> u64) \<Rightarrow> Logger \<Rightarrow> int \<Rightarrow> bytes \<Rightarrow>
    go_time \<Rightarrow> slog_attr list \<Rightarrow> bytes option go" where
  "slog_Handle E opt closed now IDFromTime l level msg rec_Time attrs =
     slog_log E opt closed now IDFromTime (slog_severity level) msg rec_Time attrs (data_of l) (fieldCount l)"

subsection \<open>A log entry under construction\<close>

text \<open>
  \<open>entry_head\<close> is the array header, the tag and the timestamp of an entry; \<open>entry p n body\<close> is an
  entry with head \<open>p\<close> whose 16-bit map header announces \<open>n\<close> pairs and is followed by \<open>body\<close>.
\<close>

definition entry_head :: "bytes \<Rightarrow> go_time \<Rightarrow> bytes" where
  "entry_head tag t = AppendTimestamp (AppendString (AppendArrayHeader [] 3) tag) t [TsFluentd]"

definition entry :: "bytes \<Rightarrow> byte \<Rightarrow> bytes \<Rightarrow> bytes" where
  "entry p n body = p @ 0xde # 0 # n # body"

named_theorems entry_simps "how the operations act on an entry under construction"

lemma entry_start [entry_simps]: "p @ [0xde, 0, 0] = entry p 0 []" "len (entry p 0 []) - 1 = len p + 2"
  by (simp_all add: entry_def)

lemma incr_at_entry [entry_simps]: "incr_at (entry p n body) (len p + 2) m = Ret (entry p (n + m) body)"
proof -
  have e: "entry p n body = (p @ [0xde, 0]) @ n # body" "len p + 2 = len (p @ [0xde :: byte, 0])" for n
    by (simp_all add: entry_def)
  show ?thesis unfolding incr_at_def e go_index_append by (simp add: go_store_append del: append_assoc of_nat_add length_append)
qed

lemma entry_append [entry_simps]:
  "entry p n body @ b = entry p n (body @ b)"
  "AppendString (entry p n body) s = entry p n (body @ AppendString [] s)"
  "AppendUint (entry p n body) v = entry p n (body @ AppendUint [] v)"
  by (simp_all add: entry_def AppendString_prefix [of "p @ 0xde # 0 # n # body"] AppendUint_prefix [of "p @ 0xde # 0 # n # body"])

lemma entry_Dynamic [entry_simps]:
  "appends fn s \<Longrightarrow> AppendStringDynamic (entry p n body) fn = Ret (entry p n (body @ AppendString [] s))"
  by (simp add: AppendStringDynamic_appends entry_append)

lemma pairs_wire_Cons: "wire k kb \<Longrightarrow> wire m vb \<Longrightarrow> pairs_wire kvs b \<Longrightarrow> pairs_wire ((k, m) # kvs) (kb @ vb @ b)"
  using pairs_wire_append [OF pairs_wire_single] by fastforce

lemma wire_entry_map:
  assumes "pairs_wire kvs body" and "length kvs < 256" and "n = of_nat (length kvs)"
  shows "wire (MMap kvs) (0xde # 0 # n # body)"
proof -
  have "drop_bit 8 (len kvs) = 0" using assms(2) by (simp add: drop_bit_eq_div)
  then have "[0, n] = [ibyte_at 8 (len kvs), ibyte_at 0 (len kvs)]" using assms(3) by (simp add: ibyte_at_def)
  then have "header 0xde [0, n] MapT (len kvs) (len kvs)"
    using assms(2) uintFromBuf_length(2) [of "len kvs"] intFromBuf_length(2) [of "len kvs"] by (simp add: header_def)
  from wire_map_pairs [OF this assms(1)] show ?thesis by simp
qed

lemma wire_entry:
  assumes "len tag < 2 ^ 32" and "ts_valid [TsFluentd] t"
    and "pairs_wire kvs body" and "length kvs < 256" and "n = of_nat (length kvs)"
  shows "wire (MArray [MStr tag, MTime t [TsFluentd], MMap kvs]) (entry (entry_head tag t) n body)"
proof -
  have m: "wire (MMap kvs) (0xde # [0, n] @ body)" using wire_entry_map [OF assms(3-5)] by simp
  have s: "wire (MStr tag) (AppendString [] tag)" and t: "wire (MTime t [TsFluentd]) (AppendTimestamp [] t [TsFluentd])"
    using encode_wire [of "MStr tag"] encode_wire [of "MTime t [TsFluentd]"] assms(1,2) by (simp_all add: ts_format_def)
  have h: "header 0x93 [] ArrayT (len [MStr tag, MTime t [TsFluentd], MMap kvs]) 3"
    using Get_fix_header(3) [of 3] by (simp add: header_def ibyte_at_def)
  have "entry (entry_head tag t) n body = 0x93 # [] @ concat [AppendString [] tag, AppendTimestamp [] t [TsFluentd], 0xde # [0, n] @ body]"
    by (simp add: entry_def entry_head_def AppendArrayHeader_def ibyte_at_def AppendString_prefix [of "[0x93]"]
        AppendTimestamp_prefix [of "0x93 # AppendString [] tag"])
  with wire_array [OF h, of "[AppendString [] tag, AppendTimestamp [] t [TsFluentd], 0xde # [0, n] @ body]"] m s t
  show ?thesis by simp
qed

subsection \<open>The fields of an entry\<close>

abbreviation base_fields :: "u64 \<Rightarrow> Severity \<Rightarrow> bytes \<Rightarrow> (msg \<times> msg) list" where
  "base_fields i sev text \<equiv>
     [(MStr (text_bytes ''@id''), MUint i), (MStr (text_bytes ''pri''), MUint (ucast (sev_code sev))),
      (MStr (text_bytes ''message''), MStr text)]"

definition stack_fields :: "Options \<Rightarrow> Severity \<Rightarrow> frame list \<Rightarrow> (msg \<times> msg) list" where
  "stack_fields opt sev fs =
     (if sev \<le> opt_StackTraceThreshold opt then [(MStr (text_bytes ''stackTrace''), stack_msg fs)] else [])"

lemma base_fields_wire:
  assumes "len text < 2 ^ 32"
  shows "pairs_wire (base_fields i sev text)
    (AppendString [] (text_bytes ''@id'') @ AppendUint [] i @
     AppendString [] (text_bytes ''pri'') @ AppendUint [] (ucast (sev_code sev)) @
     AppendString [] (text_bytes ''message'') @ AppendString [] text)"
proof -
  have s: "wire (MStr s) (AppendString [] s)" if "len s < 2 ^ 32" for s using encode_wire [of "MStr s"] that by simp
  have u: "wire (MUint v) (AppendUint [] v)" for v using encode_wire [of "MUint v"] by simp
  from pairs_wire_Cons [OF s u pairs_wire_Cons [OF s u pairs_wire_single [OF s s]]] assms show ?thesis
    by (simp add: text_bytes_def)
qed

text \<open>The text of the message: what \<open>fmt.Appendf\<close> appends for the arguments that the format names.\<close>

definition message_text :: "env \<Rightarrow> bytes \<Rightarrow> int \<Rightarrow> goval list \<Rightarrow> bytes \<Rightarrow> bool" where
  "message_text E msg n args text \<longleftrightarrow>
     (if n > 0 then appends (\<lambda>dst. env_Appendf E dst msg (take (nat n) args)) text else text = msg)"

lemma stack_step:
  assumes "length (env_frames E) \<le> 15"
  obtains b where "pairs_wire (stack_fields opt sev (env_frames E)) b"
    "\<And>p n body. (if sev \<le> opt_StackTraceThreshold opt
        then do { b \<leftarrow> appendStackTrace (entry p n body) (env_frames E); incr_at b (len p + 2) 1 }
        else Ret (entry p n body)) =
      Ret (entry p (n + of_nat (length (stack_fields opt sev (env_frames E)))) (body @ b))"
proof (cases "sev \<le> opt_StackTraceThreshold opt")
  case True
  obtain b where "pairs_wire [(MStr (text_bytes ''stackTrace''), stack_msg (env_frames E))] b"
    "\<And>dst. appendStackTrace dst (env_frames E) = Ret (dst @ b)"
    using assms by (rule appendStackTrace_wire) blast
  with True show thesis by (intro that [of b]) (simp_all add: stack_fields_def entry_simps)
qed (intro that [of "[]"]; simp add: stack_fields_def)

lemma args_step:
  assumes "args_add json [] (drop (nat n) args) kvs" and "0 \<le> n" and "n \<le> len args"
  obtains b where "pairs_wire kvs b"
    "\<And>p c body. (if len args > n
        then do { rest \<leftarrow> go_slice args n (len args); (b, m) \<leftarrow> appendArgs json (entry p c body) rest; incr_at b (len p + 2) m }
        else Ret (entry p c body)) = Ret (entry p (c + of_nat (length kvs)) (body @ b))"
proof (cases "len args > n")
  case True
  obtain b where b: "pairs_wire kvs b" "\<And>d. appendArgs json d (drop (nat n) args) = Ret (d @ b, of_nat (length kvs))"
    using assms(1) by (rule appendArgs_fields) blast
  have "go_slice args n (len args) = Ret (drop (nat n) args)"
    using True assms(2,3) by (simp add: go_slice_Some nat_diff_distrib)
  with True b show thesis by (intro that [of b]) (simp_all add: entry_simps)
next
  case False
  with assms have "kvs = []" by (simp add: args_add_def)
  with False show thesis by (intro that [of "[]"]) simp_all
qed

lemma extra_step:
  assumes "pairs_wire extra d" and "length extra < 256" and "c = of_nat (length extra)"
  shows "(if c > 0 then Ret (entry p (n + c) (body @ d)) else Ret (entry p n body)) =
    Ret (entry p (n + of_nat (length extra)) (body @ d))"
proof (cases "extra = []")
  case True
  with assms show ?thesis by (simp add: pairs_wire_def)
next
  case False
  have "c \<noteq> 0" using assms False by (auto simp: of_nat_eq_0_iff word_of_nat_eq_0_iff dest: dvd_imp_le)
  with assms(3) show ?thesis by (simp add: entry_simps word_gt_0)
qed

lemma log_entry:
  assumes "(if sprintf then countFmtArgs msg else Ret 0) = Ret n" and "0 \<le> n" and "n \<le> len args"
    and "message_text E msg n args text" and "len text < 2 ^ 32"
    and "pairs_wire extra extraData" and "extraCount = of_nat (length extra)"
    and "args_add (env_json E) [] (drop (nat n) args) kvs"
    and "length (env_frames E) \<le> 15" and "length extra < 256"
  obtains body where
    "pairs_wire (base_fields (id_Uint64 i) sev text @ extra @ kvs @ stack_fields opt sev (env_frames E)) body"
    "log E opt False i sev msg args sprintf extraData extraCount =
       Ret (Some (entry (entry_head (opt_Tag opt) (id_Time i))
         (of_nat (length (base_fields (id_Uint64 i) sev text @ extra @ kvs @ stack_fields opt sev (env_frames E)))) body))"
proof -
  obtain ab where ab: "pairs_wire kvs ab"
    "\<And>p c body. (if len args > n
        then do { rest \<leftarrow> go_slice args n (len args); (b, m) \<leftarrow> appendArgs (env_json E) (entry p c body) rest; incr_at b (len p + 2) m }
        else Ret (entry p c body)) = Ret (entry p (c + of_nat (length kvs)) (body @ ab))"
    using assms(8,2,3) by (rule args_step) blast
  obtain sb where sb: "pairs_wire (stack_fields opt sev (env_frames E)) sb"
    "\<And>p n body. (if sev \<le> opt_StackTraceThreshold opt
        then do { b \<leftarrow> appendStackTrace (entry p n body) (env_frames E); incr_at b (len p + 2) 1 }
        else Ret (entry p n body)) =
      Ret (entry p (n + of_nat (length (stack_fields opt sev (env_frames E)))) (body @ sb))"
    using assms(9) by (rule stack_step) blast
  have m: "(if n > 0 then do { fargs \<leftarrow> go_slice args 0 n; AppendStringDynamic (entry p c body) (\<lambda>dst. env_Appendf E dst msg fargs) }
      else Ret (entry p c (body @ AppendString [] msg))) = Ret (entry p c (body @ AppendString [] text))" for p c body
    using assms(2,3,4) by (simp add: message_text_def go_slice_Some entry_simps)
  note bw = base_fields_wire [OF assms(5), of "id_Uint64 i" sev]
  note w = pairs_wire_append [OF bw pairs_wire_append [OF assms(6) pairs_wire_append [OF ab(1) sb(1)]]]
  show thesis
    by (rule that [OF w])
      (simp add: log_def assms(1) Let_def entry_start incr_at_entry entry_append m extra_step [OF assms(6,10,7)] ab(2) sb(2)
        flip: entry_head_def cong: if_cong del: append_assoc split del: if_split, simp add: add.assoc)
qed

subsection \<open>Loggers\<close>

text \<open>The fields that a logger inherits are encoded in its buffer and counted.\<close>

definition logger_ok :: "Logger \<Rightarrow> (msg \<times> msg) list \<Rightarrow> bool" where
  "logger_ok l kvs \<longleftrightarrow> pairs_wire kvs (data_of l) \<and> fieldCount l = of_nat (length kvs) \<and> (fieldData l = None \<longrightarrow> kvs = [])"

lemma With_ok:
  assumes "logger_ok l kvs" and "args_add json [] args kvs'"
  shows "\<exists>l'. With json l args = Ret l' \<and> logger_ok l' (if args = [] then [] else kvs @ kvs')"
proof -
  obtain b where b: "pairs_wire kvs' b" "\<And>d. appendArgs json d args = Ret (d @ b, of_nat (length kvs'))"
    using assms(2) by (rule appendArgs_fields) blast
  show ?thesis
  proof (cases "fieldData l")
    case None
    with assms(1) b show ?thesis by (auto simp: With_def Let_def logger_ok_def new_Logger_def data_of_def)
  next
    case (Some d)
    with assms(1) b show ?thesis
      using pairs_wire_append [of kvs d kvs' b] by (auto simp: With_def Let_def logger_ok_def new_Logger_def data_of_def)
  qed
qed

subsection \<open>Attributes of slog\<close>

fun slog_msg :: "slog_value \<Rightarrow> msg option" where
  "slog_msg (KindInt64 v) = Some (MInt v)"
| "slog_msg (KindUint64 v) = Some (MUint v)"
| "slog_msg (KindFloat64 v) = Some (MFloat v)"
| "slog_msg (KindBool v) = Some (MBool v)"
| "slog_msg (KindTime v) = Some (MTime v [])"
| "slog_msg (KindString v) = Some (MStr v)"
| "slog_msg (KindAny v) = builtin_msg (v_builtin v)"

definition attr_field :: "slog_attr \<Rightarrow> (msg \<times> msg) option" where
  "attr_field a = map_option (\<lambda>m. (MStr (attr_Key a), m)) (slog_msg (attr_Value a))"

lemma AppendAny_builtin: "builtin_msg (v_builtin v) = Some m \<Longrightarrow> AppendAny (AppendString dst k) v = Ret (dst @ AppendString [] k @ encode m)"
  by (cases "v_builtin v") (auto simp: AppendAny_def AppendString_then)

lemma AppendTimestamp_then: "AppendTimestamp (AppendString dst s) t f = dst @ AppendString [] s @ AppendTimestamp [] t f"
  by (subst AppendTimestamp_prefix, subst AppendString_prefix [of dst], simp)

lemma appendSlogAttr_msg:
  assumes "slog_msg (attr_Value a) = Some m"
  shows "appendSlogAttr dst a = Ret (dst @ AppendString [] (attr_Key a) @ encode m)"
  using assms
  by (cases "attr_Value a")
    (auto simp: appendSlogAttr_def AppendString_then AppendTimestamp_then AppendAny_builtin)

definition attrs_ok :: "slog_attr list \<Rightarrow> (msg \<times> msg) list \<Rightarrow> bool" where
  "attrs_ok as kvs \<longleftrightarrow> map attr_field as = map Some kvs \<and> (\<forall>kv \<in> set kvs. msg_ok (fst kv) \<and> msg_ok (snd kv))"

lemma slog_loop_wire:
  assumes "attrs_ok as kvs"
  obtains b where "pairs_wire kvs b" "\<And>d. slog_loop d as = Ret (d @ b)" "length as = length kvs"
proof -
  have "\<exists>b. pairs_wire kvs b \<and> (\<forall>d. slog_loop d as = Ret (d @ b)) \<and> length as = length kvs"
    using assms
  proof (induction as arbitrary: kvs)
    case Nil
    then show ?case by (intro exI [of _ "[]"]) (simp add: attrs_ok_def)
  next
    case (Cons a as)
    then obtain m kvs' where k: "kvs = (MStr (attr_Key a), m) # kvs'" "slog_msg (attr_Value a) = Some m"
      "attrs_ok as kvs'" "msg_ok (MStr (attr_Key a))" "msg_ok m"
      by (cases kvs) (auto simp: attrs_ok_def attr_field_def)
    from Cons.IH [OF k(3)] obtain b where b: "pairs_wire kvs' b" "\<And>d. slog_loop d as = Ret (d @ b)" "length as = length kvs'" by auto
    have "slog_loop d (a # as) = Ret (d @ (AppendString [] (attr_Key a) @ encode m @ b))" for d
      using b(2) k(2) by (simp add: appendSlogAttr_msg)
    with pairs_wire_Cons [OF encode_wire [OF k(4)] encode_wire [OF k(5)] b(1)] k(1) b(3) show ?case by auto
  qed
  with that show thesis by auto
qed

lemma WithAttrs_ok:
  assumes "logger_ok l kvs" and "attrs_ok as kvs'"
  shows "\<exists>l'. slog_WithAttrs l as = Ret l' \<and> logger_ok l' (kvs @ kvs')"
proof -
  obtain b where b: "pairs_wire kvs' b" "\<And>d. slog_loop d as = Ret (d @ b)" "length as = length kvs'"
    using assms(2) by (rule slog_loop_wire) blast
  show ?thesis
  proof (cases "fieldData l")
    case None
    with assms(1) b show ?thesis by (auto simp: slog_WithAttrs_def Let_def logger_ok_def new_Logger_def data_of_def)
  next
    case (Some d)
    with assms(1) b show ?thesis
      using pairs_wire_append [of kvs d kvs' b] by (auto simp: slog_WithAttrs_def Let_def logger_ok_def new_Logger_def data_of_def)
  qed
qed

lemma slog_log_entry:
  assumes "ts = (if rec_Time = zero_time then now else rec_Time)" and "len msg < 2 ^ 32"
    and "pairs_wire extra extraData" and "extraCount = of_nat (length extra)" and "length extra < 256"
    and "attrs_ok attrs kvs" and "length (env_frames E) \<le> 15"
  obtains body where
    "pairs_wire (base_fields (IDFromTime ts) sev msg @ extra @ kvs @ stack_fields opt sev (env_frames E)) body"
    "slog_log E opt False now IDFromTime sev msg rec_Time attrs extraData extraCount =
       Ret (Some (entry (entry_head (opt_Tag opt) ts)
         (of_nat (length (base_fields (IDFromTime ts) sev msg @ extra @ kvs @ stack_fields opt sev (env_frames E)))) body))"
proof -
  obtain ab where ab: "pairs_wire kvs ab" "\<And>d. slog_loop d attrs = Ret (d @ ab)" "length attrs = length kvs"
    using assms(6) by (rule slog_loop_wire) blast
  obtain sb where sb: "pairs_wire (stack_fields opt sev (env_frames E)) sb"
    "\<And>p n body. (if sev \<le> opt_StackTraceThreshold opt
        then do { b \<leftarrow> appendStackTrace (entry p n body) (env_frames E); incr_at b (len p + 2) 1 }
        else Ret (entry p n body)) =
      Ret (entry p (n + of_nat (length (stack_fields opt sev (env_frames E)))) (body @ sb))"
    using assms(7) by (rule stack_step) blast
  note bw = base_fields_wire [OF assms(2), of "IDFromTime ts" sev]
  note w = pairs_wire_append [OF bw pairs_wire_append [OF assms(3) pairs_wire_append [OF ab(1) sb(1)]]]
  show thesis
    by (rule that [OF w])
      (simp add: slog_log_def Let_def assms(1) [symmetric] entry_start incr_at_entry entry_append extra_step [OF assms(3,5,4)] ab(2,3) sb(2)
        appendSlogAttrs_def flip: entry_head_def cong: if_cong del: append_assoc split del: if_split, simp add: add.assoc)
qed

lemma appendSlogAttr_unsupported:
  assumes "attr_Value a = KindAny v" "v_builtin v = KOther" "v_TextAppender v = None" "v_Stringer v = None"
  shows "appendSlogAttr dst a = Ret (dst @ AppendString [] (attr_Key a))"
  using assms by (simp add: appendSlogAttr_def AppendAny_def AppendString_prefix [of dst])

subsection \<open>Metrics\<close>

lemma metrics_entry:
  assumes "args_add (env_json E) [] args kvs" and "length kvs < 256" and "len (opt_Tag opt) < 2 ^ 32" and "ts_valid [TsFluentd] now"
  shows "\<exists>b. metrics E opt False now args = Ret (Some b) \<and> wire (MArray [MStr (opt_Tag opt), MTime now [TsFluentd], MMap kvs]) b"
proof -
  obtain ab where ab: "pairs_wire kvs ab" "\<And>d. appendArgs (env_json E) d args = Ret (d @ ab, of_nat (length kvs))"
    using assms(1) by (rule appendArgs_fields) blast
  have "metrics E opt False now args = Ret (Some (entry (entry_head (opt_Tag opt) now) (of_nat (length kvs)) ab))"
    by (simp add: metrics_def Let_def entry_start incr_at_entry entry_append ab(2) flip: entry_head_def)
  with wire_entry [OF assms(3,4) ab(1) assms(2)] show ?thesis by simp
qed

lemma log_wire:
  assumes "(if sprintf then countFmtArgs msg else Ret 0) = Ret n" and "0 \<le> n" and "n \<le> len args"
    and "message_text E msg n args str" and "len str < 2 ^ 32" and "len (opt_Tag opt) < 2 ^ 32"
    and "ts_valid [TsFluentd] (id_Time i)"
    and "pairs_wire extra extraData" and "extraCount = of_nat (length extra)"
    and "args_add (env_json E) [] (drop (nat n) args) kvs" and "length (env_frames E) \<le> 15"
    and "all = base_fields (id_Uint64 i) sev str @ extra @ kvs @ stack_fields opt sev (env_frames E)"
    and "length all < 256"
  shows "\<exists>b. log E opt False i sev msg args sprintf extraData extraCount = Ret (Some b) \<and>
    wire (MArray [MStr (opt_Tag opt), MTime (id_Time i) [TsFluentd], MMap all]) b"
proof -
  have "length extra < 256" using assms(12,13) by simp
  then obtain body where "pairs_wire all body"
    "log E opt False i sev msg args sprintf extraData extraCount =
       Ret (Some (entry (entry_head (opt_Tag opt) (id_Time i)) (of_nat (length all)) body))"
    using assms(12) log_entry [OF assms(1-5,8-11)] by metis
  with wire_entry [OF assms(6,7) _ assms(13)] show ?thesis by blast
qed

subsection \<open>Properties\<close>

text \<open>
  C6. \<^bold>\<open>A log call produces one well-formed Forward message.\<close> Whatever the mixture of format
  verbs (with an argument for each), inherited fields, arguments and stack trace, the buffer that \<open>Instance.log\<close> queues is the
  encoding of the array of the tag, the EventTime and the map of exactly the fields that the call
  means, as long as they are fewer than 256 (the count that is patched in place is one byte). The pairs of the
  arguments are those of \<open>fields\<close>, which is stated apart from the code that writes them.
\<close>

theorem log_emits_entry:
  assumes "(if sprintf then countFmtArgs msg else Ret 0) = Ret n" and "0 \<le> n" and "n \<le> len args"
    and "message_text E msg n args str" and "len str < 2 ^ 32" and "len (opt_Tag opt) < 2 ^ 32"
    and "ts_valid [TsFluentd] (id_Time i)"
    and "pairs_wire extra extraData" and "extraCount = of_nat (length extra)"
    and "args_add (env_json E) [] (drop (nat n) args) kvs" and "length (env_frames E) \<le> 15"
    and "all = base_fields (id_Uint64 i) sev str @ extra @ kvs @ stack_fields opt sev (env_frames E)"
    and "length all < 256"
  shows "\<exists>b. log E opt False i sev msg args sprintf extraData extraCount = Ret (Some b) \<and>
    wire (MArray [MStr (opt_Tag opt), MTime (id_Time i) [TsFluentd], MMap all]) b"
  by (rule log_wire [OF assms])

theorem log_emits_entry_witness:
  "\<exists>b. log \<lparr>env_Appendf = \<lambda>dst msg args. dst @ [0x35], env_json = \<lambda>_ _. None, env_frames = []\<rparr>
      (setDefaults \<lparr>opt_Tag = [], opt_BufferSize = 0, opt_WriteBehavior = Block, opt_StackTraceThreshold = CRIT\<rparr>) False
      \<lparr>id_Time = time_Unix 1000 5, id_Uint64 = 77\<rparr> ERR (text_bytes ''%d'') [plain (KInt 5), plain (KString [0x61]), plain (KBool True)]
      True (AppendNil (AppendString [] [0x62])) 1 = Ret (Some b) \<and>
    wire (MArray [MStr (text_bytes ''fluentlog''), MTime (time_Unix 1000 5) [TsFluentd],
      MMap (base_fields 77 ERR [0x35] @ [(MStr [0x62], MNil), (MStr [0x61], MBool True)])]) b"
proof -
  let ?E = "\<lparr>env_Appendf = \<lambda>dst msg args. dst @ [0x35], env_json = \<lambda>_ _. None, env_frames = []\<rparr>"
  let ?opt = "setDefaults \<lparr>opt_Tag = [], opt_BufferSize = 0, opt_WriteBehavior = Block, opt_StackTraceThreshold = CRIT\<rparr>"
  let ?i = "\<lparr>id_Time = time_Unix 1000 5, id_Uint64 = 77\<rparr>"
  let ?args = "[plain (KInt 5), plain (KString [0x61]), plain (KBool True)]"
  have c: "countFmtArgs (text_bytes ''%d'') = Ret 1"
    by (simp add: countFmtArgs_def text_bytes_def count_loop.simps go_index_Some word_sless_alt)
  have "Args.fields (\<lambda>_ _. None) [0x61] (plain (KBool True)) [(MStr [0x61], MBool True)]"
    by (intro value_fields; simp add: value_msg_def plain_def)
  then have a: "args_add (env_json ?E) [] (drop (nat 1) ?args) [(MStr [0x61], MBool True)]"
    unfolding args_add_def
    by (intro exI [of _ "[[(MStr [0x61], MBool True)]]"]) (simp add: arg_fields_Cons plain_def)
  have x: "pairs_wire [(MStr [0x62], MNil)] (AppendNil (AppendString [] [0x62]))"
    using pairs_wire_single [OF encode_wire [of "MStr [0x62]"] encode_wire [of MNil]] by (simp add: AppendNil_def)
  have o: "opt_Tag ?opt = text_bytes ''fluentlog''" "\<not> ERR \<le> opt_StackTraceThreshold ?opt"
    by (simp_all add: setDefaults_def less_eq_Severity_def)
  have t: "ts_valid [TsFluentd] (id_Time ?i)"
    by (simp add: ts_valid_def ts_format_def time_Unix_def time_ok_def)
  show ?thesis
    using log_emits_entry [where opt = "?opt" and sev = ERR and sprintf = True and msg = "text_bytes ''%d''" and n = 1 and str = "[0x35]"
        and extraCount = 1, OF _ _ _ _ _ _ t x _ a _ refl] c o
    by (simp add: message_text_def appends_def stack_fields_def text_bytes_def)
qed

text \<open>
  \<^bold>\<open>A format with more verbs than arguments panics.\<close> Where \<open>fmt\<close> would print
  \<open>%!d(MISSING)\<close>, the logging call takes the whole program down, unless the instance is closed.
\<close>

theorem logf_panics_on_missing_arguments:
  assumes "countFmtArgs format = Ret n" and "len args < n"
  shows "log E opt closed i sev format args True d c = (if closed then Ret None else Panic)"
proof -
  have "go_slice args 0 n = Panic" "0 < n" using assms(2) by (auto simp: go_slice_def)
  with assms(1) show ?thesis
    by (simp add: log_def Let_def entry_start incr_at_entry entry_append)
qed

theorem logf_panics_on_missing_arguments_witness:
  "\<forall>E opt i. Infof E opt False i new_Logger (text_bytes ''%d'') [] = Panic"
proof -
  have "countFmtArgs (text_bytes ''%d'') = Ret 1"
    by (simp add: countFmtArgs_def text_bytes_def count_loop.simps go_index_Some word_sless_alt)
  then show ?thesis using logf_panics_on_missing_arguments by (simp add: Infof_def)
qed

text \<open>
  C30. \<^bold>\<open>Which loggers inherit.\<close> The buffer of a logger encodes its fields and its counter is their
  number: \<open>With\<close> with arguments and \<open>WithAttrs\<close> add exactly the fields of their arguments to those of the
  parent, without a panic, and a released logger is empty again. Against the comments on them, \<open>With\<close> without arguments
  returns an empty logger instead of one that inherits, and \<open>WithGroup\<close> does so for every name, the empty name included, for which
  it should return the receiver.
\<close>

theorem loggers_inherit:
  assumes "logger_ok l kvs" and "args_add json [] args kvs'" and "attrs_ok as kvs''"
  shows "(\<exists>l'. With json l args = Ret l' \<and> logger_ok l' (if args = [] then [] else kvs @ kvs')) \<and>
    (\<exists>l'. slog_WithAttrs l as = Ret l' \<and> logger_ok l' (kvs @ kvs'')) \<and>
    logger_ok (Release l) [] \<and> With json l [] = Ret new_Logger \<and> slog_WithGroup l name = new_Logger \<and> logger_ok new_Logger []"
proof -
  have "logger_ok (Release l) []" "With json l [] = Ret new_Logger" "slog_WithGroup l name = new_Logger" "logger_ok new_Logger []"
    by (simp_all add: logger_ok_def Release_def With_def slog_WithGroup_def new_Logger_def data_of_def)
  with With_ok [OF assms(1,2)] WithAttrs_ok [OF assms(1,3)] show ?thesis by blast
qed

theorem loggers_inherit_witness:
  "\<exists>l'. With (\<lambda>_ _. None) \<lparr>fieldData = Some (AppendNil (AppendString [] [0x62])), fieldCount = 1\<rparr>
      [plain (KString [0x61]), plain (KBool True)] = Ret l' \<and>
    logger_ok l' [(MStr [0x62], MNil), (MStr [0x61], MBool True)]"
proof -
  have "pairs_wire [(MStr [0x62], MNil)] (AppendNil (AppendString [] [0x62]))"
    using pairs_wire_single [OF encode_wire [of "MStr [0x62]"] encode_wire [of MNil]] by (simp add: AppendNil_def)
  then have "logger_ok \<lparr>fieldData = Some (AppendNil (AppendString [] [0x62])), fieldCount = 1\<rparr> [(MStr [0x62], MNil)]"
    by (simp add: logger_ok_def data_of_def)
  moreover have "Args.fields (\<lambda>_ _. None) [0x61] (plain (KBool True)) [(MStr [0x61], MBool True)]"
    by (intro value_fields; simp add: value_msg_def plain_def)
  then have "args_add (\<lambda>_ _. None) [] [plain (KString [0x61]), plain (KBool True)] [(MStr [0x61], MBool True)]"
    unfolding args_add_def
    by (intro exI [of _ "[[(MStr [0x61], MBool True)]]"]) (simp add: arg_fields_Cons plain_def)
  moreover have "attrs_ok [] []" by (simp add: attrs_ok_def)
  ultimately show ?thesis using loggers_inherit [of _ "[(MStr [0x62], MNil)]" "\<lambda>_ _. None" _ _ "[]" "[]" "[]"] by fastforce
qed



text \<open>
  C32. \<^bold>\<open>An slog attribute of an unsupported kind breaks the entry\<close> (a group, a
  nil, any value that is no built-in type, \<open>TextAppender\<close> or \<open>Stringer\<close>): its key is written and counted but not its value, so the entry is no message of its own, and
  the first message \<open>m\<close> that follows it on the stream is read as the value.
\<close>

theorem slog_unsupported_swallows_next:
  assumes "ts = (if rec_Time = zero_time then now else rec_Time)" and "len msg < 2 ^ 32" and "len (opt_Tag opt) < 2 ^ 32"
    and "ts_valid [TsFluentd] ts" and "logger_ok l extra" and "len key < 2 ^ 32"
    and "v_builtin v = KOther" "v_TextAppender v = None" "v_Stringer v = None"
    and "\<not> slog_severity level \<le> opt_StackTraceThreshold opt" and "length extra < 252"
    and "wire m bs"
  shows "\<exists>b. slog_Handle E opt False now IDFromTime l level msg rec_Time [\<lparr>attr_Key = key, attr_Value = KindAny v\<rparr>] = Ret (Some b) \<and>
    wire (MArray [MStr (opt_Tag opt), MTime ts [TsFluentd],
      MMap (base_fields (IDFromTime ts) (slog_severity level) msg @ extra @ [(MStr key, m)])]) (b @ bs)"
proof -
  let ?sev = "slog_severity level" and ?kb = "AppendString [] key"
  let ?all = "base_fields (IDFromTime ts) ?sev msg @ extra @ [(MStr key, m)]"
  have x: "pairs_wire extra (data_of l)" "fieldCount l = of_nat (length extra)" "length extra < 256"
    using assms(5,11) by (simp_all add: logger_ok_def)
  note bw = base_fields_wire [OF assms(2), of "IDFromTime ts" ?sev]
  have k: "wire (MStr key) ?kb" using encode_wire [of "MStr key"] assms(6) by simp
  note w = pairs_wire_append [OF bw pairs_wire_append [OF x(1) pairs_wire_single [OF k assms(12)]]]
  let ?body = "AppendString [] (text_bytes ''@id'') @ AppendUint [] (IDFromTime ts) @
    AppendString [] (text_bytes ''pri'') @ AppendUint [] (ucast (sev_code ?sev)) @
    AppendString [] (text_bytes ''message'') @ AppendString [] msg @ data_of l @ ?kb"
  have "slog_Handle E opt False now IDFromTime l level msg rec_Time [\<lparr>attr_Key = key, attr_Value = KindAny v\<rparr>] =
       Ret (Some (entry (entry_head (opt_Tag opt) ts) (of_nat (length ?all)) ?body))"
    by (simp add: slog_Handle_def slog_log_def Let_def assms(1) [symmetric] assms(7-10) entry_start incr_at_entry entry_append
        extra_step [OF x(1,3,2)] appendSlogAttrs_def appendSlogAttr_unsupported flip: entry_head_def cong: if_cong
        del: append_assoc split del: if_split) (simp add: add.assoc)
  then show ?thesis
    using wire_entry [OF assms(3,4), of ?all "?body @ bs" "of_nat (length ?all)"] w assms(11)
    by (simp add: entry_append)
qed

theorem slog_unsupported_swallows_next_witness:
  "\<exists>b. slog_Handle \<lparr>env_Appendf = \<lambda>dst _ _. dst, env_json = \<lambda>_ _. None, env_frames = []\<rparr>
      \<lparr>opt_Tag = [0x74], opt_BufferSize = 16, opt_WriteBehavior = Loose, opt_StackTraceThreshold = ERR\<rparr> False
      (time_Unix 7 0) (\<lambda>_. 9) new_Logger LevelInfo [0x68] zero_time [\<lparr>attr_Key = [0x6b], attr_Value = KindAny (plain KOther)\<rparr>] = Ret (Some b) \<and>
    wire (MArray [MStr [0x74], MTime (time_Unix 7 0) [TsFluentd], MMap (base_fields 9 INFO [0x68] @ [(MStr [0x6b], MBool True)])]) (b @ [0xc3])"
proof -
  have t: "ts_valid [TsFluentd] (time_Unix 7 0)"
    by (simp add: ts_valid_def ts_format_def time_Unix_def time_ok_def)
  have l: "logger_ok new_Logger []" by (simp add: logger_ok_def new_Logger_def data_of_def)
  have s: "slog_severity LevelInfo = INFO"
    by (simp add: slog_severity_def LevelDebug_def LevelInfo_def)
  have w: "wire (MBool True) [0xc3]" using encode_wire [of "MBool True"] by (simp add: AppendBool_def)
  let ?opt = "\<lparr>opt_Tag = [0x74], opt_BufferSize = 16, opt_WriteBehavior = Loose, opt_StackTraceThreshold = ERR\<rparr>"
  have o: "\<not> INFO \<le> opt_StackTraceThreshold ?opt" by (simp add: less_eq_Severity_def)
  show ?thesis
    using slog_unsupported_swallows_next [where opt = "?opt" and rec_Time = zero_time and now = "time_Unix 7 0" and IDFromTime = "\<lambda>_. 9"
        and msg = "[0x68]" and key = "[0x6b]" and v = "plain KOther" and level = LevelInfo, OF refl _ _ _ l _ _ _ _ _ _ w] t o s
    by (simp add: plain_def)
qed

end
