(* ===== verification/Fallback.thy ===== *)
theory Fallback
  imports Prelude "HOL-Library.Multiset" "HOL-Library.Sublist"
begin

text \<open>
  The package \<open>fallback\<close>: the buffers on disk for the messages that the client could not send.

  The file system is the part of it that a buffer touches, a map from paths to contents, with a list
  of booleans that says which of the next calls fail (\<open>True\<close>) for a reason outside the program;
  a call beyond the list succeeds. Every call of the operating system consumes one of them. A failed
  call changes no file. The compressor is another module, the parameter \<open>gz\<close>: its writer is a
  state, each call returns the bytes it sends to the file. The callback of \<open>Reader\<close> is a function
  on a state \<open>'c\<close> of the caller. The buffers are used by one goroutine at a time.
\<close>

datatype os_err = ErrNotExist | ErrIO

type_synonym path = bytes

record os =
  files :: "path \<Rightarrow> bytes option"
  faults :: "bool list"

definition content :: "os \<Rightarrow> path \<Rightarrow> bytes" where
  "content s p = (case files s p of None \<Rightarrow> [] | Some b \<Rightarrow> b)"

record 'g gzip =
  gz_New :: 'g
  gz_Write :: "'g \<Rightarrow> bytes \<Rightarrow> bytes \<times> 'g"
  gz_Close :: "'g \<Rightarrow> bytes \<times> 'g"

subsection \<open>Calls of the operating system\<close>

text \<open>\<open>os_call f s\<close> is one call: it fails if the next fault says so, and is \<open>f\<close> otherwise.\<close>

definition os_call :: "(os \<Rightarrow> os_err option \<times> os) \<Rightarrow> os \<Rightarrow> os_err option \<times> os" where
  "os_call f s =
     (case faults s of
        [] \<Rightarrow> f s
      | True # fs \<Rightarrow> (Some ErrIO, s\<lparr>faults := fs\<rparr>)
      | False # fs \<Rightarrow> f (s\<lparr>faults := fs\<rparr>))"

definition os_nop :: "os \<Rightarrow> os_err option \<times> os" where
  "os_nop = os_call (\<lambda>s. (None, s))"

definition os_open :: "path \<Rightarrow> os \<Rightarrow> os_err option \<times> os" where
  "os_open p = os_call (\<lambda>s. (if files s p = None then Some ErrNotExist else None, s))"

definition os_stat :: "path \<Rightarrow> os \<Rightarrow> os_err option \<times> os" where
  "os_stat p = os_open p"

definition os_create :: "path \<Rightarrow> os \<Rightarrow> os_err option \<times> os" where
  "os_create p = os_call (\<lambda>s. (None, s\<lparr>files := (files s)(p \<mapsto> content s p)\<rparr>))"

definition os_append :: "path \<Rightarrow> bytes \<Rightarrow> os \<Rightarrow> os_err option \<times> os" where
  "os_append p b = os_call (\<lambda>s. (None, s\<lparr>files := (files s)(p \<mapsto> content s p @ b)\<rparr>))"

definition os_truncate :: "path \<Rightarrow> os \<Rightarrow> os_err option \<times> os" where
  "os_truncate p = os_call (\<lambda>s. (None, s\<lparr>files := (files s)(p \<mapsto> [])\<rparr>))"

text \<open>\<open>if err = f(); err != nil { return }\<close> followed by \<open>g\<close>\<close>

definition and_then :: "('s \<Rightarrow> 'e option \<times> 's) \<Rightarrow> ('s \<Rightarrow> 'e option \<times> 's) \<Rightarrow> 's \<Rightarrow> 'e option \<times> 's" where
  "and_then f g s = (case f s of (Some e, s) \<Rightarrow> (Some e, s) | (None, s) \<Rightarrow> g s)"

subsection \<open>dir_buffer.go\<close>

record 'g DirBuffer =
  rName :: path
  wName :: path
  readFile :: "path option"
  writeFile :: "path option"
  writeGz :: "'g option"
  d_os :: os

text \<open>\<open>path.Join(dir, name)\<close> on a clean directory name\<close>

definition NewDirBuffer :: "os \<Rightarrow> bytes \<Rightarrow> 'g DirBuffer" where
  "NewDirBuffer s dir =
     \<lparr> rName = dir @ [0x2f, 0x70, 0x69, 0x6e, 0x67, 0x2e, 0x62, 0x69, 0x6e],
       wName = dir @ [0x2f, 0x70, 0x6f, 0x6e, 0x67, 0x2e, 0x62, 0x69, 0x6e],
       readFile = None, writeFile = None, writeGz = None, d_os = s \<rparr>"

definition on_os :: "(os \<Rightarrow> os_err option \<times> os) \<Rightarrow> 'g DirBuffer \<Rightarrow> os_err option \<times> 'g DirBuffer" where
  "on_os f d = (let (e, s) = f (d_os d) in (e, d\<lparr>d_os := s\<rparr>))"

definition initDir :: "'g DirBuffer \<Rightarrow> os_err option \<times> 'g DirBuffer" where
  "initDir = on_os os_nop"

definition initReadFile :: "'g DirBuffer \<Rightarrow> os_err option \<times> 'g DirBuffer" where
  "initReadFile =
     and_then initDir
     (\<lambda>d. and_then (on_os (os_open (rName d))) (\<lambda>d. (None, d\<lparr>readFile := Some (rName d)\<rparr>)) d)"

definition ensureReadFile :: "'g DirBuffer \<Rightarrow> os_err option \<times> 'g DirBuffer" where
  "ensureReadFile d = (if readFile d \<noteq> None then (None, d) else initReadFile d)"

definition closeReadFile :: "'g DirBuffer \<Rightarrow> os_err option \<times> 'g DirBuffer" where
  "closeReadFile d =
     (if readFile d \<noteq> None then let (e, d) = on_os os_nop d in (e, d\<lparr>readFile := None\<rparr>) else (None, d))"

definition initWriteFile :: "'g gzip \<Rightarrow> 'g DirBuffer \<Rightarrow> os_err option \<times> 'g DirBuffer" where
  "initWriteFile gz =
     and_then initDir
     (\<lambda>d. and_then (on_os (os_create (wName d)))
       (\<lambda>d. (None, d\<lparr>writeFile := Some (wName d), writeGz := Some (gz_New gz)\<rparr>)) d)"

definition ensureWriteFile :: "'g gzip \<Rightarrow> 'g DirBuffer \<Rightarrow> os_err option \<times> 'g DirBuffer" where
  "ensureWriteFile gz d = (if writeFile d \<noteq> None then (None, d) else initWriteFile gz d)"

definition gz_emit :: "path \<Rightarrow> bytes \<times> 'g \<Rightarrow> 'g DirBuffer \<Rightarrow> os_err option \<times> 'g DirBuffer" where
  "gz_emit p out d = on_os (os_append p (fst out)) (d\<lparr>writeGz := Some (snd out)\<rparr>)"

definition closeWriteFile :: "'g gzip \<Rightarrow> 'g DirBuffer \<Rightarrow> os_err option \<times> 'g DirBuffer" where
  "closeWriteFile gz d =
     (case writeFile d of
        Some p \<Rightarrow>
          and_then
            (\<lambda>d. case writeGz d of
                Some g \<Rightarrow> and_then (gz_emit p (gz_Close gz g)) (\<lambda>d. (None, d\<lparr>writeGz := Some (gz_New gz)\<rparr>)) d
              | None \<Rightarrow> (None, d))
            (\<lambda>d. let (e, d) = on_os os_nop d in (e, d\<lparr>writeFile := None\<rparr>)) d
      | None \<Rightarrow> (None, d))"

definition d_close :: "'g gzip \<Rightarrow> 'g DirBuffer \<Rightarrow> os_err option \<times> 'g DirBuffer" where
  "d_close gz = and_then closeReadFile (closeWriteFile gz)"

definition DirBuffer_Close :: "'g gzip \<Rightarrow> 'g DirBuffer \<Rightarrow> os_err option \<times> 'g DirBuffer" where
  "DirBuffer_Close gz d = d_close gz d"

definition DirBuffer_Write :: "'g gzip \<Rightarrow> bytes \<Rightarrow> 'g DirBuffer \<Rightarrow> os_err option \<times> 'g DirBuffer" where
  "DirBuffer_Write gz p =
     and_then (ensureWriteFile gz)
     (\<lambda>d. case (writeFile d, writeGz d) of
        (Some f, Some g) \<Rightarrow> gz_emit f (gz_Write gz g p) d
      | _ \<Rightarrow> (None, d))"

definition fileSize :: "path \<Rightarrow> 'g DirBuffer \<Rightarrow> int \<times> 'g DirBuffer" where
  "fileSize name d = (case on_os (os_stat name) d of
      (Some e, d) \<Rightarrow> (0, d)
    | (None, d) \<Rightarrow> (len (content (d_os d) name), d))"

definition HasData :: "'g gzip \<Rightarrow> 'g DirBuffer \<Rightarrow> bool \<times> os_err option \<times> 'g DirBuffer" where
  "HasData gz d =
     (case d_close gz d of
        (Some e, d) \<Rightarrow> (False, Some e, d)
      | (None, d) \<Rightarrow>
          let (rSize, d) = fileSize (rName d) d;
              (wSize, d) = fileSize (wName d) d
          in
          if rSize = 0 \<and> wSize = 0 then (False, None, d)
          else if wSize > 0 then
            if rSize = 0 then (True, None, d)
            else (True,
              and_then initReadFile
              (and_then (initWriteFile gz)
              (and_then (\<lambda>d. on_os (os_append (wName d) (content (d_os d) (rName d))) d)
              (and_then (\<lambda>d. on_os (os_truncate (rName d)) d)
              (d_close gz)))) d)
          else (True, None, d\<lparr>rName := wName d, wName := rName d\<rparr>))"

definition switchFiles :: "'g gzip \<Rightarrow> 'g DirBuffer \<Rightarrow> os_err option \<times> 'g DirBuffer" where
  "switchFiles gz = and_then (d_close gz) (\<lambda>d. (None, d\<lparr>rName := wName d, wName := rName d\<rparr>))"

text \<open>\<open>Reader\<close>: the deferred \<open>closeReadFile\<close> runs on every return after the file is open; its error is dropped.\<close>

type_synonym 'c batch_fn = "int \<Rightarrow> bytes \<Rightarrow> 'c \<Rightarrow> os_err option \<times> 'c"

definition DirBuffer_Reader :: "'g gzip \<Rightarrow> 'c batch_fn \<Rightarrow> 'g DirBuffer \<Rightarrow> 'c \<Rightarrow> os_err option \<times> 'g DirBuffer \<times> 'c" where
  "DirBuffer_Reader gz fn d c =
     (case and_then (switchFiles gz) ensureReadFile d of
        (Some e, d) \<Rightarrow> (Some e, d, c)
      | (None, d) \<Rightarrow>
          (let (e, d, c) =
             (case on_os os_nop d of
                (Some e, d) \<Rightarrow> (Some e, d, c)
              | (None, d) \<Rightarrow>
                  (let z = content (d_os d) (rName d) in
                   case fn (len z) z c of
                     (Some e, c) \<Rightarrow> (Some e, d, c)
                   | (None, c) \<Rightarrow> (let (e, d) = on_os (os_truncate (rName d)) d in (e, d, c))))
           in (e, snd (closeReadFile d), c)))"

subsection \<open>file_buffer.go\<close>

record 'g FileBuffer =
  f_path :: path
  f_file :: bool
  f_gz :: 'g
  f_os :: os

definition NewFileBuffer :: "'g gzip \<Rightarrow> os \<Rightarrow> path \<Rightarrow> 'g FileBuffer" where
  "NewFileBuffer gz s p = \<lparr> f_path = p, f_file = False, f_gz = gz_New gz, f_os = s \<rparr>"

definition f_on_os :: "(os \<Rightarrow> os_err option \<times> os) \<Rightarrow> 'g FileBuffer \<Rightarrow> os_err option \<times> 'g FileBuffer" where
  "f_on_os g f = (let (e, s) = g (f_os f) in (e, f\<lparr>f_os := s\<rparr>))"

definition initFile :: "'g gzip \<Rightarrow> 'g FileBuffer \<Rightarrow> os_err option \<times> 'g FileBuffer" where
  "initFile gz = and_then (\<lambda>f. f_on_os (os_create (f_path f)) f) (\<lambda>f. (None, f\<lparr>f_file := True, f_gz := gz_New gz\<rparr>))"

definition ensureFile :: "'g gzip \<Rightarrow> 'g FileBuffer \<Rightarrow> os_err option \<times> 'g FileBuffer" where
  "ensureFile gz f = (if f_file f then (None, f) else initFile gz f)"

definition f_emit :: "bytes \<times> 'g \<Rightarrow> 'g FileBuffer \<Rightarrow> os_err option \<times> 'g FileBuffer" where
  "f_emit out f = f_on_os (os_append (f_path f) (fst out)) (f\<lparr>f_gz := snd out\<rparr>)"

definition FileBuffer_Write :: "'g gzip \<Rightarrow> bytes \<Rightarrow> 'g FileBuffer \<Rightarrow> os_err option \<times> 'g FileBuffer" where
  "FileBuffer_Write gz p = and_then (ensureFile gz) (\<lambda>f. f_emit (gz_Write gz (f_gz f) p) f)"

definition FileBuffer_Close :: "'g gzip \<Rightarrow> 'g FileBuffer \<Rightarrow> os_err option \<times> 'g FileBuffer" where
  "FileBuffer_Close gz f =
     (if \<not> f_file f then (None, f)
      else and_then (\<lambda>f. f_emit (gz_Close gz (f_gz f)) f)
           (and_then (f_on_os os_nop) (\<lambda>f. (None, f\<lparr>f_file := False\<rparr>))) f)"

definition FileBuffer_HasData :: "'g FileBuffer \<Rightarrow> bool \<times> os_err option \<times> 'g FileBuffer" where
  "FileBuffer_HasData f =
     (case f_on_os (os_stat (f_path f)) f of
        (Some ErrNotExist, f) \<Rightarrow> (False, None, f)
      | (Some e, f) \<Rightarrow> (False, Some e, f)
      | (None, f) \<Rightarrow> (len (content (f_os f) (f_path f)) > 0, None, f))"

definition FileBuffer_Reader :: "'g gzip \<Rightarrow> 'c batch_fn \<Rightarrow> 'g FileBuffer \<Rightarrow> 'c \<Rightarrow> os_err option \<times> 'g FileBuffer \<times> 'c" where
  "FileBuffer_Reader gz fn f c =
     (case FileBuffer_Close gz f of
        (Some e, f) \<Rightarrow> (Some e, f, c)
      | (None, f) \<Rightarrow>
     (case f_on_os (os_open (f_path f)) f of
        (Some ErrNotExist, f) \<Rightarrow> (None, f, c)
      | (Some e, f) \<Rightarrow> (Some e, f, c)
      | (None, f) \<Rightarrow>
          let (e, f, c) =
            (case f_on_os os_nop f of
               (Some e, f) \<Rightarrow> (Some e, f, c)
             | (None, f) \<Rightarrow>
                 (let z = content (f_os f) (f_path f) in
                  if len z = 0 then (None, snd (f_on_os (os_truncate (f_path f)) f), c)
                  else case fn (len z) z c of
                    (Some e, c) \<Rightarrow> (Some e, f, c)
                  | (None, c) \<Rightarrow> (let (e, f) = f_on_os (os_truncate (f_path f)) f in (e, f, c))))
          in (e, snd (f_on_os os_nop f), c)))"

subsection \<open>Compressed files\<close>

text \<open>
  \<open>gz_member gz cs\<close> is what a fresh compressor writes for the chunks \<open>cs\<close>; a file that
  holds the chunks \<open>cs\<close> is a sequence of such members, which is again a valid compressed file.
\<close>

fun gz_run :: "'g gzip \<Rightarrow> 'g \<Rightarrow> bytes list \<Rightarrow> bytes \<times> 'g" where
  "gz_run gz g [] = ([], g)"
| "gz_run gz g (c # cs) = (let (out, g) = gz_Write gz g c; (out', g) = gz_run gz g cs in (out @ out', g))"

definition gz_member :: "'g gzip \<Rightarrow> bytes list \<Rightarrow> bytes" where
  "gz_member gz cs = (let (out, g) = gz_run gz (gz_New gz) cs in out @ fst (gz_Close gz g))"

inductive gz_file :: "'g gzip \<Rightarrow> bytes list \<Rightarrow> bytes \<Rightarrow> bool" for gz where
  gz_file_Nil [intro, simp]: "gz_file gz [] []"
| gz_file_member [intro]: "gz_file gz cs z \<Longrightarrow> gz_file gz (cs @ ds) (z @ gz_member gz ds)"

lemma gz_file_append: "gz_file gz ds y \<Longrightarrow> gz_file gz cs z \<Longrightarrow> gz_file gz (cs @ ds) (z @ y)"
proof (induction rule: gz_file.induct)
  case (gz_file_member ds y es)
  then show ?case using gz_file.gz_file_member [of gz "cs @ ds" "z @ y" es] by simp
qed simp

lemma gz_run_append: "gz_run gz g (cs @ ds) =
    (let (out, g) = gz_run gz g cs; (out', g) = gz_run gz g ds in (out @ out', g))"
  by (induction cs arbitrary: g) (auto simp: Let_def split: prod.split)

subsection \<open>Calls that do not fail\<close>

lemma os_call_ok: "faults s = [] \<Longrightarrow> os_call f s = f s"
  by (simp add: os_call_def)

lemma content_upd [simp]:
  "content (s\<lparr>files := f(p \<mapsto> b)\<rparr>) q = (if q = p then b else content (s\<lparr>files := f\<rparr>) q)"
  "content (s\<lparr>files := files s\<rparr>) q = content s q"
  by (simp_all add: content_def)

lemma content_faults [simp]: "content (s\<lparr>faults := fs\<rparr>) q = content s q"
  by (simp add: content_def)

lemmas os_simps = os_stat_def os_nop_def os_open_def os_create_def os_append_def os_truncate_def os_call_ok on_os_def f_on_os_def
  and_then_def Let_def

text \<open>
  \<open>holds gz d rs ws\<close>: the file to read holds the entries \<open>rs\<close>, and the file to write, with what
  its open compressor still keeps, the entries \<open>ws\<close>. No call of the operating system fails.
\<close>

definition holds :: "'g gzip \<Rightarrow> 'g DirBuffer \<Rightarrow> bytes list \<Rightarrow> bytes list \<Rightarrow> bool" where
  "holds gz d rs ws \<longleftrightarrow> faults (d_os d) = [] \<and> rName d \<noteq> wName d \<and> readFile d = None \<and>
     gz_file gz rs (content (d_os d) (rName d)) \<and>
     (case writeFile d of
        None \<Rightarrow> gz_file gz ws (content (d_os d) (wName d))
      | Some p \<Rightarrow> p = wName d \<and> files (d_os d) p \<noteq> None \<and> (\<exists>ws' cs a out g. ws = ws' @ cs \<and> gz_file gz ws' a \<and>
          gz_run gz (gz_New gz) cs = (out, g) \<and> content (d_os d) (wName d) = a @ out \<and> writeGz d = Some g))"

lemma d_close_holds:
  assumes "holds gz d rs ws"
  obtains d' where "d_close gz d = (None, d')" "holds gz d' rs ws" "writeFile d' = None"
    "rName d' = rName d" "wName d' = wName d" "files (d_os d) p \<noteq> None \<Longrightarrow> files (d_os d') p \<noteq> None"
    "writeFile d = None \<Longrightarrow> d' = d"
proof (cases "writeFile d")
  case None
  with assms show thesis
    by (intro that [of d]) (simp_all add: holds_def d_close_def and_then_def closeReadFile_def closeWriteFile_def)
next
  case (Some p)
  with assms obtain ws' cs a out g where h: "ws = ws' @ cs" "gz_file gz ws' a" "gz_run gz (gz_New gz) cs = (out, g)"
    "content (d_os d) (wName d) = a @ out" "writeGz d = Some g" "p = wName d"
    by (auto simp: holds_def)
  have m: "gz_file gz ws (a @ out @ fst (gz_Close gz g))"
    using gz_file_member [OF h(2), of cs] h(1,3) by (simp add: gz_member_def)
  let ?s = "d_os d" and ?o = "fst (gz_Close gz g)"
  show thesis
    by (rule that [of "d\<lparr>writeGz := Some (gz_New gz), d_os := ?s\<lparr>files := (files ?s)(p \<mapsto> content ?s p @ ?o)\<rparr>, writeFile := None\<rparr>"])
      (use assms Some h m in \<open>auto simp: holds_def d_close_def closeReadFile_def closeWriteFile_def gz_emit_def os_simps\<close>)
qed

lemma holds_open:
  assumes "faults (d_os d) = []" "rName d \<noteq> wName d" "readFile d = None" "gz_file gz rs (content (d_os d) (rName d))"
    and "writeFile d = Some (wName d)" "files (d_os d) (wName d) \<noteq> None" "writeGz d = Some g"
    and "gz_file gz ws a" "gz_run gz (gz_New gz) cs = (out, g)" "content (d_os d) (wName d) = a @ out"
  shows "holds gz d rs (ws @ cs)"
  using assms unfolding holds_def by auto

lemma Write_holds:
  assumes "holds gz d rs ws"
  shows "\<exists>d'. DirBuffer_Write gz p d = (None, d') \<and> holds gz d' rs (ws @ [p])"
proof (cases "writeFile d")
  case None
  obtain out g where "gz_Write gz (gz_New gz) p = (out, g)" by fastforce
  with None assms show ?thesis
    by (auto simp: DirBuffer_Write_def ensureWriteFile_def initWriteFile_def initDir_def gz_emit_def os_simps holds_def [of gz d]
        intro!: holds_open [where a = "content (d_os d) (wName d)"])
next
  case (Some f)
  with assms obtain ws' cs a out g where h: "ws = ws' @ cs" "gz_file gz ws' a" "gz_run gz (gz_New gz) cs = (out, g)"
    "content (d_os d) (wName d) = a @ out" "writeGz d = Some g" "f = wName d"
    by (auto simp: holds_def)
  obtain out' g' where w: "gz_Write gz g p = (out', g')" by fastforce
  then have "gz_run gz (gz_New gz) (cs @ [p]) = (out @ out', g')" using h(3) by (simp add: gz_run_append)
  moreover have "DirBuffer_Write gz p d = (None, d\<lparr>writeGz := Some g',
      d_os := d_os d\<lparr>files := (files (d_os d))(f \<mapsto> content (d_os d) f @ out')\<rparr>\<rparr>)"
    using Some assms h w by (simp add: DirBuffer_Write_def ensureWriteFile_def gz_emit_def os_simps holds_def)
  ultimately show ?thesis
    using Some assms h by (auto simp: holds_def [of gz d] intro!: holds_open [where a = a and cs = "cs @ [p]" and ws = ws', simplified])
qed

lemma holds_closed:
  "faults (d_os d) = [] \<Longrightarrow> rName d \<noteq> wName d \<Longrightarrow> readFile d = None \<Longrightarrow> writeFile d = None \<Longrightarrow>
    gz_file gz rs (content (d_os d) (rName d)) \<Longrightarrow> gz_file gz ws (content (d_os d) (wName d)) \<Longrightarrow> holds gz d rs ws"
  by (simp add: holds_def)

lemma Reader_holds:
  assumes "holds gz d rs ws"
  shows "(\<exists>d'. DirBuffer_Reader gz fn d c = (Some ErrNotExist, d', c) \<and> content (d_os d) (wName d) = [] \<and> holds gz d' ws rs) \<or>
    (\<exists>z e d' c'. gz_file gz ws z \<and> fn (len z) z c = (e, c') \<and> DirBuffer_Reader gz fn d c = (e, d', c') \<and>
      holds gz d' (if e = None then [] else ws) rs)"
proof -
  obtain d1 where d1: "d_close gz d = (None, d1)" "holds gz d1 rs ws" "writeFile d1 = None" "rName d1 = rName d" "wName d1 = wName d"
    "files (d_os d) (wName d) \<noteq> None \<Longrightarrow> files (d_os d1) (wName d) \<noteq> None"
    using d_close_holds [OF assms, where p = "wName d"] by metis
  let ?z = "content (d_os d1) (wName d1)"
  have h: "faults (d_os d1) = []" "rName d1 \<noteq> wName d1" "readFile d1 = None" "gz_file gz rs (content (d_os d1) (rName d1))" "gz_file gz ws ?z"
    using d1(2,3) by (simp_all add: holds_def)
  note run = DirBuffer_Reader_def switchFiles_def ensureReadFile_def initReadFile_def initDir_def closeReadFile_def os_simps
  show ?thesis
  proof (cases "files (d_os d1) (wName d1)")
    case None
    with h d1 have "content (d_os d) (wName d) = []" by (auto simp: content_def split: option.split)
    with None h d1 show ?thesis by (auto simp: run intro!: holds_closed)
  next
    case (Some b)
    obtain e c' where fn: "fn (len ?z) ?z c = (e, c')" by fastforce
    show ?thesis
    proof (cases e)
      case None
      with Some h d1 fn show ?thesis
        by (intro disjI2 exI [of _ ?z]) (auto simp: run intro!: holds_closed)
    next
      case (Some e')
      with \<open>files (d_os d1) (wName d1) = Some b\<close> h d1 fn show ?thesis
        by (intro disjI2 exI [of _ ?z]) (auto simp: run intro!: holds_closed)
    qed
  qed
qed

lemma d_close_files:
  assumes "holds gz d rs ws"
  shows "files (d_os d) p \<noteq> None \<Longrightarrow> files (d_os (snd (d_close gz d))) p \<noteq> None"
  using d_close_holds [OF assms, where p = p] by (metis snd_conv)

lemma Reader_offers:
  assumes "holds gz d rs ws" and "files (d_os d) (wName d) \<noteq> None"
  shows "\<exists>z e d' c'. gz_file gz ws z \<and> fn (len z) z c = (e, c') \<and> DirBuffer_Reader gz fn d c = (e, d', c') \<and>
      holds gz d' (if e = None then [] else ws) rs \<and> wName d' = rName d \<and>
      (files (d_os d) (rName d) \<noteq> None \<longrightarrow> files (d_os d') (rName d) \<noteq> None)"
proof -
  obtain d1 where d1: "d_close gz d = (None, d1)" "holds gz d1 rs ws" "writeFile d1 = None" "rName d1 = rName d" "wName d1 = wName d"
    using d_close_holds [OF assms(1)] by metis
  have w: "files (d_os d1) (wName d) \<noteq> None" and r: "files (d_os d) (rName d) \<noteq> None \<Longrightarrow> files (d_os d1) (rName d) \<noteq> None"
    using d_close_files [OF assms(1)] assms(2) d1(1) by force+
  let ?z = "content (d_os d1) (wName d1)"
  have h: "faults (d_os d1) = []" "rName d1 \<noteq> wName d1" "readFile d1 = None" "gz_file gz rs (content (d_os d1) (rName d1))" "gz_file gz ws ?z"
    using d1(2,3) by (simp_all add: holds_def)
  note run = DirBuffer_Reader_def switchFiles_def ensureReadFile_def initReadFile_def initDir_def closeReadFile_def os_simps
  obtain e c' where fn: "fn (len ?z) ?z c = (e, c')" by fastforce
  show ?thesis
  proof (cases e)
    case None
    with w r h d1 fn show ?thesis by (intro exI [of _ ?z]) (auto simp: run intro!: holds_closed)
  next
    case (Some e')
    with w r h d1 fn show ?thesis by (intro exI [of _ ?z]) (auto simp: run intro!: holds_closed)
  qed
qed

text \<open>A gzip member is never empty: it has a header and a trailer.\<close>

definition gz_nonempty :: "'g gzip \<Rightarrow> bool" where
  "gz_nonempty gz \<longleftrightarrow> (\<forall>cs. gz_member gz cs \<noteq> [])"

lemma gz_file_empty: "gz_nonempty gz \<Longrightarrow> gz_file gz cs [] \<Longrightarrow> cs = []"
  by (auto elim: gz_file.cases simp: gz_nonempty_def)

lemma HasData_holds:
  assumes "holds gz d rs ws" and "gz_nonempty gz"
  shows "\<exists>ok d'. HasData gz d = (ok, None, d') \<and> holds gz d' [] (ws @ rs) \<and> (ok \<or> rs = [] \<and> ws = []) \<and>
      (ok \<longrightarrow> files (d_os d') (wName d') \<noteq> None)"
proof -
  obtain d1 where d1: "d_close gz d = (None, d1)" "holds gz d1 rs ws" "writeFile d1 = None"
    using d_close_holds [OF assms(1)] by metis
  let ?r = "content (d_os d1) (rName d1)" and ?w = "content (d_os d1) (wName d1)"
  have h: "faults (d_os d1) = []" "rName d1 \<noteq> wName d1" "readFile d1 = None" "gz_file gz rs ?r" "gz_file gz ws ?w"
    using d1(2,3) by (simp_all add: holds_def)
  have sz: "fileSize p d1 = (len (content (d_os d1) p), d1)" for p
    using h(1) by (simp add: fileSize_def os_simps content_def split: option.split)
  have f: "content s p \<noteq> [] \<Longrightarrow> files s p \<noteq> None" for s p by (auto simp: content_def split: option.splits)
  consider "?r = []" "?w = []" | "?r = []" "?w \<noteq> []" | "?r \<noteq> []" "?w = []" | "?r \<noteq> []" "?w \<noteq> []" by blast
  then show ?thesis
  proof cases
    case 1
    with h gz_file_empty [OF assms(2)] have "rs = []" "ws = []" by auto
    with 1 d1 sz show ?thesis by (auto simp: HasData_def Let_def)
  next
    case 2
    with h gz_file_empty [OF assms(2)] have "rs = []" by auto
    with 2 d1 sz f [of "d_os d1" "wName d1"] show ?thesis by (auto simp: HasData_def Let_def)
  next
    case 3
    with h gz_file_empty [OF assms(2)] have "ws = []" by auto
    with 3 h d1 sz f [of "d_os d1" "rName d1"] show ?thesis by (auto simp: HasData_def Let_def intro!: holds_closed)
  next
    case 4
    then have "files (d_os d1) (rName d1) \<noteq> None" by (auto simp: content_def split: option.splits)
    moreover have "gz_file gz (ws @ rs) (?w @ ?r @ fst (gz_Close gz (gz_New gz)))"
      using gz_file_member [OF gz_file_append [OF h(4,5)], of "[]"] by (simp add: gz_member_def)
    ultimately obtain b where b: "files (d_os d1) (rName d1) = Some b" and
      m: "gz_file gz (ws @ rs) (?w @ ?r @ fst (gz_Close gz (gz_New gz)))" by auto
    let ?s = "d_os d1"
    let ?s2 = "?s\<lparr>files := (files ?s)(wName d1 \<mapsto> ?w)\<rparr>"
    let ?s3 = "?s2\<lparr>files := (files ?s2)(wName d1 \<mapsto> ?w @ ?r)\<rparr>"
    let ?s4 = "?s3\<lparr>files := (files ?s3)(rName d1 \<mapsto> [])\<rparr>"
    let ?s5 = "?s4\<lparr>files := (files ?s4)(wName d1 \<mapsto> (?w @ ?r) @ fst (gz_Close gz (gz_New gz)))\<rparr>"
    let ?d4 = "d1\<lparr>readFile := Some (rName d1), writeFile := Some (wName d1), writeGz := Some (gz_New gz), d_os := ?s4\<rparr>"
    let ?d5 = "d1\<lparr>d_os := ?s5, readFile := None, writeFile := None, writeGz := Some (gz_New gz)\<rparr>"
    have c: "d_close gz ?d4 = (None, ?d5)"
      using h(1,2) by (simp add: d_close_def closeReadFile_def closeWriteFile_def gz_emit_def os_simps)
    have "HasData gz d = (True, None, ?d5)"
      using 4 h(1,2,3) d1(1,3) b c
      by (simp add: HasData_def sz initReadFile_def initWriteFile_def initDir_def os_simps)
    moreover have "holds gz ?d5 [] (ws @ rs)"
      using h m by (intro holds_closed) simp_all
    ultimately show ?thesis by force
  qed
qed

subsection \<open>FileBuffer\<close>

definition f_holds :: "'g gzip \<Rightarrow> 'g FileBuffer \<Rightarrow> bytes list \<Rightarrow> bool" where
  "f_holds gz f ws \<longleftrightarrow> faults (f_os f) = [] \<and>
     (if f_file f
      then files (f_os f) (f_path f) \<noteq> None \<and> (\<exists>ws' cs a out. ws = ws' @ cs \<and> gz_file gz ws' a \<and>
        gz_run gz (gz_New gz) cs = (out, f_gz f) \<and> content (f_os f) (f_path f) = a @ out)
      else gz_file gz ws (content (f_os f) (f_path f)))"

lemma f_holds_open:
  assumes "faults (f_os f) = []" "f_file f" "files (f_os f) (f_path f) \<noteq> None"
    and "gz_file gz ws a" "gz_run gz (gz_New gz) cs = (out, f_gz f)" "content (f_os f) (f_path f) = a @ out"
  shows "f_holds gz f (ws @ cs)"
  using assms unfolding f_holds_def by auto

lemma FileBuffer_Write_holds:
  assumes "f_holds gz f ws"
  shows "\<exists>f'. FileBuffer_Write gz p f = (None, f') \<and> f_holds gz f' (ws @ [p])"
proof (cases "f_file f")
  case False
  obtain out g where "gz_Write gz (gz_New gz) p = (out, g)" by fastforce
  with False assms show ?thesis
    by (auto simp: FileBuffer_Write_def ensureFile_def initFile_def f_emit_def os_simps f_holds_def [of gz f]
        intro!: f_holds_open [where a = "content (f_os f) (f_path f)"])
next
  case True
  with assms obtain ws' cs a out where h: "ws = ws' @ cs" "gz_file gz ws' a" "gz_run gz (gz_New gz) cs = (out, f_gz f)"
    "content (f_os f) (f_path f) = a @ out"
    by (auto simp: f_holds_def)
  obtain out' g' where w: "gz_Write gz (f_gz f) p = (out', g')" by fastforce
  then have "gz_run gz (gz_New gz) (cs @ [p]) = (out @ out', g')" using h(3) by (simp add: gz_run_append)
  moreover have "FileBuffer_Write gz p f = (None, f\<lparr>f_gz := g',
      f_os := f_os f\<lparr>files := (files (f_os f))(f_path f \<mapsto> content (f_os f) (f_path f) @ out')\<rparr>\<rparr>)"
    using True assms h w by (simp add: FileBuffer_Write_def ensureFile_def f_emit_def os_simps f_holds_def)
  ultimately show ?thesis
    using True assms h by (auto simp: f_holds_def [of gz f] intro!: f_holds_open [where a = a and cs = "cs @ [p]" and ws = ws', simplified])
qed

lemma FileBuffer_Close_holds:
  assumes "f_holds gz f ws"
  shows "\<exists>f'. FileBuffer_Close gz f = (None, f') \<and> f_holds gz f' ws \<and> \<not> f_file f' \<and> f_path f' = f_path f"
proof (cases "f_file f")
  case True
  with assms obtain ws' cs a out where h: "ws = ws' @ cs" "gz_file gz ws' a" "gz_run gz (gz_New gz) cs = (out, f_gz f)"
    "content (f_os f) (f_path f) = a @ out"
    by (auto simp: f_holds_def)
  have "gz_file gz ws (a @ out @ fst (gz_Close gz (f_gz f)))"
    using gz_file_member [OF h(2), of cs] h(1,3) by (simp add: gz_member_def)
  with True h assms show ?thesis by (auto simp: FileBuffer_Close_def f_emit_def os_simps f_holds_def)
qed (use assms in \<open>simp add: FileBuffer_Close_def\<close>)

lemma FileBuffer_Reader_holds:
  assumes "f_holds gz f ws"
  shows "(\<exists>f'. FileBuffer_Reader gz fn f c = (None, f', c) \<and> gz_file gz ws [] \<and> f_holds gz f' ws) \<or>
    (\<exists>z e f' c'. gz_file gz ws z \<and> fn (len z) z c = (e, c') \<and> FileBuffer_Reader gz fn f c = (e, f', c') \<and>
      f_holds gz f' (if e = None then [] else ws))"
proof -
  obtain f1 where f1: "FileBuffer_Close gz f = (None, f1)" "f_holds gz f1 ws" "\<not> f_file f1"
    using FileBuffer_Close_holds [OF assms] by blast
  let ?z = "content (f_os f1) (f_path f1)"
  have h: "faults (f_os f1) = []" "gz_file gz ws ?z" using f1(2,3) by (simp_all add: f_holds_def)
  consider "files (f_os f1) (f_path f1) = None" | "files (f_os f1) (f_path f1) \<noteq> None" "?z = []" | "files (f_os f1) (f_path f1) \<noteq> None" "?z \<noteq> []"
    by blast
  then show ?thesis
  proof cases
    case 1
    with h f1 show ?thesis by (intro disjI1) (simp add: FileBuffer_Reader_def os_simps content_def)
  next
    case 2
    with h f1 show ?thesis by (intro disjI1) (auto simp: FileBuffer_Reader_def os_simps f_holds_def)
  next
    case 3
    obtain e c' where fn: "fn (len ?z) ?z c = (e, c')" by fastforce
    show ?thesis
    proof (cases e)
      case None
      with 3 h f1 fn show ?thesis
        by (intro disjI2 exI [of _ ?z]) (auto simp: FileBuffer_Reader_def os_simps f_holds_def)
    next
      case (Some e')
      with 3 h f1 fn show ?thesis
        by (intro disjI2 exI [of _ ?z]) (auto simp: FileBuffer_Reader_def os_simps f_holds_def)
    qed
  qed
qed

subsection \<open>The contract of a fallback buffer\<close>

text \<open>
  The interface \<open>Fallback\<close>: a state holds two groups of entries, those that a failed batch left
  behind and those that were written since. \<open>Write\<close> adds one entry. \<open>Reader\<close> offers the second
  group to its callback as one compressed file; when the callback accepts it, it is gone, and else
  nothing changes but perhaps which group is which.
\<close>

locale fallback_buffer =
  fixes holding :: "'s \<Rightarrow> bytes list \<Rightarrow> bytes list \<Rightarrow> bool"
    and write_op :: "bytes \<Rightarrow> 's \<Rightarrow> os_err option \<times> 's"
    and reader_op :: "bytes list batch_fn \<Rightarrow> 's \<Rightarrow> bytes list \<Rightarrow> os_err option \<times> 's \<times> bytes list"
    and compressed :: "bytes list \<Rightarrow> bytes \<Rightarrow> bool"
  assumes write_law: "holding s rs ws \<Longrightarrow> \<exists>s'. write_op p s = (None, s') \<and> holding s' rs (ws @ [p])"
    and reader_law: "holding s rs ws \<Longrightarrow>
      (\<exists>e s' rs' ws'. reader_op fn s c = (e, s', c) \<and> holding s' rs' ws' \<and> mset rs' + mset ws' = mset rs + mset ws) \<or>
      (\<exists>z e s' c' rs' ws'. compressed ws z \<and> fn (len z) z c = (e, c') \<and> reader_op fn s c = (e, s', c') \<and> holding s' rs' ws' \<and>
        mset rs' + mset ws' = (if e = None then mset rs else mset rs + mset ws))"

text \<open>
  A history of calls: an entry is written, or a batch is read by a callback that accepts (\<open>True\<close>) or
  refuses it. The callback records what it accepted.
\<close>

datatype fb_call = FbWrite bytes | FbRead bool

definition batch_callback :: "bool \<Rightarrow> int \<Rightarrow> bytes \<Rightarrow> bytes list \<Rightarrow> os_err option \<times> bytes list" where
  "batch_callback ok n z taken = (if ok then (None, taken @ [z]) else (Some ErrIO, taken))"

fun written :: "fb_call list \<Rightarrow> bytes list" where
  "written [] = []"
| "written (FbWrite p # cs) = p # written cs"
| "written (FbRead ok # cs) = written cs"

fun fb_run :: "(bytes \<Rightarrow> 's \<Rightarrow> os_err option \<times> 's) \<Rightarrow> (bytes list batch_fn \<Rightarrow> 's \<Rightarrow> bytes list \<Rightarrow> os_err option \<times> 's \<times> bytes list) \<Rightarrow>
    fb_call list \<Rightarrow> 's \<Rightarrow> bytes list \<Rightarrow> 's \<times> bytes list" where
  "fb_run w r [] s taken = (s, taken)"
| "fb_run w r (FbWrite p # cs) s taken = fb_run w r cs (snd (w p s)) taken"
| "fb_run w r (FbRead ok # cs) s taken = (case r (batch_callback ok) s taken of (e, s, taken) \<Rightarrow> fb_run w r cs s taken)"

context fallback_buffer begin

text \<open>Every entry written is either still held or in a batch that was accepted, exactly once.\<close>

lemma no_entry_lost:
  assumes "holding s rs ws"
  shows "\<exists>s' rs' ws' batches zs. fb_run write_op reader_op cs s taken = (s', taken @ zs) \<and> holding s' rs' ws' \<and> list_all2 compressed batches zs \<and>
    mset rs + mset ws + mset (written cs) = mset rs' + mset ws' + mset (concat batches)"
  using assms
proof (induction cs arbitrary: s rs ws taken)
  case Nil
  then show ?case by (intro exI [of _ s] exI [of _ rs] exI [of _ ws] exI [of _ "[]"]) simp
next
  case (Cons call cs)
  show ?case
  proof (cases call)
    case (FbWrite p)
    obtain s1 where s1: "write_op p s = (None, s1)" "holding s1 rs (ws @ [p])"
      using write_law [OF Cons.prems] by blast
    from Cons.IH [OF s1(2)] show ?thesis using FbWrite s1(1) by (simp add: ac_simps)
  next
    case (FbRead ok)
    from reader_law [OF Cons.prems, of "batch_callback ok" taken] show ?thesis
    proof (elim disjE exE conjE)
      fix e s1 rs1 ws1
      assume r: "reader_op (batch_callback ok) s taken = (e, s1, taken)" "holding s1 rs1 ws1" "mset rs1 + mset ws1 = mset rs + mset ws"
      from Cons.IH [OF r(2)] show ?thesis using FbRead r(1,3) by simp
    next
      fix z e s1 c1 rs1 ws1
      assume r: "compressed ws z" "batch_callback ok (len z) z taken = (e, c1)" "reader_op (batch_callback ok) s taken = (e, s1, c1)"
        "holding s1 rs1 ws1" "mset rs1 + mset ws1 = (if e = None then mset rs else mset rs + mset ws)"
      show ?thesis
      proof (cases ok)
        case True
        with r(2) have c1: "c1 = taken @ [z]" "e = None" by (simp_all add: batch_callback_def)
        from Cons.IH [OF r(4), of c1] obtain s' rs' ws' batches zs where i: "fb_run write_op reader_op cs s1 c1 = (s', c1 @ zs)" "holding s' rs' ws'"
          "list_all2 compressed batches zs" "mset rs1 + mset ws1 + mset (written cs) = mset rs' + mset ws' + mset (concat batches)"
          by blast
        then show ?thesis
          using FbRead r(1,3,5) c1
          by (intro exI [of _ s'] exI [of _ rs'] exI [of _ ws'] exI [of _ "ws # batches"] exI [of _ "z # zs"]) (simp add: ac_simps)
      next
        case False
        with r(2) have "c1 = taken" "e \<noteq> None" by (auto simp: batch_callback_def)
        with Cons.IH [OF r(4)] show ?thesis using FbRead r(3,5) by simp
      qed
    qed
  qed
qed

end

interpretation dir: fallback_buffer "holds gz" "DirBuffer_Write gz" "DirBuffer_Reader gz" "gz_file gz" for gz
proof
  show "holds gz s rs ws \<Longrightarrow> \<exists>s'. DirBuffer_Write gz p s = (None, s') \<and> holds gz s' rs (ws @ [p])" for s rs ws p
    by (rule Write_holds)
  fix s :: "'a DirBuffer" and rs ws :: "bytes list" and fn :: "bytes list batch_fn" and c
  assume "holds gz s rs ws"
  from Reader_holds [OF this, of fn c] show "(\<exists>e s' rs' ws'. DirBuffer_Reader gz fn s c = (e, s', c) \<and> holds gz s' rs' ws' \<and> mset rs' + mset ws' = mset rs + mset ws) \<or>
      (\<exists>z e s' c' rs' ws'. gz_file gz ws z \<and> fn (len z) z c = (e, c') \<and> DirBuffer_Reader gz fn s c = (e, s', c') \<and> holds gz s' rs' ws' \<and>
        mset rs' + mset ws' = (if e = None then mset rs else mset rs + mset ws))"
  proof (elim disjE exE conjE)
    fix d'
    assume "DirBuffer_Reader gz fn s c = (Some ErrNotExist, d', c)" "holds gz d' ws rs"
    then show ?thesis
      by (intro disjI1 exI [of _ "Some ErrNotExist"] exI [of _ d'] exI [of _ ws] exI [of _ rs]) (simp add: add.commute)
  next
    fix z e d' c'
    assume "gz_file gz ws z" "fn (len z) z c = (e, c')" "DirBuffer_Reader gz fn s c = (e, d', c')" "holds gz d' (if e = None then [] else ws) rs"
    then show ?thesis
      by (intro disjI2 exI [of _ z] exI [of _ e] exI [of _ d'] exI [of _ c'] exI [of _ "if e = None then [] else ws"] exI [of _ rs])
        (simp add: add.commute)
  qed
qed

interpretation single: fallback_buffer "\<lambda>f rs ws. rs = [] \<and> f_holds gz f ws" "FileBuffer_Write gz" "FileBuffer_Reader gz" "gz_file gz" for gz
proof
  show "rs = [] \<and> f_holds gz s ws \<Longrightarrow> \<exists>s'. FileBuffer_Write gz p s = (None, s') \<and> rs = [] \<and> f_holds gz s' (ws @ [p])" for s rs ws p
    using FileBuffer_Write_holds by blast
  fix s :: "'a FileBuffer" and rs ws :: "bytes list" and fn :: "bytes list batch_fn" and c
  assume h: "rs = [] \<and> f_holds gz s ws"
  then have "f_holds gz s ws" by simp
  from FileBuffer_Reader_holds [OF this, of fn c] show "(\<exists>e s' rs' ws'. FileBuffer_Reader gz fn s c = (e, s', c) \<and> (rs' = [] \<and> f_holds gz s' ws') \<and> mset rs' + mset ws' = mset rs + mset ws) \<or>
      (\<exists>z e s' c' rs' ws'. gz_file gz ws z \<and> fn (len z) z c = (e, c') \<and> FileBuffer_Reader gz fn s c = (e, s', c') \<and> (rs' = [] \<and> f_holds gz s' ws') \<and>
        mset rs' + mset ws' = (if e = None then mset rs else mset rs + mset ws))"
  proof (elim disjE exE conjE)
    fix f'
    assume "FileBuffer_Reader gz fn s c = (None, f', c)" "f_holds gz f' ws"
    with h show ?thesis
      by (intro disjI1 exI [of _ None] exI [of _ f'] exI [of _ "[]"] exI [of _ ws]) simp
  next
    fix z e f' c'
    assume "gz_file gz ws z" "fn (len z) z c = (e, c')" "FileBuffer_Reader gz fn s c = (e, f', c')" "f_holds gz f' (if e = None then [] else ws)"
    with h show ?thesis
      by (intro disjI2 exI [of _ z] exI [of _ e] exI [of _ f'] exI [of _ c'] exI [of _ "[]"] exI [of _ "if e = None then [] else ws"]) simp
  qed
qed


subsection \<open>Calls that fail\<close>

text \<open>Whatever calls of the operating system fail, the operations only extend files.\<close>

definition grows :: "'g DirBuffer \<Rightarrow> os_err option \<times> 'g DirBuffer \<Rightarrow> bool" where
  "grows d r \<longleftrightarrow> (\<forall>p. prefix (content (d_os d) p) (content (d_os (snd r)) p))"

named_theorems grow_intros "operations that only extend files"

lemma os_call_grows: "(\<And>s. prefix (content s p) (content (snd (f s)) p)) \<Longrightarrow> prefix (content s p) (content (snd (os_call f s)) p)"
  by (metis (no_types, lifting) content_faults os_call_def list.case_eq_if bool.case_eq_if snd_conv prefix_order.refl)

lemma grows_same [grow_intros]: "d_os d' = d_os d \<Longrightarrow> grows d (e, d')"
  by (simp add: grows_def)

lemma grows_on_os [grow_intros]:
  "grows d (on_os os_nop d)" "grows d (on_os (os_open q) d)" "grows d (on_os (os_create q) d)" "grows d (on_os (os_append q b) d)"
  unfolding grows_def on_os_def os_nop_def os_open_def os_create_def os_append_def Let_def case_prod_beta
  by (intro allI, simp, intro os_call_grows, simp)+

lemma grows_and_then [grow_intros]: "grows d (f d) \<Longrightarrow> (\<And>d. grows d (g d)) \<Longrightarrow> grows d (and_then f g d)"
  unfolding grows_def and_then_def
  by (cases "f d", cases "fst (f d)") (auto intro: prefix_order.trans)

lemma grows_trans: "grows d (e, d1) \<Longrightarrow> grows d1 r \<Longrightarrow> grows d r"
  by (auto simp: grows_def intro: prefix_order.trans)

lemma grows_set: "d_os d' = d_os d \<Longrightarrow> grows d' r \<Longrightarrow> grows d r"
  by (simp add: grows_def)

lemma grows_ops [grow_intros]:
  "grows d (initDir d)" "grows d (initReadFile d)" "grows d (ensureReadFile d)" "grows d (closeReadFile d)"
  "grows d (initWriteFile gz d)" "grows d (ensureWriteFile gz d)" "grows d (gz_emit p out d)"
proof -
  show i: "grows d (initDir d)" for d :: "'a DirBuffer" unfolding initDir_def by (intro grow_intros)
  show r: "grows d (initReadFile d)" for d :: "'a DirBuffer" unfolding initReadFile_def by (intro grow_intros i) simp
  show "grows d (ensureReadFile d)" unfolding ensureReadFile_def by (simp add: r grow_intros)
  show "grows d (closeReadFile d)"
    using grows_on_os(1) [of d] by (cases "on_os os_nop d") (auto simp: closeReadFile_def grows_def)
  show w: "grows d (initWriteFile gz d)" for d :: "'a DirBuffer" unfolding initWriteFile_def by (intro grow_intros i) simp
  show "grows d (ensureWriteFile gz d)" unfolding ensureWriteFile_def by (simp add: w grow_intros)
  show "grows d (gz_emit p out d)"
    unfolding gz_emit_def by (rule grows_set [OF _ grows_on_os(4)]) simp
qed

lemma grows_close [grow_intros]: "grows d (closeWriteFile gz d)" "grows d (d_close gz d)"
proof -
  have n: "grows d (case on_os os_nop d of (e, d) \<Rightarrow> (e, d\<lparr>writeFile := None\<rparr>))" for d :: "'a DirBuffer"
    using grows_on_os(1) [of d] by (cases "on_os os_nop d") (auto simp: grows_def)
  show w: "grows d (closeWriteFile gz d)" for d
    unfolding closeWriteFile_def by (auto split: option.split intro!: grow_intros n)
  show "grows d (d_close gz d)" unfolding d_close_def by (intro grow_intros w)
qed

lemma grows_switchFiles [grow_intros]: "grows d (switchFiles gz d)"
  unfolding switchFiles_def by (intro grow_intros) simp

lemma grows_Write: "grows d (DirBuffer_Write gz p d)"
  unfolding DirBuffer_Write_def by (intro grow_intros) (auto split: option.split intro!: grow_intros)

lemma os_truncate_content: "on_os (os_truncate q) d = (e, d') \<Longrightarrow>
    content (d_os d') p = (if p = q \<and> e = None then [] else content (d_os d) p)"
  by (auto simp: on_os_def os_truncate_def os_call_def split: list.splits bool.splits)

lemma Reader_truncates_accepted:
  assumes "DirBuffer_Reader gz fn d c = (e, d', c')"
  shows "prefix (content (d_os d) p) (content (d_os d') p) \<or>
    (\<exists>z. prefix (content (d_os d) p) z \<and> fn (len z) z c = (None, c') \<and> content (d_os d') p = [])"
proof -
  obtain e1 d1 where 1: "and_then (switchFiles gz) ensureReadFile d = (e1, d1)" by fastforce
  have g1: "grows d (e1, d1)" unfolding 1 [symmetric] by (intro grow_intros)
  show ?thesis
  proof (cases e1)
    case (Some x)
    with assms 1 g1 show ?thesis by (simp add: DirBuffer_Reader_def grows_def)
  next
    case None
    obtain e2 d2 where 2: "on_os os_nop d1 = (e2, d2)" by fastforce
    with grows_on_os(1) [of d1] g1 have g2: "grows d (e2, d2)" by (metis grows_trans)
    have cl: "grows d3 (closeReadFile d3)" for d3 :: "'a DirBuffer" by (rule grow_intros)
    let ?z = "content (d_os d2) (rName d2)"
    obtain e3 c3 where 3: "fn (len ?z) ?z c = (e3, c3)" by fastforce
    obtain e4 d4 where 4: "on_os (os_truncate (rName d2)) d2 = (e4, d4)" by fastforce
    have t: "content (d_os d4) p = (if p = rName d2 \<and> e4 = None then [] else content (d_os d2) p)"
      using 4 by (rule os_truncate_content)
    have nop: "content (d_os (snd (closeReadFile d3))) q = content (d_os d3) q" for d3 :: "'a DirBuffer" and q
      by (simp add: closeReadFile_def on_os_def os_nop_def os_call_def split: list.split bool.split)
    have pre: "prefix (content (d_os d) p) (content (d_os d2) p)" using g2 by (simp add: grows_def)
    show ?thesis
    proof (cases "content (d_os d') p = content (d_os d2) p")
      case True
      with pre show ?thesis by simp
    next
      case False
      with assms 1 None 2 3 4 t nop have "p = rName d2" "e3 = None" "c' = c3" "content (d_os d') p = []"
        by (auto simp: DirBuffer_Reader_def split: option.splits if_splits)
      with pre 3 show ?thesis by blast
    qed
  qed
qed


subsection \<open>Properties\<close>

lemma new_buffers_hold:
  assumes "faults s = []" and "files s = Map.empty"
  shows "holds gz (NewDirBuffer s dir) [] []" and "f_holds gz (NewFileBuffer gz s p) []"
  using assms by (simp_all add: holds_def f_holds_def NewDirBuffer_def NewFileBuffer_def content_def)

text \<open>
  C15. \<^bold>\<open>The fallback buffers lose nothing.\<close> After any sequence of writes and of batches that the
  client accepts or refuses, on a disk that works, the entries written are, as a multiset, those of the accepted batches
  and those still held: each exactly once, for \<open>DirBuffer\<close> and for \<open>FileBuffer\<close>.
\<close>

theorem buffers_lose_no_entry:
  assumes "holds gz d rs ws" and "f_holds gz f vs"
  shows "(\<exists>d' rs' ws' batches zs. fb_run (DirBuffer_Write gz) (DirBuffer_Reader gz) cs d taken = (d', taken @ zs) \<and>
      holds gz d' rs' ws' \<and> list_all2 (gz_file gz) batches zs \<and>
      mset rs + mset ws + mset (written cs) = mset rs' + mset ws' + mset (concat batches)) \<and>
    (\<exists>f' vs' batches zs. fb_run (FileBuffer_Write gz) (FileBuffer_Reader gz) cs f taken = (f', taken @ zs) \<and>
      f_holds gz f' vs' \<and> list_all2 (gz_file gz) batches zs \<and>
      mset vs + mset (written cs) = mset vs' + mset (concat batches))"
  using dir.no_entry_lost [OF assms(1), of cs taken] single.no_entry_lost [of "[]" gz f vs cs taken] assms(2) by auto

definition store_gz :: "unit gzip" where
  "store_gz = \<lparr> gz_New = (), gz_Write = \<lambda>_ p. (p, ()), gz_Close = \<lambda>_. ([0], ()) \<rparr>"

theorem buffers_lose_no_entry_witness:
  "\<exists>d' rs' ws' batches zs. fb_run (DirBuffer_Write store_gz) (DirBuffer_Reader store_gz)
      [FbWrite [1], FbRead False, FbWrite [2], FbRead True] (NewDirBuffer \<lparr>files = Map.empty, faults = []\<rparr> [0x64]) [] = (d', zs) \<and>
    holds store_gz d' rs' ws' \<and> list_all2 (gz_file store_gz) batches zs \<and>
    {#[1], [2]#} = mset rs' + mset ws' + mset (concat batches)"
proof -
  let ?s = "\<lparr>files = Map.empty, faults = []\<rparr>"
  have "holds store_gz (NewDirBuffer ?s [0x64]) [] []" "f_holds store_gz (NewFileBuffer store_gz ?s [0x65]) []"
    by (simp_all add: new_buffers_hold)
  from buffers_lose_no_entry [OF this, where cs = "[FbWrite [1], FbRead False, FbWrite [2], FbRead True]" and taken = "[]"]
  show ?thesis by (simp del: fb_run.simps)
qed

text \<open>
  \<^bold>\<open>HasData finds and gathers everything.\<close> When it answers \<open>False\<close>, the directory holds no
  entry; in any case all entries end up in the file that the next \<open>Reader\<close> offers.
\<close>

theorem HasData_gathers:
  assumes "holds gz d rs ws" and "gz_nonempty gz"
  shows "\<exists>ok d'. HasData gz d = (ok, None, d') \<and> holds gz d' [] (ws @ rs) \<and> (ok \<or> rs = [] \<and> ws = [])"
  using HasData_holds [OF assms] by blast

theorem HasData_gathers_witness:
  "\<exists>ok d'. HasData store_gz (NewDirBuffer \<lparr>files = Map.empty, faults = []\<rparr> [0x64]) = (ok, None, d') \<and> holds store_gz d' [] []"
proof -
  have "gz_nonempty store_gz"
    by (simp add: gz_nonempty_def gz_member_def store_gz_def Let_def split: prod.split)
  then show ?thesis
    using HasData_gathers [OF new_buffers_hold(1), of "\<lparr>files = Map.empty, faults = []\<rparr>" store_gz "[0x64]"] by auto
qed

text \<open>
  C34. \<^bold>\<open>Only accepted data is truncated.\<close> Whatever calls of the operating system fail in
  \<open>Reader\<close>, a file keeps all it had unless the callback was given its whole content, including what
  the compressor had buffered before, and accepted it.
\<close>

theorem Reader_drops_only_accepted:
  assumes "DirBuffer_Reader gz fn d c = (e, d', c')"
  shows "prefix (content (d_os d) p) (content (d_os d') p) \<or>
    (\<exists>z. prefix (content (d_os d) p) z \<and> fn (len z) z c = (None, c') \<and> content (d_os d') p = [])"
  using assms by (rule Reader_truncates_accepted)

theorem Reader_drops_only_accepted_witness:
  "\<exists>e d' c'. DirBuffer_Reader store_gz (\<lambda>_ _ c. (None, c)) (NewDirBuffer \<lparr>files = [[0x64] \<mapsto> [1]], faults = [False, True]\<rparr> [0x64]) () = (e, d', c') \<and>
    (prefix [1] (content (d_os d') [0x64]) \<or> (\<exists>z. prefix [1 :: byte] z \<and> content (d_os d') [0x64] = []))"
proof -
  obtain e d' c' where r: "DirBuffer_Reader store_gz (\<lambda>_ _ c. (None, c)) (NewDirBuffer \<lparr>files = [[0x64] \<mapsto> [1]], faults = [False, True]\<rparr> [0x64]) () = (e, d', c')"
    using prod_cases3 by blast
  from Reader_drops_only_accepted [OF this, of "[0x64]"] have "prefix [1] (content (d_os d') [0x64]) \<or> (\<exists>z. prefix [1 :: byte] z \<and> content (d_os d') [0x64] = [])"
    by (auto simp: NewDirBuffer_def content_def)
  with r show ?thesis by blast
qed

text \<open>\<open>FileBuffer.HasData\<close> looks at the file only, not at what the compressor still keeps.\<close>

lemma FileBuffer_HasData_misses_buffered:
  assumes "gz_Write gz (gz_New gz) p = ([], g)" and "files s q = None" and "faults s = []"
  shows "\<exists>f. FileBuffer_Write gz p (NewFileBuffer gz s q) = (None, f) \<and> f_holds gz f [p] \<and> FileBuffer_HasData f = (False, None, f)"
proof -
  have n: "f_holds gz (NewFileBuffer gz s q) []" using assms(2,3) by (simp add: f_holds_def NewFileBuffer_def content_def)
  show ?thesis
    using FileBuffer_Write_holds [OF n, of p] assms
    by (auto simp: FileBuffer_Write_def ensureFile_def initFile_def f_emit_def os_simps NewFileBuffer_def FileBuffer_HasData_def content_def)
qed

end
