(* ===== verification/Queue.thy ===== *)
theory Queue
  imports Instance Fallback
begin

text \<open>
  The second half of \<open>instance.go\<close>: the queue between the log calls and the worker, the worker's
  loop, the switch to the fallback buffer and its flush, and \<open>Close\<close>.

  The goroutines interleave, so the instance is a transition relation \<open>step\<close>: a log call passes its
  check of the close channel, then its message is queued, dropped, or waits for room; the worker is a
  program counter \<open>pc\<close> with one transition for each case of its \<open>select\<close>s. The client is any
  \<open>io.Writer\<close>: \<open>cli_results\<close> says which of its next calls succeed (calls beyond the list do), and
  it records what it accepted. \<open>accepted\<close>, \<open>handled\<close> and \<open>dropped\<close> are history variables that
  no transition reads.
\<close>

record client =
  cli_results :: "bool list"
  cli_written :: "bytes list"
  cli_batches :: "bytes list"
  cli_Reconnector :: bool

definition cli_next :: "client \<Rightarrow> bool \<times> client" where
  "cli_next c = (case cli_results c of [] \<Rightarrow> (True, c) | ok # oks \<Rightarrow> (ok, c\<lparr>cli_results := oks\<rparr>))"

definition cli_Write :: "bytes \<Rightarrow> client \<Rightarrow> bool \<times> client" where
  "cli_Write b c = (let (ok, c) = cli_next c in (ok, if ok then c\<lparr>cli_written := cli_written c @ [b]\<rparr> else c))"

definition cli_WriteBatch :: "int \<Rightarrow> bytes \<Rightarrow> client \<Rightarrow> os_err option \<times> client" where
  "cli_WriteBatch n z c =
     (let (ok, c) = cli_next c in if ok then (None, c\<lparr>cli_batches := cli_batches c @ [z]\<rparr>) else (Some ErrIO, c))"

definition cli_Reconnect :: "client \<Rightarrow> os_err option \<times> client" where
  "cli_Reconnect c = (let (ok, c) = cli_next c in (if ok then None else Some ErrIO, c))"

datatype pc = Start | Poll | Wait | Drain | Stopped

datatype outcome = Written | Lost | ToFallback

record 'g Instance =
  queue :: "bytes list"
  closed :: bool
  fb :: bool
  cli :: client
  fallback :: "'g DirBuffer"
  worker_pc :: pc
  passed :: "bytes list"
  blocked :: "bytes list"
  accepted :: "bytes list"
  handled :: "(bytes \<times> outcome) list"
  dropped :: "bytes list"

text \<open>\<open>NewInstance\<close> refuses \<open>Fallback\<close> without a buffer or with a client that cannot write batches.\<close>

datatype instance_err = NoFallback | NoBatchWriter

definition NewInstance_error :: "Options \<Rightarrow> bool \<Rightarrow> bool \<Rightarrow> instance_err option" where
  "NewInstance_error opt hasFallback isBatchWriter =
     (if opt_WriteBehavior (setDefaults opt) = Fallback
      then if \<not> hasFallback then Some NoFallback else if \<not> isBatchWriter then Some NoBatchWriter else None
      else None)"

definition NewInstance :: "client \<Rightarrow> 'g DirBuffer \<Rightarrow> 'g Instance" where
  "NewInstance c d =
     \<lparr> queue = [], closed = False, fb = False, cli = c, fallback = d, worker_pc = Start, passed = [], blocked = [],
       accepted = [], handled = [], dropped = [] \<rparr>"

subsection \<open>queueMessage\<close>

definition enqueue :: "bytes \<Rightarrow> 'g Instance \<Rightarrow> 'g Instance" where
  "enqueue b s = s\<lparr>queue := queue s @ [b], accepted := accepted s @ [b]\<rparr>"

definition queueMessage :: "Options \<Rightarrow> bytes \<Rightarrow> 'g Instance \<Rightarrow> 'g Instance" where
  "queueMessage opt b s =
     (if len (queue s) < opt_BufferSize opt then enqueue b s
      else case opt_WriteBehavior opt of
        Block \<Rightarrow> s\<lparr>blocked := blocked s @ [b]\<rparr>
      | Fallback \<Rightarrow> s\<lparr>blocked := blocked s @ [b]\<rparr>
      | Loose \<Rightarrow> s\<lparr>dropped := dropped s @ [b]\<rparr>)"

subsection \<open>Sending\<close>

definition strSize :: "int \<Rightarrow> int" where
  "strSize l = (if l \<le> 31 then l + 1 else if l \<le> 0xFF then l + 2 else if l \<le> 0xFFFF then l + 3 else l + 5)"

text \<open>The errors of the fallback buffer are dropped (the first one) or logged.\<close>

definition sendToFallbackCli :: "'g gzip \<Rightarrow> Options \<Rightarrow> bytes \<Rightarrow> 'g Instance \<Rightarrow> 'g Instance go" where
  "sendToFallbackCli gz opt b s =
     (let strip = 1 + strSize (len (opt_Tag opt));
          (e, d) = DirBuffer_Write gz [0x90 OR 2] (fallback s)
      in do {
        rest \<leftarrow> go_slice b strip (len b);
        let (e, d) = DirBuffer_Write gz rest d;
        Ret (s\<lparr>fallback := d, handled := handled s @ [(b, ToFallback)]\<rparr>) })"

definition sendToCli :: "'g gzip \<Rightarrow> Options \<Rightarrow> bytes \<Rightarrow> 'g Instance \<Rightarrow> 'g Instance go" where
  "sendToCli gz opt b s =
     (if fb s then sendToFallbackCli gz opt b s
      else let (ok, c) = cli_Write b (cli s); s = s\<lparr>cli := c\<rparr> in
        if \<not> ok \<and> opt_WriteBehavior opt = Fallback then sendToFallbackCli gz opt b (s\<lparr>fb := True\<rparr>)
        else Ret (s\<lparr>handled := handled s @ [(b, if ok then Written else Lost)]\<rparr>))"

definition fallback_Reader :: "'g gzip \<Rightarrow> 'g Instance \<Rightarrow> os_err option \<times> 'g Instance" where
  "fallback_Reader gz s =
     (case DirBuffer_Reader gz cli_WriteBatch (fallback s) (cli s) of (e, d, c) \<Rightarrow> (e, s\<lparr>fallback := d, cli := c\<rparr>))"

definition flushFallbackToCli :: "'g gzip \<Rightarrow> 'g Instance \<Rightarrow> os_err option \<times> 'g Instance" where
  "flushFallbackToCli gz s =
     (if \<not> fb s then (None, s)
      else case fallback_Reader gz s of
          (None, s) \<Rightarrow> (None, s\<lparr>fb := False\<rparr>)
        | (Some e, s) \<Rightarrow>
            if cli_Reconnector (cli s) then
              (case cli_Reconnect (cli s) of
                 (Some e, c) \<Rightarrow> (Some e, s\<lparr>cli := c\<rparr>)
               | (None, c) \<Rightarrow>
                   (case fallback_Reader gz (s\<lparr>cli := c\<rparr>) of
                      (Some e, s) \<Rightarrow> (Some e, s)
                    | (None, s) \<Rightarrow> (None, s\<lparr>fb := False\<rparr>)))
            else (Some e, s\<lparr>fb := False\<rparr>))"

definition maybeSetFb :: "'g gzip \<Rightarrow> Options \<Rightarrow> 'g Instance \<Rightarrow> os_err option \<times> 'g Instance" where
  "maybeSetFb gz opt s =
     (if opt_WriteBehavior opt = Fallback
      then case HasData gz (fallback s) of (ok, e, d) \<Rightarrow> (e, s\<lparr>fb := ok, fallback := d\<rparr>)
      else (None, s))"

subsection \<open>The transitions\<close>

inductive step :: "'g gzip \<Rightarrow> Options \<Rightarrow> 'g Instance \<Rightarrow> 'g Instance \<Rightarrow> bool" for gz opt where
  log_passes: "\<not> closed s \<Longrightarrow> step gz opt s (s\<lparr>passed := b # passed s\<rparr>)"
| log_queues: "b \<in> set (passed s) \<Longrightarrow> step gz opt s (queueMessage opt b (s\<lparr>passed := remove1 b (passed s)\<rparr>))"
| log_unblocks: "b \<in> set (blocked s) \<Longrightarrow> len (queue s) < opt_BufferSize opt \<Longrightarrow>
    step gz opt s (enqueue b (s\<lparr>blocked := remove1 b (blocked s)\<rparr>))"
| Close: "\<not> closed s \<Longrightarrow> step gz opt s (s\<lparr>closed := True\<rparr>)"
| worker_starts: "worker_pc s = Start \<Longrightarrow>
    step gz opt s ((snd (flushFallbackToCli gz (snd (maybeSetFb gz opt s))))\<lparr>worker_pc := Poll\<rparr>)"
| poll_receives: "worker_pc s = Poll \<Longrightarrow> queue s = b # q \<Longrightarrow> sendToCli gz opt b (s\<lparr>queue := q\<rparr>) = Ret s' \<Longrightarrow>
    step gz opt s s'"
| poll_empty: "worker_pc s = Poll \<Longrightarrow> queue s = [] \<Longrightarrow> step gz opt s (s\<lparr>worker_pc := Wait\<rparr>)"
| wait_receives: "worker_pc s = Wait \<Longrightarrow> queue s = b # q \<Longrightarrow> sendToCli gz opt b (s\<lparr>queue := q\<rparr>) = Ret s' \<Longrightarrow>
    step gz opt s (s'\<lparr>worker_pc := Poll\<rparr>)"
| wait_ticks: "worker_pc s = Wait \<Longrightarrow> step gz opt s ((snd (flushFallbackToCli gz s))\<lparr>worker_pc := Poll\<rparr>)"
| wait_closed: "worker_pc s = Wait \<Longrightarrow> closed s \<Longrightarrow> step gz opt s (s\<lparr>worker_pc := Drain\<rparr>)"
| drain_receives: "worker_pc s = Drain \<Longrightarrow> queue s = b # q \<Longrightarrow> sendToCli gz opt b (s\<lparr>queue := q\<rparr>) = Ret s' \<Longrightarrow>
    step gz opt s s'"
| drain_ends: "worker_pc s = Drain \<Longrightarrow> queue s = [] \<Longrightarrow> step gz opt s (s\<lparr>worker_pc := Stopped\<rparr>)"

inductive_cases stepE: "step gz opt s s'"

subsection \<open>What the operations leave alone\<close>

lemma sendToFallbackCli_frame:
  assumes "sendToFallbackCli gz opt b s = Ret s'"
  obtains d where "s' = s\<lparr>fallback := d, handled := handled s @ [(b, ToFallback)]\<rparr>"
  using assms unfolding sendToFallbackCli_def Let_def case_prod_beta by (auto simp: bind_eq_Some_conv)

lemma cli_Write_written:
  "cli_written (snd (cli_Write b c)) = cli_written c @ (if fst (cli_Write b c) then [b] else [])"
  by (auto simp: cli_Write_def cli_next_def split: list.split)

lemma sendToCli_frame:
  assumes "sendToCli gz opt b s = Ret s'"
  obtains f c d r where "s' = s\<lparr>fb := f, cli := c, fallback := d, handled := handled s @ [(b, r)]\<rparr>"
    "f \<longrightarrow> fb s \<or> opt_WriteBehavior opt = Fallback" "r = Lost \<longrightarrow> opt_WriteBehavior opt \<noteq> Fallback"
    "cli_written c = cli_written (cli s) @ (if r = Written then [b] else [])"
proof (cases "fb s")
  case True
  with assms obtain d where "s' = s\<lparr>fallback := d, handled := handled s @ [(b, ToFallback)]\<rparr>"
    by (auto simp: sendToCli_def elim: sendToFallbackCli_frame)
  with True show thesis by (intro that [of ToFallback d "cli s" "fb s"]) simp_all
next
  case False
  obtain ok c where w: "cli_Write b (cli s) = (ok, c)" by fastforce
  with cli_Write_written [of b "cli s"] have c: "cli_written c = cli_written (cli s) @ (if ok then [b] else [])" by simp
  show thesis
  proof (cases "\<not> ok \<and> opt_WriteBehavior opt = Fallback")
    case True
    with assms False w have "sendToFallbackCli gz opt b (s\<lparr>cli := c, fb := True\<rparr>) = Ret s'" by (simp add: sendToCli_def)
    then obtain d where "s' = s\<lparr>cli := c, fb := True, fallback := d, handled := handled s @ [(b, ToFallback)]\<rparr>"
      by (auto elim: sendToFallbackCli_frame)
    with True c show thesis by (intro that [of ToFallback d c True]) simp_all
  next
    case F: False
    with assms False w have "s' = s\<lparr>cli := c, handled := handled s @ [(b, if ok then Written else Lost)]\<rparr>"
      by (auto simp: sendToCli_def)
    with F False c show thesis by (intro that [of "if ok then Written else Lost" "fallback s" c "fb s"]) auto
  qed
qed

lemma Reader_callback:
  assumes "DirBuffer_Reader gz fn d c = (e, d', c')"
  shows "c' = c \<or> (\<exists>z. c' = snd (fn (len z) z c))"
proof -
  obtain e1 d1 where 1: "and_then (switchFiles gz) ensureReadFile d = (e1, d1)" by fastforce
  obtain e2 d2 where 2: "on_os os_nop d1 = (e2, d2)" by fastforce
  let ?z = "content (d_os d2) (rName d2)"
  obtain e3 c3 where 3: "fn (len ?z) ?z c = (e3, c3)" by fastforce
  obtain e4 d4 where 4: "on_os (os_truncate (rName d2)) d2 = (e4, d4)" by fastforce
  have "c' = c \<or> c' = c3"
    using assms 1 2 3 4 by (cases e1; cases e2; cases e3) (simp_all add: DirBuffer_Reader_def)
  with 3 show ?thesis by (metis snd_conv)
qed

lemma fallback_Reader_frame:
  assumes "fallback_Reader gz s = (e, s')"
  obtains c d where "s' = s\<lparr>cli := c, fallback := d\<rparr>" "cli_written c = cli_written (cli s)"
proof -
  have b: "cli_written (snd (cli_WriteBatch n z c)) = cli_written c" for n z c
    by (auto simp: cli_WriteBatch_def cli_next_def split: list.split)
  obtain e1 d c where r: "DirBuffer_Reader gz cli_WriteBatch (fallback s) (cli s) = (e1, d, c)" using prod_cases3 by blast
  from Reader_callback [OF r] b have "cli_written c = cli_written (cli s)" by auto
  with assms r show thesis by (intro that [of d c]) (auto simp: fallback_Reader_def)
qed

lemma cli_Reconnect_written: "cli_Reconnect c = (e, c') \<Longrightarrow> cli_written c' = cli_written c"
  by (auto simp: cli_Reconnect_def cli_next_def split: list.splits)

lemma flush_frame:
  obtains f c d where "snd (flushFallbackToCli gz s) = s\<lparr>fb := f, cli := c, fallback := d\<rparr>" "f \<longrightarrow> fb s"
    "cli_written c = cli_written (cli s)"
proof (cases "fb s")
  case False
  then show thesis by (intro that [of "fallback s" "cli s" "fb s"]) (simp_all add: flushFallbackToCli_def)
next
  case True
  obtain e1 s1 where 1: "fallback_Reader gz s = (e1, s1)" by fastforce
  then obtain c1 d1 where s1: "s1 = s\<lparr>cli := c1, fallback := d1\<rparr>" "cli_written c1 = cli_written (cli s)"
    by (rule fallback_Reader_frame)
  obtain e2 c2 where 2: "cli_Reconnect c1 = (e2, c2)" by fastforce
  obtain e3 s3 where 3: "fallback_Reader gz (s1\<lparr>cli := c2\<rparr>) = (e3, s3)" by fastforce
  then obtain c3 d3 where s3: "s3 = s1\<lparr>cli := c3, fallback := d3\<rparr>" "cli_written c3 = cli_written c2"
    by (rule fallback_Reader_frame) auto
  have f: "snd (flushFallbackToCli gz s) =
      (if e1 = None then s1\<lparr>fb := False\<rparr>
       else if cli_Reconnector c1 then if e2 \<noteq> None then s1\<lparr>cli := c2\<rparr> else if e3 = None then s3\<lparr>fb := False\<rparr> else s3
       else s1\<lparr>fb := False\<rparr>)"
    using True 1 2 3 s1(1) by (cases e1; cases e2; cases e3) (simp_all add: flushFallbackToCli_def)
  note w = s1(2) s3(2) cli_Reconnect_written [OF 2]
  consider "e1 = None \<or> \<not> cli_Reconnector c1" | "e1 \<noteq> None" "cli_Reconnector c1" "e2 \<noteq> None"
    | "e1 \<noteq> None" "cli_Reconnector c1" "e2 = None" by blast
  then show thesis
  proof cases
    case 1
    with f s1 show thesis by (intro that [of d1 c1 False]) (auto split: if_splits)
  next
    case 2
    with True f s1 w show thesis by (intro that [of d1 c2 True]) auto
  next
    case 3
    with True f s1 s3 w show thesis by (intro that [of d3 c3 "e3 \<noteq> None"]) auto
  qed
qed

subsection \<open>The invariant of the queue\<close>

text \<open>
  Messages leave the queue in the order in which they entered it and each gets one outcome; the
  client has exactly those whose outcome is \<open>Written\<close>; a message is dropped only under \<open>Loose\<close>,
  lost to a failing client only when there is no fallback, and a log call waits only without \<open>Loose\<close>.
\<close>

definition queue_ok :: "Options \<Rightarrow> 'g Instance \<Rightarrow> bool" where
  "queue_ok opt s \<longleftrightarrow>
     accepted s = map fst (handled s) @ queue s \<and>
     len (queue s) \<le> opt_BufferSize opt \<and>
     cli_written (cli s) = map fst (filter (\<lambda>h. snd h = Written) (handled s)) \<and>
     (dropped s \<noteq> [] \<longrightarrow> opt_WriteBehavior opt = Loose) \<and>
     (blocked s \<noteq> [] \<longrightarrow> opt_WriteBehavior opt \<noteq> Loose) \<and>
     (\<forall>h \<in> set (handled s). snd h = Lost \<longrightarrow> opt_WriteBehavior opt \<noteq> Fallback) \<and>
     (fb s \<longrightarrow> opt_WriteBehavior opt = Fallback)"

lemma sendToCli_queue_ok:
  assumes "queue_ok opt s" and "queue s = b # q" and "sendToCli gz opt b (s\<lparr>queue := q\<rparr>) = Ret s'"
  shows "queue_ok opt s'"
  using assms(3)
proof (rule sendToCli_frame)
  fix f c d r
  assume "s' = s\<lparr>queue := q\<rparr>\<lparr>fb := f, cli := c, fallback := d, handled := handled (s\<lparr>queue := q\<rparr>) @ [(b, r)]\<rparr>"
    "f \<longrightarrow> fb (s\<lparr>queue := q\<rparr>) \<or> opt_WriteBehavior opt = Fallback" "r = Lost \<longrightarrow> opt_WriteBehavior opt \<noteq> Fallback"
    "cli_written c = cli_written (cli (s\<lparr>queue := q\<rparr>)) @ (if r = Written then [b] else [])"
  with assms(1,2) show ?thesis by (auto simp: queue_ok_def)
qed

lemma flush_queue_ok:
  assumes "queue_ok opt s"
  shows "queue_ok opt (snd (flushFallbackToCli gz s))"
  using assms by (rule_tac flush_frame [of gz s]) (auto simp: queue_ok_def)

lemma maybeSetFb_queue_ok:
  assumes "queue_ok opt s"
  shows "queue_ok opt (snd (maybeSetFb gz opt s))"
proof (cases "HasData gz (fallback s)")
  case (fields ok e d)
  with assms show ?thesis by (auto simp: maybeSetFb_def queue_ok_def)
qed

lemma queueMessage_queue_ok: "queue_ok opt s \<Longrightarrow> queue_ok opt (queueMessage opt b s)"
  by (cases "opt_WriteBehavior opt") (auto simp: queueMessage_def enqueue_def queue_ok_def)

lemma queue_ok_frame:
  "queue_ok opt (s\<lparr>passed := x\<rparr>) = queue_ok opt s" "queue_ok opt (s\<lparr>closed := y\<rparr>) = queue_ok opt s"
  "queue_ok opt (s\<lparr>worker_pc := z\<rparr>) = queue_ok opt s"
  by (simp_all add: queue_ok_def)

lemma step_queue_ok:
  assumes "step gz opt s s'" and "queue_ok opt s"
  shows "queue_ok opt s'"
  using assms(1)
proof (cases rule: step.cases)
  case (log_unblocks b)
  with assms(2) show ?thesis by (auto simp: enqueue_def queue_ok_def)
next
  case (worker_starts)
  with flush_queue_ok [OF maybeSetFb_queue_ok [OF assms(2)]] show ?thesis by (simp add: queue_ok_frame)
qed (use assms(2) in \<open>auto simp: queue_ok_frame queueMessage_queue_ok flush_queue_ok intro: sendToCli_queue_ok\<close>)

lemma NewInstance_queue_ok:
  "cli_written c = [] \<Longrightarrow> queue_ok (setDefaults opt) (NewInstance c d)"
  by (simp add: queue_ok_def NewInstance_def setDefaults_def Let_def)

lemma reachable_queue_ok:
  assumes "(step gz opt)\<^sup>*\<^sup>* s s'" and "queue_ok opt s"
  shows "queue_ok opt s'"
  using assms by (induction rule: rtranclp_induct) (auto intro: step_queue_ok)

subsection \<open>The invariant of the fallback\<close>

text \<open>The entries that messages turn into when they are sent to the fallback buffer, each the list of its two writes.\<close>

definition strip_len :: "Options \<Rightarrow> nat" where
  "strip_len opt = nat (1 + strSize (len (opt_Tag opt)))"

definition fallback_entry :: "Options \<Rightarrow> bytes \<Rightarrow> bytes list" where
  "fallback_entry opt b = [[0x92], drop (strip_len opt) b]"

definition fallback_entries :: "Options \<Rightarrow> (bytes \<times> outcome) list \<Rightarrow> bytes list list" where
  "fallback_entries opt hs = map (\<lambda>h. fallback_entry opt (fst h)) (filter (\<lambda>h. snd h = ToFallback) hs)"

text \<open>The file \<open>z\<close> holds the entries \<open>b\<close>, the writes of which the compressor was given one after the other.\<close>

definition entries_file :: "'g gzip \<Rightarrow> bytes list list \<Rightarrow> bytes \<Rightarrow> bool" where
  "entries_file gz b z \<longleftrightarrow> gz_file gz (concat b) z"

definition fallback_ok :: "'g gzip \<Rightarrow> Options \<Rightarrow> bytes list multiset \<Rightarrow> 'g Instance \<Rightarrow> bool" where
  "fallback_ok gz opt M s \<longleftrightarrow> (\<exists>rs ws batches. holds gz (fallback s) (concat rs) (concat ws) \<and>
     list_all2 (entries_file gz) batches (cli_batches (cli s)) \<and>
     mset rs + mset ws + mset (concat batches) = M + mset (fallback_entries opt (handled s)))"

lemma strSize_nonneg: "0 \<le> n \<Longrightarrow> 0 < strSize n"
  by (simp add: strSize_def)

lemma sendToFallbackCli_ok:
  assumes "fallback_ok gz opt M s" and "sendToFallbackCli gz opt b s = Ret s'"
  shows "fallback_ok gz opt M s'"
proof -
  obtain rs ws batches where h: "holds gz (fallback s) (concat rs) (concat ws)" "list_all2 (entries_file gz) batches (cli_batches (cli s))"
    "mset rs + mset ws + mset (concat batches) = M + mset (fallback_entries opt (handled s))"
    using assms(1) by (auto simp: fallback_ok_def)
  obtain d1 where d1: "DirBuffer_Write gz [0x92] (fallback s) = (None, d1)" "holds gz d1 (concat rs) (concat ws @ [[0x92]])"
    using Write_holds [OF h(1)] by blast
  let ?r = "drop (strip_len opt) b"
  obtain d2 where d2: "DirBuffer_Write gz ?r d1 = (None, d2)" "holds gz d2 (concat rs) ((concat ws @ [[0x92]]) @ [?r])"
    using Write_holds [OF d1(2)] by blast
  from assms(2) have "s' = s\<lparr>fallback := d2, handled := handled s @ [(b, ToFallback)]\<rparr>"
    using d1(1) d2(1) strSize_nonneg [of "len (opt_Tag opt)"]
    by (auto simp: sendToFallbackCli_def Let_def bind_eq_Some_conv go_slice_def strip_len_def nat_diff_distrib split: if_splits)
  with h d2(2) show ?thesis
    unfolding fallback_ok_def
    by (intro exI [of _ rs] exI [of _ "ws @ [[[0x92], ?r]]"] exI [of _ batches]) (simp add: fallback_entries_def fallback_entry_def ac_simps)
qed

lemma sendToCli_fallback_ok:
  assumes "fallback_ok gz opt M s" and "sendToCli gz opt b s = Ret s'"
  shows "fallback_ok gz opt M s'"
proof (cases "fb s")
  case True
  with assms show ?thesis by (auto simp: sendToCli_def intro: sendToFallbackCli_ok)
next
  case False
  obtain ok c where w: "cli_Write b (cli s) = (ok, c)" by fastforce
  then have c: "cli_batches c = cli_batches (cli s)"
    by (auto simp: cli_Write_def cli_next_def split: list.splits if_splits)
  with assms(1) have f: "fallback_ok gz opt M (s\<lparr>cli := c, fb := True\<rparr>)" by (simp add: fallback_ok_def)
  have h: "fallback_ok gz opt M (s\<lparr>cli := c, handled := handled s @ [(b, r)]\<rparr>)" if "r \<noteq> ToFallback" for r
    using assms(1) c that by (simp add: fallback_ok_def fallback_entries_def)
  show ?thesis
    using assms(2) False w sendToFallbackCli_ok [OF f, of b s'] h [of Written] h [of Lost]
    by (auto simp: sendToCli_def Let_def split: if_splits)
qed

lemma sendToCli_fallback_ok_queue:
  "fallback_ok gz opt M s \<Longrightarrow> sendToCli gz opt b (s\<lparr>queue := q\<rparr>) = Ret s' \<Longrightarrow> fallback_ok gz opt M s'"
  by (rule sendToCli_fallback_ok [of gz opt M "s\<lparr>queue := q\<rparr>"]) (simp_all add: fallback_ok_def)

lemma fallback_Reader_ok:
  assumes "fallback_ok gz opt M s"
  shows "fallback_ok gz opt M (snd (fallback_Reader gz s))"
proof -
  obtain rs ws batches where h: "holds gz (fallback s) (concat rs) (concat ws)" "list_all2 (entries_file gz) batches (cli_batches (cli s))"
    "mset rs + mset ws + mset (concat batches) = M + mset (fallback_entries opt (handled s))"
    using assms(1) by (auto simp: fallback_ok_def)
  from Reader_holds [OF h(1), of cli_WriteBatch "cli s"] show ?thesis
  proof (elim disjE exE conjE)
    fix d'
    assume "DirBuffer_Reader gz cli_WriteBatch (fallback s) (cli s) = (Some ErrNotExist, d', cli s)" "holds gz d' (concat ws) (concat rs)"
    with h show ?thesis unfolding fallback_ok_def fallback_Reader_def
      by (intro exI [of _ ws] exI [of _ rs] exI [of _ batches]) (simp add: ac_simps)
  next
    fix z e d' c'
    assume r: "gz_file gz (concat ws) z" "cli_WriteBatch (len z) z (cli s) = (e, c')"
      "DirBuffer_Reader gz cli_WriteBatch (fallback s) (cli s) = (e, d', c')" "holds gz d' (if e = None then [] else concat ws) (concat rs)"
    from r(2) have c: "cli_batches c' = cli_batches (cli s) @ (if e = None then [z] else [])"
      by (auto simp: cli_WriteBatch_def cli_next_def split: list.splits if_splits)
    let ?rs = "if e = None then [] else ws" and ?b = "batches @ (if e = None then [ws] else [])"
    have "list_all2 (entries_file gz) ?b (cli_batches c')" using h(2) r(1) c by (auto simp: entries_file_def intro: list_all2_appendI)
    with h(3) r(3,4) show ?thesis unfolding fallback_ok_def fallback_Reader_def
      by (intro exI [of _ ?rs] exI [of _ rs] exI [of _ ?b]) (auto simp: ac_simps)
  qed
qed

lemma fallback_ok_frame:
  "fallback_ok gz opt M (s\<lparr>passed := x\<rparr>) = fallback_ok gz opt M s" "fallback_ok gz opt M (s\<lparr>closed := y\<rparr>) = fallback_ok gz opt M s"
  "fallback_ok gz opt M (s\<lparr>worker_pc := z\<rparr>) = fallback_ok gz opt M s" "fallback_ok gz opt M (s\<lparr>fb := f\<rparr>) = fallback_ok gz opt M s"
  "fallback_ok gz opt M (s\<lparr>queue := q\<rparr>) = fallback_ok gz opt M s" "fallback_ok gz opt M (s\<lparr>blocked := k\<rparr>) = fallback_ok gz opt M s"
  "fallback_ok gz opt M (s\<lparr>dropped := k\<rparr>) = fallback_ok gz opt M s" "fallback_ok gz opt M (s\<lparr>accepted := k\<rparr>) = fallback_ok gz opt M s"
  by (simp_all add: fallback_ok_def)

lemma flush_fallback_ok:
  assumes "fallback_ok gz opt M s"
  shows "fallback_ok gz opt M (snd (flushFallbackToCli gz s))"
proof -
  obtain e1 s1 where 1: "fallback_Reader gz s = (e1, s1)" by fastforce
  obtain e2 c2 where 2: "cli_Reconnect (cli s1) = (e2, c2)" by fastforce
  obtain e3 s3 where 3: "fallback_Reader gz (s1\<lparr>cli := c2\<rparr>) = (e3, s3)" by fastforce
  have f1: "fallback_ok gz opt M s1" using fallback_Reader_ok [OF assms] 1 by simp
  have "cli_batches c2 = cli_batches (cli s1)"
    using 2 by (auto simp: cli_Reconnect_def cli_next_def split: list.splits)
  with f1 have f2: "fallback_ok gz opt M (s1\<lparr>cli := c2\<rparr>)" by (simp add: fallback_ok_def)
  have f3: "fallback_ok gz opt M s3" using fallback_Reader_ok [OF f2] 3 by simp
  show ?thesis
    using assms 1 2 3 f1 f2 f3 by (cases e1; cases e2; cases e3) (simp_all add: flushFallbackToCli_def fallback_ok_frame)
qed

lemma maybeSetFb_fallback_ok:
  assumes "fallback_ok gz opt M s" and "gz_nonempty gz"
  shows "fallback_ok gz opt M (snd (maybeSetFb gz opt s))"
proof -
  obtain rs ws batches where h: "holds gz (fallback s) (concat rs) (concat ws)" "list_all2 (entries_file gz) batches (cli_batches (cli s))"
    "mset rs + mset ws + mset (concat batches) = M + mset (fallback_entries opt (handled s))"
    using assms(1) by (auto simp: fallback_ok_def)
  obtain ok d where d: "HasData gz (fallback s) = (ok, None, d)" "holds gz d [] (concat ws @ concat rs)"
    using HasData_holds [OF h(1) assms(2)] by blast
  then have "fallback_ok gz opt M (s\<lparr>fb := ok, fallback := d\<rparr>)"
    using h(2,3) unfolding fallback_ok_def
    by (intro exI [of _ "[]"] exI [of _ "ws @ rs"] exI [of _ batches]) (simp add: ac_simps)
  with assms(1) d(1) show ?thesis by (simp add: maybeSetFb_def)
qed

lemma step_fallback_ok:
  assumes "step gz opt s s'" and "fallback_ok gz opt M s" and "gz_nonempty gz"
  shows "fallback_ok gz opt M s'"
  using assms(1)
proof (cases rule: step.cases)
  case (worker_starts)
  with flush_fallback_ok [OF maybeSetFb_fallback_ok [OF assms(2,3)]] show ?thesis by (simp add: fallback_ok_frame)
next
  case (log_queues b)
  with assms(2) show ?thesis
    by (cases "opt_WriteBehavior opt") (simp_all add: queueMessage_def enqueue_def fallback_ok_frame)
qed (use assms(2) in \<open>auto simp: fallback_ok_frame enqueue_def flush_fallback_ok intro: sendToCli_fallback_ok_queue\<close>)

lemma reachable_fallback_ok:
  assumes "(step gz opt)\<^sup>*\<^sup>* s s'" and "fallback_ok gz opt M s" and "gz_nonempty gz"
  shows "fallback_ok gz opt M s'"
  using assms by (induction rule: rtranclp_induct) (auto intro: step_fallback_ok)

subsection \<open>Closing\<close>

lemma sendToFallbackCli_returns:
  assumes "strip_len opt \<le> length b"
  shows "\<exists>s'. sendToFallbackCli gz opt b s = Ret s'"
proof -
  have "go_slice b (1 + strSize (len (opt_Tag opt))) (len b) \<noteq> Panic"
    using assms strSize_nonneg [of "len (opt_Tag opt)"] by (simp add: go_slice_def strip_len_def)
  then show ?thesis unfolding sendToFallbackCli_def Let_def case_prod_beta by auto
qed

lemma sendToCli_returns: "strip_len opt \<le> length b \<Longrightarrow> \<exists>s'. sendToCli gz opt b s = Ret s'"
  by (auto simp: sendToCli_def Let_def sendToFallbackCli_returns split: prod.split)

lemma receive_run:
  assumes "worker_pc s = Poll \<or> worker_pc s = Drain" and "\<forall>b \<in> set (queue s). strip_len opt \<le> length b"
  shows "\<exists>s'. (step gz opt)\<^sup>*\<^sup>* s s' \<and> worker_pc s' = worker_pc s \<and> closed s' = closed s \<and> queue s' = [] \<and>
    map fst (handled s') = map fst (handled s) @ queue s"
  using assms
proof (induction "length (queue s)" arbitrary: s)
  case 0
  then show ?case by (intro exI [of _ s]) simp
next
  case (Suc n)
  then obtain b q where q: "queue s = b # q" "n = length q" by (cases "queue s") auto
  then obtain s1 where s1: "sendToCli gz opt b (s\<lparr>queue := q\<rparr>) = Ret s1"
    using sendToCli_returns [of opt b gz "s\<lparr>queue := q\<rparr>"] Suc.prems(2) by auto
  then obtain r d c f where f: "s1 = s\<lparr>queue := q\<rparr>\<lparr>fb := f, cli := c, fallback := d, handled := handled (s\<lparr>queue := q\<rparr>) @ [(b, r)]\<rparr>"
    by (rule sendToCli_frame)
  have st: "step gz opt s s1"
    using Suc.prems(1) q(1) s1 by (auto intro: drain_receives poll_receives)
  have "\<exists>s'. (step gz opt)\<^sup>*\<^sup>* s1 s' \<and> worker_pc s' = worker_pc s1 \<and> closed s' = closed s1 \<and> queue s' = [] \<and>
      map fst (handled s') = map fst (handled s1) @ queue s1"
    using Suc.prems q f by (intro Suc.hyps(1)) simp_all
  then obtain s' where "(step gz opt)\<^sup>*\<^sup>* s1 s'" "worker_pc s' = worker_pc s1" "closed s' = closed s1" "queue s' = []"
    "map fst (handled s') = map fst (handled s1) @ queue s1" by blast
  with st f q show ?case by (intro exI [of _ s']) (simp add: converse_rtranclp_into_rtranclp)
qed

lemma drain_run:
  assumes "worker_pc s = Drain" and "\<forall>b \<in> set (queue s). strip_len opt \<le> length b"
  shows "\<exists>s'. (step gz opt)\<^sup>*\<^sup>* s s' \<and> worker_pc s' = Stopped \<and> queue s' = [] \<and> map fst (handled s') = map fst (handled s) @ queue s"
proof -
  obtain s' where s': "(step gz opt)\<^sup>*\<^sup>* s s'" "worker_pc s' = Drain" "queue s' = []" "map fst (handled s') = map fst (handled s) @ queue s"
    using receive_run [of s opt gz] assms by auto
  have "step gz opt s' (s'\<lparr>worker_pc := Stopped\<rparr>)" using s'(2,3) by (rule drain_ends)
  with s' show ?thesis by (intro exI [of _ "s'\<lparr>worker_pc := Stopped\<rparr>"]) simp
qed

lemma wait_run:
  assumes "worker_pc s = Wait" and "closed s" and "\<forall>b \<in> set (queue s). strip_len opt \<le> length b"
  shows "\<exists>s'. (step gz opt)\<^sup>*\<^sup>* s s' \<and> worker_pc s' = Stopped \<and> queue s' = [] \<and> map fst (handled s') = map fst (handled s) @ queue s"
proof -
  have "step gz opt s (s\<lparr>worker_pc := Drain\<rparr>)" using assms(1,2) by (rule wait_closed)
  with drain_run [of "s\<lparr>worker_pc := Drain\<rparr>" opt gz] assms(3) show ?thesis
    by (auto intro: converse_rtranclp_into_rtranclp)
qed

lemma poll_run:
  assumes "worker_pc s = Poll" and "closed s" and "\<forall>b \<in> set (queue s). strip_len opt \<le> length b"
  shows "\<exists>s'. (step gz opt)\<^sup>*\<^sup>* s s' \<and> worker_pc s' = Stopped \<and> queue s' = [] \<and> map fst (handled s') = map fst (handled s) @ queue s"
proof -
  obtain s1 where s1: "(step gz opt)\<^sup>*\<^sup>* s s1" "worker_pc s1 = Poll" "closed s1" "queue s1 = []" "map fst (handled s1) = map fst (handled s) @ queue s"
    using receive_run [of s opt gz] assms by auto
  have st: "step gz opt s1 (s1\<lparr>worker_pc := Wait\<rparr>)" using s1(2,4) by (rule poll_empty)
  obtain s2 where "(step gz opt)\<^sup>*\<^sup>* (s1\<lparr>worker_pc := Wait\<rparr>) s2" "worker_pc s2 = Stopped" "queue s2 = []" "map fst (handled s2) = map fst (handled s1)"
    using wait_run [of "s1\<lparr>worker_pc := Wait\<rparr>" opt gz] s1(3,4) by auto
  with s1 st show ?thesis by (metis converse_rtranclp_into_rtranclp rtranclp_trans)
qed

lemma stopped_step:
  assumes "step gz opt s s'" and "worker_pc s = Stopped"
  shows "worker_pc s' = Stopped \<and> handled s' = handled s \<and> cli s' = cli s \<and> fallback s' = fallback s"
  using assms(1)
  by (cases rule: step.cases)
    (use assms(2) in \<open>auto simp: queueMessage_def enqueue_def split: WriteBehavior.split\<close>)

lemma stopped_forever:
  assumes "(step gz opt)\<^sup>*\<^sup>* s s'" and "worker_pc s = Stopped"
  shows "worker_pc s' = Stopped \<and> handled s' = handled s \<and> cli s' = cli s \<and> fallback s' = fallback s"
  using assms by (induction rule: rtranclp_induct) (auto dest: stopped_step)

subsection \<open>Entries of the fallback buffer\<close>

lemma length_AppendString: "len (AppendString [] s) = strSize (len s)"
  by (simp add: AppendString_def strSize_def Let_def)

lemma entry_head_split: "entry_head tag t = 0x93 # AppendString [] tag @ AppendTimestamp [] t [TsFluentd]"
  by (simp add: entry_head_def AppendArrayHeader_def ibyte_at_def AppendString_prefix [of "[0x93]"]
      AppendTimestamp_prefix [of "0x93 # AppendString [] tag"])

lemma strip_entry:
  "drop (strip_len opt) (entry (entry_head (opt_Tag opt) t) n body) = AppendTimestamp [] t [TsFluentd] @ 0xde # 0 # n # body"
  "strip_len opt \<le> length (entry (entry_head (opt_Tag opt) t) n body)"
proof -
  have "strip_len opt = length (0x93 # AppendString [] (opt_Tag opt))"
    unfolding strip_len_def length_AppendString [symmetric] by simp
  then show "drop (strip_len opt) (entry (entry_head (opt_Tag opt) t) n body) = AppendTimestamp [] t [TsFluentd] @ 0xde # 0 # n # body"
    "strip_len opt \<le> length (entry (entry_head (opt_Tag opt) t) n body)"
    by (simp_all add: entry_def entry_head_split)
qed

lemma fallback_entry_wire:
  assumes "ts_valid [TsFluentd] t" and "pairs_wire kvs body" and "length kvs < 256"
  shows "wire (MArray [MTime t [TsFluentd], MMap kvs]) (concat (fallback_entry opt (entry (entry_head (opt_Tag opt) t) (of_nat (length kvs)) body)))"
proof -
  have "wire (MTime t [TsFluentd]) (AppendTimestamp [] t [TsFluentd])"
    using encode_wire [of "MTime t [TsFluentd]"] assms(1) by (simp add: ts_format_def)
  moreover have "wire (MMap kvs) (0xde # 0 # of_nat (length kvs) # body)"
    using wire_entry_map [OF assms(2,3) refl] .
  moreover have "header 0x92 [] ArrayT (len [MTime t [TsFluentd], MMap kvs]) 2"
    using Get_fix_header(3) [of 2] by (simp add: header_def ibyte_at_def)
  ultimately show ?thesis
    using wire_array [of "0x92" "[]" "[MTime t [TsFluentd], MMap kvs]" 2 "[AppendTimestamp [] t [TsFluentd], 0xde # 0 # of_nat (length kvs) # body]"]
      strip_entry(1) by (simp add: fallback_entry_def)
qed

subsection \<open>Properties\<close>

text \<open>
  C11. \<^bold>\<open>The queue is a bounded FIFO.\<close> In every reachable state the messages accepted so far are
  those handled by the worker, in that order, followed by those in the queue, which holds at most
  \<open>BufferSize\<close>; the client has received exactly the handled messages that count as written. A
  message is dropped only under \<open>Loose\<close>; a log call waits for room only under \<open>Block\<close> and under \<open>Fallback\<close>, although the
  documentation says that a full queue does not block under \<open>Fallback\<close> but goes to the disk; and
  under \<open>Fallback\<close> no message is given up because the client failed.
\<close>

theorem queue_is_fifo:
  assumes "(step gz (setDefaults opt))\<^sup>*\<^sup>* (NewInstance c d) s" and "cli_written c = []"
  shows "accepted s = map fst (handled s) @ queue s \<and>
     len (queue s) \<le> opt_BufferSize (setDefaults opt) \<and>
     cli_written (cli s) = map fst (filter (\<lambda>h. snd h = Written) (handled s)) \<and>
     (dropped s \<noteq> [] \<longrightarrow> opt_WriteBehavior opt = Loose) \<and>
     (blocked s \<noteq> [] \<longrightarrow> opt_WriteBehavior opt \<noteq> Loose) \<and>
     (\<forall>h \<in> set (handled s). snd h = Lost \<longrightarrow> opt_WriteBehavior opt \<noteq> Fallback)"
proof -
  have "opt_WriteBehavior (setDefaults opt) = opt_WriteBehavior opt" by (simp add: setDefaults_def Let_def)
  with reachable_queue_ok [OF assms(1) NewInstance_queue_ok [OF assms(2)]] show ?thesis by (simp add: queue_ok_def)
qed

definition block_opt :: Options where
  "block_opt = \<lparr>opt_Tag = [0x74], opt_BufferSize = 1, opt_WriteBehavior = Block, opt_StackTraceThreshold = ERR\<rparr>"

definition idle_client :: client where
  "idle_client = \<lparr>cli_results = [], cli_written = [], cli_batches = [], cli_Reconnector = True\<rparr>"

theorem queue_is_fifo_witness:
  "\<forall>gz :: unit gzip. \<forall>d. \<exists>s. (step gz (setDefaults block_opt))\<^sup>*\<^sup>* (NewInstance idle_client d) s \<and> accepted s = [[1], [2]] \<and>
     handled s = [([1], Written)] \<and> accepted s = map fst (handled s) @ queue s \<and> cli_written (cli s) = [[1]]"
proof (intro allI)
  fix gz :: "unit gzip" and d
  let ?o = "setDefaults block_opt"
  let ?s0 = "NewInstance idle_client d :: unit Instance"
  let ?s1 = "?s0\<lparr>passed := [[2 :: byte]]\<rparr>"
  let ?s2 = "?s1\<lparr>passed := [[1], [2]]\<rparr>"
  let ?s3 = "?s2\<lparr>passed := [[2]], queue := [[1]], accepted := [[1]]\<rparr>"
  let ?s4 = "?s3\<lparr>passed := [], blocked := [[2]]\<rparr>"
  let ?s5 = "?s4\<lparr>worker_pc := Poll\<rparr>"
  let ?s6 = "?s5\<lparr>queue := [], cli := idle_client\<lparr>cli_written := [[1]]\<rparr>, handled := [([1], Written)]\<rparr>"
  let ?s7 = "?s6\<lparr>blocked := [], queue := [[2]], accepted := [[1], [2]]\<rparr>"
  note defs = setDefaults_def block_opt_def NewInstance_def idle_client_def queueMessage_def enqueue_def
  have "step gz ?o ?s0 ?s1" using log_passes [of ?s0 gz ?o "[2]"] by (simp add: defs)
  moreover have "step gz ?o ?s1 ?s2" using log_passes [of ?s1 gz ?o "[1]"] by (simp add: defs)
  moreover have "step gz ?o ?s2 ?s3" using log_queues [of "[1]" ?s2 gz ?o] by (simp add: defs)
  moreover have "step gz ?o ?s3 ?s4" using log_queues [of "[2]" ?s3 gz ?o] by (simp add: defs)
  moreover have "step gz ?o ?s4 ?s5"
    using worker_starts [of ?s4 gz ?o] by (simp add: defs maybeSetFb_def flushFallbackToCli_def)
  moreover have "step gz ?o ?s5 ?s6"
    using poll_receives [of ?s5 "[1]" "[]" gz ?o ?s6] by (simp add: defs sendToCli_def cli_Write_def cli_next_def)
  moreover have "step gz ?o ?s6 ?s7" using log_unblocks [of "[2]" ?s6 ?o gz] by (simp add: defs)
  ultimately have r: "(step gz ?o)\<^sup>*\<^sup>* ?s0 ?s7" by (meson converse_rtranclp_into_rtranclp rtranclp.rtrancl_refl)
  have "cli_written idle_client = []" by (simp add: idle_client_def)
  from queue_is_fifo [OF r this] r show "\<exists>s. (step gz ?o)\<^sup>*\<^sup>* ?s0 s \<and> accepted s = [[1], [2]] \<and>
     handled s = [([1], Written)] \<and> accepted s = map fst (handled s) @ queue s \<and> cli_written (cli s) = [[1]]"
    by (intro exI [of _ ?s7]) (simp add: idle_client_def)
qed

text \<open>
  C5. \<^bold>\<open>With the fallback, nothing is lost.\<close> Under \<open>Fallback\<close>, and while the disk works, every
  message accepted is still in the queue, was written by the client, or was turned into an entry
  of the fallback buffer: and the entries that the buffer held at the start and received since are
  exactly those it still holds and those of the batches that the client accepted, whatever failures
  of the client, flushes and reconnections came between.
\<close>

theorem fallback_loses_nothing:
  assumes "(step gz opt)\<^sup>*\<^sup>* (NewInstance c d) s" and "0 \<le> opt_BufferSize opt" and "opt_WriteBehavior opt = Fallback" and "cli_written c = []" and "cli_batches c = []"
    and "holds gz d (concat rs0) (concat ws0)" and "gz_nonempty gz"
  shows "accepted s = map fst (handled s) @ queue s \<and> dropped s = [] \<and>
    (\<forall>h \<in> set (handled s). snd h = Written \<or> snd h = ToFallback) \<and>
    cli_written (cli s) = map fst (filter (\<lambda>h. snd h = Written) (handled s)) \<and>
    (\<exists>rs ws batches. holds gz (fallback s) (concat rs) (concat ws) \<and> list_all2 (entries_file gz) batches (cli_batches (cli s)) \<and>
       mset rs + mset ws + mset (concat batches) = mset rs0 + mset ws0 + mset (fallback_entries opt (handled s)))"
proof -
  have "queue_ok opt (NewInstance c d)" using assms(2,4) by (simp add: queue_ok_def NewInstance_def)
  from reachable_queue_ok [OF assms(1) this] have q: "queue_ok opt s" .
  have "fallback_ok gz opt (mset rs0 + mset ws0) (NewInstance c d)"
    unfolding fallback_ok_def using assms(5,6)
    by (intro exI [of _ rs0] exI [of _ ws0] exI [of _ "[]"]) (simp add: NewInstance_def fallback_entries_def)
  from reachable_fallback_ok [OF assms(1) this assms(7)] have f: "fallback_ok gz opt (mset rs0 + mset ws0) s" .
  have "snd h = Written \<or> snd h = ToFallback" if "h \<in> set (handled s)" for h
    using q that assms(3) by (cases "snd h") (auto simp: queue_ok_def)
  with q f assms(3) show ?thesis by (auto simp: queue_ok_def fallback_ok_def)
qed

text \<open>
  \<^bold>\<open>Entries of the fallback are Forward entries.\<close> What \<open>sendToFallbackCli\<close> writes for a
  message as \<open>log\<close>, \<open>metrics\<close> and the slog handler build it, an array header of two items and the
  message without its own header and tag, is the encoding of the pair of its time and its record.
\<close>

theorem fallback_entry_wellformed:
  assumes "ts_valid [TsFluentd] t" and "pairs_wire kvs body" and "length kvs < 256"
    and "b = entry (entry_head (opt_Tag opt) t) (of_nat (length kvs)) body"
  shows "\<exists>s'. sendToFallbackCli gz opt b s = Ret s' \<and>
    fallback_entries opt [(b, ToFallback)] = [[[0x92], drop (strip_len opt) b]] \<and>
    wire (MArray [MTime t [TsFluentd], MMap kvs]) ([0x92] @ drop (strip_len opt) b)"
  using sendToFallbackCli_returns [OF strip_entry(2)] fallback_entry_wire [OF assms(1-3), of opt] assms(4)
  by (simp add: fallback_entries_def fallback_entry_def)

text \<open>
  C33. \<^bold>\<open>After a reconnection the flush sends the wrong file.\<close> When the client refuses the batch of
  the current entries \<open>ws\<close>, reconnects and then works, the second \<open>Reader\<close> call has switched the
  files again: it sends only what an earlier flush had left behind (often nothing), while \<open>ws\<close> stays
  on disk. The flush reports success and clears the flag, so \<open>ws\<close> waits until the client fails again
  or the program restarts.
\<close>

theorem flush_after_reconnect_skips_entries:
  assumes "fb s" and "holds gz (fallback s) rs ws"
    and "files (d_os (fallback s)) (wName (fallback s)) \<noteq> None" and "files (d_os (fallback s)) (rName (fallback s)) \<noteq> None"
    and "cli_Reconnector (cli s)" and "cli_results (cli s) = False # True # True # oks"
  shows "\<exists>s' z. flushFallbackToCli gz s = (None, s') \<and> \<not> fb s' \<and> gz_file gz rs z \<and>
    cli_batches (cli s') = cli_batches (cli s) @ [z] \<and> holds gz (fallback s') [] ws"
proof -
  let ?d = "fallback s" and ?c = "cli s"
  have w1: "cli_WriteBatch n z ?c = (Some ErrIO, ?c\<lparr>cli_results := True # True # oks\<rparr>)" for n z
    using assms(6) by (simp add: cli_WriteBatch_def cli_next_def)
  let ?c1 = "?c\<lparr>cli_results := True # True # oks\<rparr>"
  obtain d1 where 1: "DirBuffer_Reader gz cli_WriteBatch ?d ?c = (Some ErrIO, d1, ?c1)" "holds gz d1 ws rs"
    "wName d1 = rName ?d" "files (d_os d1) (rName ?d) \<noteq> None"
    using Reader_offers [OF assms(2,3), of cli_WriteBatch ?c] assms(4) w1 by auto
  have 2: "cli_Reconnect ?c1 = (None, ?c1\<lparr>cli_results := True # oks\<rparr>)"
    by (simp add: cli_Reconnect_def cli_next_def)
  let ?c2 = "?c\<lparr>cli_results := True # oks\<rparr>"
  have w2: "cli_WriteBatch n z ?c2 = (None, ?c\<lparr>cli_results := oks, cli_batches := cli_batches ?c @ [z]\<rparr>)" for n z
    by (simp add: cli_WriteBatch_def cli_next_def)
  obtain z d2 where 3: "gz_file gz rs z" "DirBuffer_Reader gz cli_WriteBatch d1 ?c2 = (None, d2, ?c\<lparr>cli_results := oks, cli_batches := cli_batches ?c @ [z]\<rparr>)"
    "holds gz d2 [] ws"
    using Reader_offers [OF 1(2), of cli_WriteBatch ?c2] 1(3,4) w2 by auto
  show ?thesis
    using assms(1,5) 1(1) 2 3
    by (intro exI [of _ "s\<lparr>fallback := d2, cli := ?c\<lparr>cli_results := oks, cli_batches := cli_batches ?c @ [z]\<rparr>, fb := False\<rparr>"] exI [of _ z])
      (simp add: flushFallbackToCli_def fallback_Reader_def)
qed

theorem flush_after_reconnect_skips_entries_witness:
  "\<exists>s s' z. fb s \<and> holds store_gz (fallback s) [] [[7]] \<and> flushFallbackToCli store_gz s = (None, s') \<and> \<not> fb s' \<and>
    gz_file store_gz [] z \<and> cli_batches (cli s') = [z] \<and> holds store_gz (fallback s') [] [[7]]"
proof -
  let ?c = "idle_client\<lparr>cli_results := [False, True, True]\<rparr>"
  let ?d = "\<lparr>rName = [1], wName = [2], readFile = None, writeFile = None, writeGz = None,
    d_os = \<lparr>files = [[1] \<mapsto> [], [2] \<mapsto> [7, 0]], faults = []\<rparr>\<rparr> :: unit DirBuffer"
  let ?s = "(NewInstance ?c ?d)\<lparr>fb := True\<rparr>"
  have "gz_file store_gz [[7]] [7, 0]"
    using gz_file_member [OF gz_file_Nil, of store_gz "[[7]]"] by (simp add: gz_member_def store_gz_def)
  then have h: "holds store_gz (fallback ?s) [] [[7]]"
    by (simp add: NewInstance_def holds_def content_def)
  obtain s' z where "flushFallbackToCli store_gz ?s = (None, s')" "\<not> fb s'" "gz_file store_gz [] z"
    "cli_batches (cli s') = cli_batches (cli ?s) @ [z]" "holds store_gz (fallback s') [] [[7]]"
    using flush_after_reconnect_skips_entries [OF _ h, of "[]"] by (auto simp: NewInstance_def idle_client_def)
  moreover have "fb ?s" "cli_batches (cli ?s) = []" by (simp_all add: NewInstance_def idle_client_def)
  ultimately show ?thesis using h by (metis append_Nil)
qed

lemma close_run:
  assumes "closed s" and "worker_pc s = Poll \<or> worker_pc s = Wait \<or> worker_pc s = Drain"
    and "\<forall>b \<in> set (queue s). strip_len opt \<le> length b"
  obtains s' where "(step gz opt)\<^sup>*\<^sup>* s s'" "worker_pc s' = Stopped" "queue s' = []" "map fst (handled s') = map fst (handled s) @ queue s"
proof -
  consider "worker_pc s = Poll" | "worker_pc s = Wait" | "worker_pc s = Drain" using assms(2) by (elim disjE)
  then show thesis
  proof cases
    case 1 with poll_run [OF _ assms(1,3)] that show thesis by metis
  next
    case 2 with wait_run [OF _ assms(1,3)] that show thesis by metis
  next
    case 3 with drain_run [OF _ assms(3)] that show thesis by metis
  qed
qed

text \<open>
  \<^bold>\<open>Close drains the queue, and the worker then stops for good.\<close> Once the instance is closed,
  the worker's own transitions lead from any of its states to the end of its loop with an empty queue
  and every accepted message handled, as long as no message is shorter than its own header and tag.
  After that nothing changes any more: a message whose log call had passed its check before \<open>Close\<close>
  and is queued then is never sent, under \<open>Block\<close> too.
\<close>

theorem Close_drains:
  assumes "closed s" and "worker_pc s = Poll \<or> worker_pc s = Wait \<or> worker_pc s = Drain"
    and "\<forall>b \<in> set (queue s). strip_len opt \<le> length b"
  shows "\<exists>s'. (step gz opt)\<^sup>*\<^sup>* s s' \<and> worker_pc s' = Stopped \<and> queue s' = [] \<and>
    map fst (handled s') = map fst (handled s) @ queue s \<and>
    (\<forall>s''. (step gz opt)\<^sup>*\<^sup>* s' s'' \<longrightarrow> handled s'' = handled s' \<and> cli s'' = cli s' \<and> fallback s'' = fallback s')"
proof -
  obtain s' where s': "(step gz opt)\<^sup>*\<^sup>* s s'" "worker_pc s' = Stopped" "queue s' = []" "map fst (handled s') = map fst (handled s) @ queue s"
    using assms by (rule close_run)
  have "handled s'' = handled s' \<and> cli s'' = cli s' \<and> fallback s'' = fallback s'" if "(step gz opt)\<^sup>*\<^sup>* s' s''" for s''
    using stopped_forever [OF that s'(2)] by (elim conjE) (intro conjI)
  then have "\<forall>s''. (step gz opt)\<^sup>*\<^sup>* s' s'' \<longrightarrow> handled s'' = handled s' \<and> cli s'' = cli s' \<and> fallback s'' = fallback s'" by blast
  with s' show ?thesis by (intro exI [of _ s'] conjI)
qed

theorem Close_drains_witness:
  "\<exists>s'. (step store_gz block_opt)\<^sup>*\<^sup>* ((NewInstance idle_client (NewDirBuffer \<lparr>files = Map.empty, faults = []\<rparr> []))
      \<lparr>closed := True, worker_pc := Poll, queue := [[0x93, 0xa1, 0x74, 1]]\<rparr>) s' \<and> worker_pc s' = Stopped \<and>
    map fst (handled s') = [[0x93, 0xa1, 0x74, 1]]"
proof -
  let ?s = "(NewInstance idle_client (NewDirBuffer \<lparr>files = Map.empty, faults = []\<rparr> []))
      \<lparr>closed := True, worker_pc := Poll, queue := [[0x93, 0xa1, 0x74, 1]]\<rparr> :: unit Instance"
  have "closed ?s" "worker_pc ?s = Poll \<or> worker_pc ?s = Wait \<or> worker_pc ?s = Drain" "\<forall>b \<in> set (queue ?s). strip_len block_opt \<le> length b"
    "map fst (handled ?s) @ queue ?s = [[0x93, 0xa1, 0x74, 1]]"
    by (simp_all add: NewInstance_def strip_len_def strSize_def block_opt_def)
  note q = this
  from Close_drains [OF q(1-3), of store_gz] show ?thesis
    unfolding q(4) by (elim exE conjE) (intro exI conjI)
qed

theorem fallback_loses_nothing_witness:
  "\<exists>s. (step store_gz (block_opt\<lparr>opt_WriteBehavior := Fallback\<rparr>))\<^sup>*\<^sup>*
      (NewInstance idle_client (NewDirBuffer \<lparr>files = Map.empty, faults = []\<rparr> [])) s \<and> passed s = [[1]] \<and> dropped s = [] \<and>
    (\<exists>rs ws batches. holds store_gz (fallback s) (concat rs) (concat ws) \<and> list_all2 (entries_file store_gz) batches (cli_batches (cli s)) \<and>
       mset rs + mset ws + mset (concat batches) = {#})"
proof -
  let ?o = "block_opt\<lparr>opt_WriteBehavior := Fallback\<rparr>" and ?d = "NewDirBuffer \<lparr>files = Map.empty, faults = []\<rparr> [] :: unit DirBuffer"
  let ?s = "(NewInstance idle_client ?d)\<lparr>passed := [[1]]\<rparr>"
  have "step store_gz ?o (NewInstance idle_client ?d) ?s"
    using log_passes [of "NewInstance idle_client ?d" store_gz ?o "[1]"] by (simp add: NewInstance_def)
  then have r: "(step store_gz ?o)\<^sup>*\<^sup>* (NewInstance idle_client ?d) ?s" by simp
  have h: "holds store_gz ?d (concat []) (concat [])" unfolding concat.simps by (rule new_buffers_hold) simp_all
  have n: "gz_nonempty store_gz"
    by (simp add: gz_nonempty_def gz_member_def store_gz_def Let_def split: prod.split)
  have "0 \<le> opt_BufferSize ?o" "opt_WriteBehavior ?o = Fallback" "cli_written idle_client = []" "cli_batches idle_client = []"
    by (simp_all add: block_opt_def idle_client_def)
  from fallback_loses_nothing [OF r this h n] r show ?thesis
    by (intro exI [of _ ?s]) (simp add: NewInstance_def fallback_entries_def)
qed

theorem fallback_entry_wellformed_witness:
  "\<exists>b s'. sendToFallbackCli store_gz block_opt b (NewInstance idle_client (NewDirBuffer \<lparr>files = Map.empty, faults = []\<rparr> [])) = Ret s' \<and>
    wire (MArray [MTime (time_Unix 5 0) [TsFluentd], MMap []]) ([0x92] @ drop (strip_len block_opt) b)"
proof -
  have "ts_valid [TsFluentd] (time_Unix 5 0)"
    by (simp add: ts_valid_def ts_format_def time_Unix_def time_ok_def)
  from fallback_entry_wellformed [OF this pairs_wire_Nil, of _ block_opt store_gz] show ?thesis by fastforce
qed

end
