(* ===== verification/Shutdown.thy ===== *)
theory Shutdown
  imports Queue
begin

text \<open>
  \<open>Instance.Close\<close> as a whole, and what it leaves to the next run of the program. The goroutine that calls
  \<open>Close\<close> is a third one beside the log calls and the worker of \<open>Queue\<close>: it closes the channel,
  waits for the worker, then closes the fallback buffer and the client.
\<close>

subsection \<open>Instance.Close\<close>

text \<open>Closing a closed channel panics.\<close>

definition Close_call :: "'g Instance \<Rightarrow> 'g Instance go" where
  "Close_call s = (if closed s then Panic else Ret (s\<lparr>closed := True\<rparr>))"

definition cli_Close :: "client \<Rightarrow> os_err option \<times> client" where
  "cli_Close c = (let (ok, c) = cli_next c in (if ok then None else Some ErrIO, c))"

text \<open>What follows \<open>inst.wg.Wait()\<close>; \<open>isCloser\<close> is the outcome of the type assertion on the client.\<close>

definition Close_rest :: "'g gzip \<Rightarrow> bool \<Rightarrow> bool \<Rightarrow> 'g Instance \<Rightarrow> os_err option \<times> 'g Instance" where
  "Close_rest gz hasFallback isCloser s =
     (let (err, s) = (if hasFallback then let (e, d) = DirBuffer_Close gz (fallback s) in (e, s\<lparr>fallback := d\<rparr>) else (None, s)) in
      if err \<noteq> None then (err, s)
      else if isCloser then let (e, c) = cli_Close (cli s) in (e, s\<lparr>cli := c\<rparr>) else (None, s))"

datatype closer = Before | Waiting | Returned "os_err option"

inductive close_step :: "'g gzip \<Rightarrow> Options \<Rightarrow> bool \<Rightarrow> bool \<Rightarrow> closer \<times> 'g Instance \<Rightarrow> closer \<times> 'g Instance \<Rightarrow> bool"
  for gz opt hasFallback isCloser where
  others: "step gz opt s s' \<Longrightarrow> closed s' = closed s \<Longrightarrow> close_step gz opt hasFallback isCloser (p, s) (p, s')"
| calls: "Close_call s = Ret s' \<Longrightarrow> close_step gz opt hasFallback isCloser (Before, s) (Waiting, s')"
| returns: "worker_pc s = Stopped \<Longrightarrow> Close_rest gz hasFallback isCloser s = (e, s') \<Longrightarrow>
    close_step gz opt hasFallback isCloser (Waiting, s) (Returned e, s')"

inductive_cases close_stepE: "close_step gz opt hasFallback isCloser (p, s) t"

text \<open>The first transition of the worker of an instance that the next run creates on the same directory.\<close>

definition restarted :: "'g gzip \<Rightarrow> Options \<Rightarrow> client \<Rightarrow> bytes \<Rightarrow> os \<Rightarrow> 'g Instance \<Rightarrow> bool" where
  "restarted gz opt c dir fs s \<longleftrightarrow> step gz opt (NewInstance c (NewDirBuffer fs dir)) s \<and> worker_pc s = Poll"

subsection \<open>The two names of a buffer\<close>

text \<open>\<open>keeps_names f\<close>: the operation may swap the names of the two files, and changes no other way.\<close>

definition names :: "'g DirBuffer \<Rightarrow> path set" where
  "names d = {rName d, wName d}"

definition keeps_names :: "('g DirBuffer \<Rightarrow> 'e option \<times> 'g DirBuffer) \<Rightarrow> bool" where
  "keeps_names f \<longleftrightarrow> (\<forall>d. names (snd (f d)) = names d)"

named_theorems names_rules

lemmas keepsD = keeps_names_def [THEN iffD1, rule_format]

lemma keeps_and_then_at [names_rules]:
  assumes "\<And>x. keeps_names (f x)" and "\<And>x. keeps_names (g x)"
  shows "keeps_names (\<lambda>d. and_then (f d) (g d) d)"
proof -
  have "names (snd (and_then (f d) (g d) d)) = names d" for d
    using keepsD [OF assms(1), of d d] keepsD [OF assms(2), of d "snd (f d d)"]
    by (cases "f d d"; cases "fst (f d d)") (simp_all add: and_then_def)
  then show ?thesis by (simp add: keeps_names_def)
qed

lemma keeps_and_then [names_rules]: "keeps_names f \<Longrightarrow> keeps_names g \<Longrightarrow> keeps_names (and_then f g)"
  by (rule keeps_and_then_at)

lemma keeps_on_os [names_rules]: "keeps_names (on_os f)" "keeps_names (\<lambda>d. on_os (h d) d)"
  by (simp_all add: keeps_names_def on_os_def names_def split: prod.split)

lemma keeps_set [names_rules]:
  "keeps_names (\<lambda>d. (None, d\<lparr>readFile := r d\<rparr>))" "keeps_names (\<lambda>d. (None, d\<lparr>writeFile := w d, writeGz := g d\<rparr>))"
  "keeps_names (\<lambda>d. (None, d\<lparr>writeGz := g d\<rparr>))" "keeps_names (\<lambda>d. (None, d))" "keeps_names (\<lambda>d. (None, d\<lparr>rName := wName d, wName := rName d\<rparr>))"
  by (auto simp: keeps_names_def names_def)

lemma names_on_os [simp]: "names (snd (on_os f d)) = names d"
  by (simp add: on_os_def names_def split: prod.split)

lemma names_upd [simp]:
  "names (d\<lparr>readFile := r\<rparr>) = names d" "names (d\<lparr>writeFile := w\<rparr>) = names d" "names (d\<lparr>writeGz := g\<rparr>) = names d" "names (d\<lparr>d_os := fs\<rparr>) = names d"
  by (simp_all add: names_def)

lemma keeps_initDir: "keeps_names initDir"
  unfolding initDir_def by (rule names_rules)

lemma keeps_initReadFile: "keeps_names initReadFile"
  unfolding initReadFile_def by (intro names_rules keeps_initDir)

lemma keeps_initWriteFile: "keeps_names (initWriteFile gz)"
  unfolding initWriteFile_def by (intro names_rules keeps_initDir)

lemma keeps_ensureReadFile: "keeps_names ensureReadFile"
  by (simp add: keeps_names_def keepsD [OF keeps_initReadFile] ensureReadFile_def)

lemma keeps_ensureWriteFile: "keeps_names (ensureWriteFile gz)"
  by (simp add: keeps_names_def keepsD [OF keeps_initWriteFile] ensureWriteFile_def)

lemma keeps_closeReadFile: "keeps_names closeReadFile"
  by (simp add: keeps_names_def closeReadFile_def Let_def case_prod_beta)

lemma keeps_gz_emit: "keeps_names (gz_emit p out)"
  by (simp add: keeps_names_def gz_emit_def)

lemmas keeps_parts = keeps_initReadFile keeps_initWriteFile keeps_ensureReadFile keeps_ensureWriteFile keeps_closeReadFile keeps_gz_emit

lemma keeps_d_close: "keeps_names (d_close gz)"
proof -
  have "keeps_names (and_then (\<lambda>d. case writeGz d of
        Some g \<Rightarrow> and_then (gz_emit p (gz_Close gz g)) (\<lambda>d. (None, d\<lparr>writeGz := Some (gz_New gz)\<rparr>)) d
      | None \<Rightarrow> (None, d)) (\<lambda>d. let (e, d) = on_os os_nop d in (e, d\<lparr>writeFile := None\<rparr>)))" for p
  proof (intro names_rules)
    have "keeps_names (and_then (gz_emit p (gz_Close gz g)) (\<lambda>d. (None, d\<lparr>writeGz := Some (gz_New gz)\<rparr>)))" for g
      by (intro names_rules keeps_parts)
    then show "keeps_names (\<lambda>d. case writeGz d of
        Some g \<Rightarrow> and_then (gz_emit p (gz_Close gz g)) (\<lambda>d. (None, d\<lparr>writeGz := Some (gz_New gz)\<rparr>)) d
      | None \<Rightarrow> (None, d))" by (auto simp: keeps_names_def split: option.split)
  qed (simp add: keeps_names_def Let_def case_prod_beta)
  then have "keeps_names (closeWriteFile gz)" by (auto simp: keeps_names_def closeWriteFile_def split: option.split)
  then show ?thesis unfolding d_close_def by (intro names_rules keeps_parts)
qed

lemma keeps_Write: "keeps_names (DirBuffer_Write gz p)"
proof -
  have "keeps_names (\<lambda>d. case (writeFile d, writeGz d) of (Some f, Some g) \<Rightarrow> gz_emit f (gz_Write gz g p) d | _ \<Rightarrow> (None, d))"
    by (simp add: keeps_names_def keepsD [OF keeps_gz_emit] split: option.split)
  then show ?thesis unfolding DirBuffer_Write_def by (intro names_rules keeps_parts)
qed

lemma names_Reader: "DirBuffer_Reader gz fn d c = (e, d', c') \<Longrightarrow> names d' = names d"
proof -
  have "keeps_names (and_then (switchFiles gz) ensureReadFile)"
    unfolding switchFiles_def by (intro names_rules keeps_parts keeps_d_close)
  from keepsD [OF this, of d] obtain e1 d1 where 1: "and_then (switchFiles gz) ensureReadFile d = (e1, d1)" "names d1 = names d"
    by (metis prod.collapse)
  obtain e2 d2 where 2: "on_os os_nop d1 = (e2, d2)" by fastforce
  let ?z = "content (d_os d2) (rName d2)"
  obtain e3 c3 where 3: "fn (len ?z) ?z c = (e3, c3)" by fastforce
  obtain e4 d4 where 4: "on_os (os_truncate (rName d2)) d2 = (e4, d4)" by fastforce
  have n: "names d2 = names d1" "names d4 = names d2" using names_on_os [of os_nop d1] names_on_os [of "os_truncate (rName d2)" d2] 2 4 by simp_all
  assume "DirBuffer_Reader gz fn d c = (e, d', c')"
  then show ?thesis
    using 1 2 3 4 n by (cases e1; cases e2; cases e3) (auto simp: DirBuffer_Reader_def keepsD [OF keeps_closeReadFile])
qed

lemma names_HasData: "names (snd (snd (HasData gz d))) = names d"
proof -
  have f: "names (snd (fileSize p x)) = names x" for p and x :: "'a DirBuffer"
    by (auto simp: fileSize_def split: prod.split option.split) (metis names_on_os snd_conv)+
  have m: "keeps_names (and_then initReadFile (and_then (initWriteFile gz) (and_then (\<lambda>d. on_os (os_append (wName d) (content (d_os d) (rName d))) d)
      (and_then (\<lambda>d. on_os (os_truncate (rName d)) d) (d_close gz)))))"
    by (intro names_rules keeps_parts keeps_d_close)
  obtain e1 d1 where 1: "d_close gz d = (e1, d1)" by fastforce
  obtain r d2 where 2: "fileSize (rName d1) d1 = (r, d2)" by fastforce
  obtain w d3 where 3: "fileSize (wName d2) d2 = (w, d3)" by fastforce
  have n: "names d1 = names d" "names d2 = names d1" "names d3 = names d2"
    using keepsD [OF keeps_d_close, of gz d] f [of "rName d1" d1] f [of "wName d2" d2] 1 2 3 by simp_all
  have s: "names (d3\<lparr>rName := wName d3, wName := rName d3\<rparr>) = names d3" by (auto simp: names_def)
  show ?thesis
    using n s keepsD [OF m, of d3] by (simp add: HasData_def 1 2 3 split: option.split)
qed

subsection \<open>Transitions keep the directory\<close>

lemma sendToFallbackCli_names: "sendToFallbackCli gz opt b s = Ret s' \<Longrightarrow> names (fallback s') = names (fallback s)"
  by (auto simp: sendToFallbackCli_def Let_def case_prod_beta bind_eq_Some_conv keepsD [OF keeps_Write])

lemma sendToCli_names:
  assumes "sendToCli gz opt b s = Ret s'"
  shows "names (fallback s') = names (fallback s)"
proof (cases "fb s")
  case True
  with assms sendToFallbackCli_names [of gz opt b s s'] show ?thesis by (simp add: sendToCli_def)
next
  case False
  with assms sendToFallbackCli_names [of gz opt b "s\<lparr>cli := snd (cli_Write b (cli s)), fb := True\<rparr>" s'] show ?thesis
    by (auto simp: sendToCli_def Let_def case_prod_beta split: if_splits)
qed

lemma fallback_Reader_names: "fallback_Reader gz s = (e, s') \<Longrightarrow> names (fallback s') = names (fallback s)"
  by (auto simp: fallback_Reader_def split: prod.splits dest: names_Reader)

lemma flush_names: "names (fallback (snd (flushFallbackToCli gz s))) = names (fallback s)"
proof -
  obtain e1 s1 where 1: "fallback_Reader gz s = (e1, s1)" by fastforce
  obtain e2 c2 where 2: "cli_Reconnect (cli s1) = (e2, c2)" by fastforce
  obtain e3 s3 where 3: "fallback_Reader gz (s1\<lparr>cli := c2\<rparr>) = (e3, s3)" by fastforce
  show ?thesis
    using 1 2 3 fallback_Reader_names [OF 1] fallback_Reader_names [OF 3]
    by (cases e1; cases e2; cases e3) (simp_all add: flushFallbackToCli_def)
qed

lemma maybeSetFb_names: "names (fallback (snd (maybeSetFb gz opt s))) = names (fallback s)"
proof -
  obtain ok e d where "HasData gz (fallback s) = (ok, e, d)" by (metis prod_cases3)
  with names_HasData [of gz "fallback s"] show ?thesis by (simp add: maybeSetFb_def)
qed

lemma step_names:
  assumes "step gz opt s s'"
  shows "names (fallback s') = names (fallback s)"
  using assms
proof (cases rule: step.cases)
  case (log_queues b)
  then show ?thesis by (cases "opt_WriteBehavior opt") (simp_all add: queueMessage_def enqueue_def)
qed (auto simp: enqueue_def flush_names maybeSetFb_names dest: sendToCli_names)

lemma step_closed: "step gz opt s s' \<Longrightarrow> closed s \<Longrightarrow> closed s'"
proof (induction rule: step.induct)
  case (log_queues b s)
  then show ?case by (cases "opt_WriteBehavior opt") (simp_all add: queueMessage_def enqueue_def)
next
  case (worker_starts s)
  then show ?case
    by (rule_tac flush_frame [of gz "snd (maybeSetFb gz opt s)"]) (auto simp: maybeSetFb_def split: prod.splits)
next
  case (wait_ticks s)
  then show ?case by (rule_tac flush_frame [of gz s]) auto
qed (auto simp: enqueue_def elim: sendToCli_frame)

subsection \<open>The invariant of a run with Close\<close>

text \<open>Once \<open>Close\<close> has returned the worker is gone and the files of the buffer are closed.\<close>

definition close_ok :: "'g gzip \<Rightarrow> Options \<Rightarrow> path set \<Rightarrow> bytes list multiset \<Rightarrow> closer \<times> 'g Instance \<Rightarrow> bool" where
  "close_ok gz opt N M ps \<longleftrightarrow> fallback_ok gz opt M (snd ps) \<and> names (fallback (snd ps)) = N \<and> (fst ps \<noteq> Before \<longrightarrow> closed (snd ps)) \<and>
     (\<forall>e. fst ps = Returned e \<longrightarrow> worker_pc (snd ps) = Stopped \<and> writeFile (fallback (snd ps)) = None)"

lemma cli_Close_keeps: "cli_Close c = (e, c') \<Longrightarrow> cli_batches c' = cli_batches c \<and> cli_written c' = cli_written c"
  by (auto simp: cli_Close_def cli_next_def split: list.splits)

lemma Close_rest_ok:
  assumes "fallback_ok gz opt M s" and "Close_rest gz True isCloser s = (e, s')"
  shows "fallback_ok gz opt M s' \<and> names (fallback s') = names (fallback s) \<and> closed s' = closed s \<and> worker_pc s' = worker_pc s \<and>
    writeFile (fallback s') = None"
proof -
  obtain rs ws batches where h: "holds gz (fallback s) (concat rs) (concat ws)" "list_all2 (entries_file gz) batches (cli_batches (cli s))"
    "mset rs + mset ws + mset (concat batches) = M + mset (fallback_entries opt (handled s))"
    using assms(1) by (auto simp: fallback_ok_def)
  obtain d where d: "d_close gz (fallback s) = (None, d)" "holds gz d (concat rs) (concat ws)" "writeFile d = None"
    using d_close_holds [OF h(1)] by metis
  from d(1) keepsD [OF keeps_d_close, of gz "fallback s"] have "names d = names (fallback s)" by simp
  moreover have "fallback_ok gz opt M (s\<lparr>fallback := d, cli := c\<rparr>)" if "cli_batches c = cli_batches (cli s)" for c
    using h d(2) that unfolding fallback_ok_def by (intro exI [of _ rs] exI [of _ ws] exI [of _ batches]) simp
  moreover obtain e2 c2 where c: "cli_Close (cli s) = (e2, c2)" by fastforce
  moreover from assms(2) d(1) c have "s' = s\<lparr>fallback := d, cli := if isCloser then c2 else cli s\<rparr>"
    by (auto simp: Close_rest_def DirBuffer_Close_def split: if_splits)
  ultimately show ?thesis using d(3) cli_Close_keeps [OF c] by simp
qed

lemma close_step_ok:
  assumes "close_step gz opt True isCloser ps qs" and "close_ok gz opt N M ps" and "gz_nonempty gz"
  shows "close_ok gz opt N M qs"
  using assms(1)
proof (cases rule: close_step.cases)
  case (others s s' p)
  have "worker_pc s' = Stopped \<and> writeFile (fallback s') = None" if "p = Returned e" for e
    using stopped_step [OF others(3)] assms(2) that others(1) by (simp add: close_ok_def)
  with others assms(2) step_fallback_ok [OF others(3) _ assms(3)] step_names [OF others(3)] show ?thesis by (auto simp: close_ok_def)
next
  case (calls s s')
  with assms(2) show ?thesis by (auto simp: close_ok_def Close_call_def fallback_ok_frame split: if_splits)
next
  case (returns s e s')
  with assms(2) Close_rest_ok [of gz opt M s isCloser e s'] show ?thesis by (auto simp: close_ok_def)
qed

lemma reachable_close_ok:
  assumes "(close_step gz opt True isCloser)\<^sup>*\<^sup>* ps qs" and "close_ok gz opt N M ps" and "gz_nonempty gz"
  shows "close_ok gz opt N M qs"
  using assms by (induction rule: rtranclp_induct) (auto intro: close_step_ok)

text \<open>The files as a buffer of the same directory finds them.\<close>

lemma holds_reopened:
  assumes "holds gz d rs ws" and "writeFile d = None" and "names d = names (NewDirBuffer fs dir :: 'g DirBuffer)"
  obtains "holds gz (NewDirBuffer (d_os d) dir) rs ws" | "holds gz (NewDirBuffer (d_os d) dir) ws rs"
  using assms by (auto simp: holds_def names_def NewDirBuffer_def doubleton_eq_iff)

lemma restart_flushes:
  assumes "holds gz d rs ws" and "gz_nonempty gz" and "opt_WriteBehavior opt = Fallback" and "cli_results c = []"
    and "step gz opt (NewInstance c d) s" and "worker_pc s = Poll"
  shows "\<not> fb s \<and> holds gz (fallback s) [] [] \<and>
    (cli_batches (cli s) = cli_batches c \<and> rs = [] \<and> ws = [] \<or> (\<exists>z. gz_file gz (ws @ rs) z \<and> cli_batches (cli s) = cli_batches c @ [z]))"
proof -
  have s: "s = (snd (flushFallbackToCli gz (snd (maybeSetFb gz opt (NewInstance c d)))))\<lparr>worker_pc := Poll\<rparr>"
    using assms(5,6) by (auto simp: NewInstance_def queueMessage_def enqueue_def elim!: stepE)
  obtain ok d1 where d1: "HasData gz d = (ok, None, d1)" "holds gz d1 [] (ws @ rs)" "ok \<or> rs = [] \<and> ws = []"
    "ok \<Longrightarrow> files (d_os d1) (wName d1) \<noteq> None"
    using HasData_holds [OF assms(1,2)] by blast
  let ?s = "(NewInstance c d)\<lparr>fb := ok, fallback := d1\<rparr>"
  have m: "snd (maybeSetFb gz opt (NewInstance c d)) = ?s" using assms(3) d1(1) by (simp add: maybeSetFb_def NewInstance_def)
  show ?thesis
  proof (cases ok)
    case False
    with d1 s m show ?thesis by (simp add: flushFallbackToCli_def NewInstance_def)
  next
    case True
    have w: "cli_WriteBatch n z c = (None, c\<lparr>cli_batches := cli_batches c @ [z]\<rparr>)" for n z
      using assms(4) by (simp add: cli_WriteBatch_def cli_next_def)
    obtain z d2 where "gz_file gz (ws @ rs) z" "holds gz d2 [] []"
      "DirBuffer_Reader gz cli_WriteBatch d1 c = (None, d2, c\<lparr>cli_batches := cli_batches c @ [z]\<rparr>)"
      using Reader_offers [OF d1(2) d1(4) [OF True], of cli_WriteBatch c] w by auto
    with True s m show ?thesis by (auto simp: flushFallbackToCli_def fallback_Reader_def NewInstance_def)
  qed
qed

subsection \<open>Close returns\<close>

lemma lift_run:
  assumes "(step gz opt)\<^sup>*\<^sup>* s s'" and "closed s"
  shows "(close_step gz opt hasFallback isCloser)\<^sup>*\<^sup>* (p, s) (p, s') \<and> closed s'"
  using assms
proof (induction rule: rtranclp_induct)
  case (step t u)
  then have "closed t" "closed u" by (auto dest: step_closed)
  with step show ?case by (auto intro: rtranclp.rtrancl_into_rtrancl close_step.others)
qed simp

lemma returned_stays:
  assumes "(close_step gz opt hasFallback isCloser)\<^sup>*\<^sup>* (Returned e, s) (p, t)" and "worker_pc s = Stopped"
  shows "p = Returned e \<and> worker_pc t = Stopped \<and> handled t = handled s \<and> cli t = cli s \<and> fallback t = fallback s"
  using assms(1)
proof (induction "(p, t)" arbitrary: p t rule: rtranclp_induct)
  case (step qs)
  obtain q u where "qs = (q, u)" by (cases qs)
  with step show ?case by (auto elim!: close_stepE dest: stopped_step)
qed (simp add: assms(2))

lemma Close_reaches:
  assumes "\<not> closed s" and "worker_pc s \<noteq> Stopped" and "\<forall>b \<in> set (queue s). strip_len opt \<le> length b"
  obtains e s' where "(close_step gz opt hasFallback isCloser)\<^sup>*\<^sup>* (Before, s) (Returned e, s')" "worker_pc s' = Stopped" "queue s' = []"
    "map fst (handled s') = map fst (handled s) @ queue s"
proof -
  let ?s1 = "s\<lparr>closed := True\<rparr>" and ?R = "close_step gz opt hasFallback isCloser"
  have c: "?R (Before, s) (Waiting, ?s1)" using assms(1) by (intro calls) (simp add: Close_call_def)
  obtain s2 where s2: "(step gz opt)\<^sup>*\<^sup>* ?s1 s2" "closed s2" "worker_pc s2 = Poll \<or> worker_pc s2 = Wait \<or> worker_pc s2 = Drain"
    "queue s2 = queue s" "handled s2 = handled s"
  proof (cases "worker_pc s = Start")
    case True
    obtain f1 d1 where m: "snd (maybeSetFb gz opt ?s1) = ?s1\<lparr>fb := f1, fallback := d1\<rparr>"
      by (cases "HasData gz (fallback s)"; cases "opt_WriteBehavior opt = Fallback") (auto simp: maybeSetFb_def intro: that [of "fallback s" "fb s"])
    obtain f c d where f: "snd (flushFallbackToCli gz (?s1\<lparr>fb := f1, fallback := d1\<rparr>)) = ?s1\<lparr>fb := f1, fallback := d1\<rparr>\<lparr>fb := f, cli := c, fallback := d\<rparr>"
      by (rule flush_frame)
    have "step gz opt ?s1 ((snd (flushFallbackToCli gz (snd (maybeSetFb gz opt ?s1))))\<lparr>worker_pc := Poll\<rparr>)"
      using True by (intro worker_starts) simp
    then have "(step gz opt)\<^sup>*\<^sup>* ?s1 (?s1\<lparr>fb := f, cli := c, fallback := d, worker_pc := Poll\<rparr>)" unfolding m f by (simp add: r_into_rtranclp)
    then show thesis by (rule that) simp_all
  next
    case False
    with assms(2) have "worker_pc s = Poll \<or> worker_pc s = Wait \<or> worker_pc s = Drain" by (cases "worker_pc s") auto
    then show thesis by (intro that [of ?s1]) simp_all
  qed
  have "\<forall>b \<in> set (queue s2). strip_len opt \<le> length b" using assms(3) s2(4) by simp
  from close_run [OF s2(2,3) this, of gz] obtain s3 where s3: "(step gz opt)\<^sup>*\<^sup>* s2 s3" "worker_pc s3 = Stopped" "queue s3 = []"
    "map fst (handled s3) = map fst (handled s2) @ queue s2" by metis
  have w: "?R\<^sup>*\<^sup>* (Waiting, ?s1) (Waiting, s3)" using lift_run [OF rtranclp_trans [OF s2(1) s3(1)]] by simp
  obtain e s' where r: "Close_rest gz hasFallback isCloser s3 = (e, s')" by fastforce
  then have "worker_pc s' = Stopped" "queue s' = []" "handled s' = handled s3"
    using s3(2,3) by (auto simp: Close_rest_def Let_def case_prod_beta split: if_splits)
  moreover have "?R (Waiting, s3) (Returned e, s')" using s3(2) r by (rule returns)
  with c w have "?R\<^sup>*\<^sup>* (Before, s) (Returned e, s')"
    by (meson converse_rtranclp_into_rtranclp rtranclp.rtrancl_into_rtrancl)
  ultimately show thesis using that s3(4) s2(4,5) by metis
qed

lemma restart_sends:
  assumes "(close_step gz opt True isCloser)\<^sup>*\<^sup>* (Before, NewInstance c (NewDirBuffer fs dir)) (Returned e, s)"
    and "opt_WriteBehavior opt = Fallback" and "cli_batches c = []"
    and "holds gz (NewDirBuffer fs dir) (concat rs0) (concat ws0)" and "gz_nonempty gz"
    and "restarted gz opt c2 dir (d_os (fallback s)) s2" and "cli_results c2 = []" and "cli_batches c2 = []" and "[] \<notin> set (rs0 @ ws0)"
  shows "holds gz (fallback s2) [] [] \<and> \<not> fb s2 \<and>
    (\<exists>sent resent. list_all2 (entries_file gz) sent (cli_batches (cli s)) \<and> list_all2 (entries_file gz) resent (cli_batches (cli s2)) \<and>
       mset (concat sent) + mset (concat resent) = mset rs0 + mset ws0 + mset (fallback_entries opt (handled s)))"
proof -
  let ?M = "mset rs0 + mset ws0" and ?d0 = "NewDirBuffer fs dir :: 'a DirBuffer"
  have "fallback_ok gz opt ?M (NewInstance c ?d0)"
    unfolding fallback_ok_def using assms(3,4)
    by (intro exI [of _ rs0] exI [of _ ws0] exI [of _ "[]"]) (simp add: NewInstance_def fallback_entries_def)
  then have "close_ok gz opt (names ?d0) ?M (Before, NewInstance c ?d0)" by (simp add: close_ok_def NewInstance_def)
  from reachable_close_ok [OF assms(1) this assms(5)] have c: "fallback_ok gz opt ?M s" "names (fallback s) = names ?d0" "writeFile (fallback s) = None"
    by (simp_all add: close_ok_def)
  then obtain rs ws batches where h: "holds gz (fallback s) (concat rs) (concat ws)" "list_all2 (entries_file gz) batches (cli_batches (cli s))"
    "mset rs + mset ws + mset (concat batches) = ?M + mset (fallback_entries opt (handled s))"
    by (auto simp: fallback_ok_def)
  obtain rs1 ws1 where n: "holds gz (NewDirBuffer (d_os (fallback s)) dir) (concat rs1) (concat ws1)" "mset rs1 + mset ws1 = mset rs + mset ws"
    by (rule holds_reopened [OF h(1) c(3,2)]) (auto simp: ac_simps)
  have "[] \<notin># ?M + mset (fallback_entries opt (handled s))" using assms(9) by (auto simp: fallback_entries_def fallback_entry_def)
  then have "[] \<notin># mset rs1 + mset ws1" unfolding h(3) [symmetric] n(2) by simp
  then have ne: "concat rs1 = [] \<Longrightarrow> rs1 = []" "concat ws1 = [] \<Longrightarrow> ws1 = []" by (cases rs1; cases ws1; auto)+
  have st: "step gz opt (NewInstance c2 (NewDirBuffer (d_os (fallback s)) dir)) s2" "worker_pc s2 = Poll" using assms(6) by (simp_all add: restarted_def)
  from restart_flushes [OF n(1) assms(5,2,7) st] have r: "holds gz (fallback s2) [] []" "\<not> fb s2"
    "cli_batches (cli s2) = [] \<and> rs1 = [] \<and> ws1 = [] \<or> (\<exists>z. entries_file gz (ws1 @ rs1) z \<and> cli_batches (cli s2) = [z])"
    using assms(8) ne by (auto simp: entries_file_def)
  from r(3) obtain resent where "list_all2 (entries_file gz) resent (cli_batches (cli s2))" "mset (concat resent) = mset rs1 + mset ws1"
    by (auto intro: exI [of _ "[]"] exI [of _ "[ws1 @ rs1]"] that [of "[]"] that [of "[ws1 @ rs1]"])
  with h(2,3) n(2) r(1,2) show ?thesis by (intro conjI exI [of _ batches] exI [of _ resent]) (simp_all add: ac_simps)
qed

text \<open>
  C22. \<^bold>\<open>Close returns, and then everything is over.\<close> From every state before \<open>Close\<close> in which the worker has not panicked,
  \<open>Close\<close> can return, with an empty queue and every message that was in it handled in order, and whatever runs on afterwards,
  log calls among it, neither the client nor the fallback buffer is used again.
\<close>

theorem Close_completes:
  assumes "\<not> closed s" and "worker_pc s \<noteq> Stopped" and "\<forall>b \<in> set (queue s). strip_len opt \<le> length b"
  shows "\<exists>e s'. (close_step gz opt hasFallback isCloser)\<^sup>*\<^sup>* (Before, s) (Returned e, s') \<and> queue s' = [] \<and>
    map fst (handled s') = map fst (handled s) @ queue s \<and>
    (\<forall>p t. (close_step gz opt hasFallback isCloser)\<^sup>*\<^sup>* (Returned e, s') (p, t) \<longrightarrow>
       p = Returned e \<and> handled t = handled s' \<and> cli t = cli s' \<and> fallback t = fallback s')"
proof -
  obtain e s' where "(close_step gz opt hasFallback isCloser)\<^sup>*\<^sup>* (Before, s) (Returned e, s')" "worker_pc s' = Stopped" "queue s' = []"
    "map fst (handled s') = map fst (handled s) @ queue s"
    using assms by (rule Close_reaches)
  with returned_stays [of gz opt hasFallback isCloser e s'] show ?thesis by (intro exI [of _ e] exI [of _ s'] conjI allI impI) auto
qed

text \<open>
  C21. \<^bold>\<open>What a run leaves, the next run sends.\<close> Take any run of an instance under \<open>Fallback\<close> on a disk that works, with any
  failures of its client, until after its \<open>Close\<close> has returned, and then an instance on the same directory whose client works.
  When its worker has started, the entries that were in the directory at first or went to the fallback
  since are exactly those of the batches that the two clients accepted, each once, and the
  directory is empty.
\<close>

theorem restart_resends:
  assumes "(close_step gz opt True isCloser)\<^sup>*\<^sup>* (Before, NewInstance c (NewDirBuffer fs dir)) (Returned e, s)"
    and "opt_WriteBehavior opt = Fallback" and "cli_batches c = []"
    and "holds gz (NewDirBuffer fs dir) (concat rs0) (concat ws0)" and "gz_nonempty gz"
    and "restarted gz opt c2 dir (d_os (fallback s)) s2" and "cli_results c2 = []" and "cli_batches c2 = []" and "[] \<notin> set (rs0 @ ws0)"
  shows "holds gz (fallback s2) [] [] \<and> \<not> fb s2 \<and>
    (\<exists>sent resent. list_all2 (entries_file gz) sent (cli_batches (cli s)) \<and> list_all2 (entries_file gz) resent (cli_batches (cli s2)) \<and>
       mset (concat sent) + mset (concat resent) = mset rs0 + mset ws0 + mset (fallback_entries opt (handled s)))"
  using assms by (rule restart_sends)

theorem Close_completes_witness:
  "\<exists>e s'. (close_step store_gz block_opt True True)\<^sup>*\<^sup>* (Before, (NewInstance idle_client (NewDirBuffer \<lparr>files = Map.empty, faults = []\<rparr> []))
      \<lparr>worker_pc := Poll, queue := [[0x93, 0xa1, 0x74, 1]]\<rparr>) (Returned e, s') \<and> queue s' = [] \<and> map fst (handled s') = [[0x93, 0xa1, 0x74, 1]]"
proof -
  let ?s = "(NewInstance idle_client (NewDirBuffer \<lparr>files = Map.empty, faults = []\<rparr> []))\<lparr>worker_pc := Poll, queue := [[0x93, 0xa1, 0x74, 1]]\<rparr> :: unit Instance"
  have "\<not> closed ?s" "worker_pc ?s \<noteq> Stopped" "\<forall>b \<in> set (queue ?s). strip_len block_opt \<le> length b"
    "map fst (handled ?s) @ queue ?s = [[0x93, 0xa1, 0x74, 1]]"
    by (simp_all add: NewInstance_def strip_len_def strSize_def block_opt_def)
  note q = this
  from Close_completes [OF q(1-3), of store_gz True True] show ?thesis
    unfolding q(4) by (elim exE conjE) (intro exI conjI)
qed

text \<open>A directory with the entry of an earlier run, and a client that refuses the batch of the first.\<close>

theorem restart_resends_witness:
  "\<exists>e s s2 resent. (close_step store_gz (block_opt\<lparr>opt_WriteBehavior := Fallback\<rparr>) True True)\<^sup>*\<^sup>*
      (Before, NewInstance (idle_client\<lparr>cli_results := [False], cli_Reconnector := False\<rparr>)
        (NewDirBuffer \<lparr>files = [[0x64, 0x2f, 0x70, 0x6f, 0x6e, 0x67, 0x2e, 0x62, 0x69, 0x6e] \<mapsto> [7, 0]], faults = []\<rparr> [0x64])) (Returned e, s) \<and>
    restarted store_gz (block_opt\<lparr>opt_WriteBehavior := Fallback\<rparr>) idle_client [0x64] (d_os (fallback s)) s2 \<and>
    holds store_gz (fallback s2) [] [] \<and> list_all2 (entries_file store_gz) resent (cli_batches (cli s2)) \<and> mset (concat resent) \<subseteq># {#[[7]]#}"
proof -
  let ?o = "block_opt\<lparr>opt_WriteBehavior := Fallback\<rparr>" and ?c = "idle_client\<lparr>cli_results := [False], cli_Reconnector := False\<rparr>"
  let ?fs = "\<lparr>files = [[0x64, 0x2f, 0x70, 0x6f, 0x6e, 0x67, 0x2e, 0x62, 0x69, 0x6e] \<mapsto> [7, 0]], faults = []\<rparr>"
  let ?i = "NewInstance ?c (NewDirBuffer ?fs [0x64]) :: unit Instance"
  have n: "gz_nonempty store_gz" by (simp add: gz_nonempty_def gz_member_def store_gz_def Let_def split: prod.split)
  have "gz_file store_gz [[7]] [7, 0]"
    using gz_file_member [OF gz_file_Nil, of store_gz "[[7]]"] by (simp add: gz_member_def store_gz_def)
  then have h: "holds store_gz (NewDirBuffer ?fs [0x64]) (concat []) (concat [[[7]]])" by (simp add: NewDirBuffer_def holds_def content_def)
  have ne: "[] \<notin> set ([] @ [[[7 :: byte]]])" by simp
  have i: "\<not> closed ?i" "worker_pc ?i \<noteq> Stopped" "\<forall>b \<in> set (queue ?i). strip_len ?o \<le> length b" "map fst (handled ?i) @ queue ?i = []"
    by (simp_all add: NewInstance_def)
  obtain e s where r: "(close_step store_gz ?o True True)\<^sup>*\<^sup>* (Before, ?i) (Returned e, s)" "map fst (handled s) = []"
    by (rule Close_reaches [OF i(1-3), of store_gz True True]) (simp add: i(4))
  let ?d = "NewDirBuffer (d_os (fallback s)) [0x64] :: unit DirBuffer"
  obtain s2 where s2: "restarted store_gz ?o idle_client [0x64] (d_os (fallback s)) s2"
    using worker_starts [of "NewInstance idle_client ?d" store_gz ?o] by (force simp: restarted_def NewInstance_def)
  have p: "opt_WriteBehavior ?o = Fallback" "cli_batches ?c = []" "cli_results idle_client = []" "cli_batches idle_client = []"
    by (simp_all add: idle_client_def)
  from restart_resends [OF r(1) p(1,2) h n s2 p(3,4) ne] obtain resent where
    "holds store_gz (fallback s2) [] []" "list_all2 (entries_file store_gz) resent (cli_batches (cli s2))" "mset (concat resent) \<subseteq># {#[[7]]#}"
    using r(2) by (auto simp: fallback_entries_def) (metis mset_subset_eq_add_right)
  with r(1) s2 show ?thesis by blast
qed

end
