(* ===== verification/Handshake.thy ===== *)
theory Handshake
  imports Args Iteration
begin

text \<open>
  The authentication of a connection: \<open>forward/phase_handshake.go\<close>, \<open>auth.go\<close>, \<open>sha512_hex.go\<close>,
  \<open>errors.go\<close> and \<open>ServerSession.authenticate\<close>. HELO, PING and PONG are byte strings; each side
  reads them with the iterator of the package \<open>msgpack\<close>.

  Parameters: \<open>sha\<close> is SHA-512, any function to 64 bytes; the ring reader \<open>R\<close> is that of
  \<open>Iterator\<close>; \<open>Auth\<close> is the callback of the server's owner, \<open>err_text\<close> the text of an error. The
  buffer that the session writes through (\<open>WriteTo\<close>) gives its bytes away: nothing of a message is
  left in it. Errors of the network while writing end the handshake and are not modelled.
\<close>

subsection \<open>errors.go, auth.go, sha512_hex.go\<close>

datatype ferr =
    ErrInvalidHelo | ErrInvalidPing | ErrInvalidPong | ErrInvalidNonce | ErrInvalidSharedKey
  | ErrInvalidEntry | ErrFailedConn | ErrFailedAuth | ErrNotSupported

text \<open>
  The errors that the phase returns: a constant, \<open>errors.Join\<close> of a constant and an error of the
  iterator or of the callback, a constant with the message type that was found or with the reason
  that the server gave, and the iterator's own error.
\<close>

datatype herr =
    Const ferr
  | JoinIter ferr err
  | JoinAuth ferr bytes
  | WrongType ferr bytes
  | WithReason ferr bytes
  | IterError "err option"

record Credentials =
  Username :: bytes
  Password :: bytes
  SharedKey :: bytes

definition no_credentials :: Credentials where
  "no_credentials = \<lparr> Username = [], Password = [], SharedKey = [] \<rparr>"

definition StaticAuthClient :: "Credentials \<Rightarrow> Credentials" where
  "StaticAuthClient cred = cred"

text \<open>An error of the callback is its text.\<close>

definition StaticAuthServer :: "Credentials \<Rightarrow> bytes \<Rightarrow> bytes + Credentials" where
  "StaticAuthServer cred username =
     (if username = Username cred then Inr cred
      else Inl (text_bytes ''unknown username '' @ [0x27] @ username @ [0x27]))"

definition sha512Hex :: "(bytes \<Rightarrow> bytes) \<Rightarrow> bytes list \<Rightarrow> bytes \<Rightarrow> bytes" where
  "sha512Hex sha vals dst = dst @ hex_Encode (sha (concat vals))"

definition validateSha512Hex :: "(bytes \<Rightarrow> bytes) \<Rightarrow> bytes \<Rightarrow> bytes list \<Rightarrow> bool" where
  "validateSha512Hex sha expectedHex vals \<longleftrightarrow> expectedHex = sha512Hex sha vals []"

subsection \<open>Reading with the iterator\<close>

text \<open>\<open>if err = NextExpectedType(ts); err != nil { return wrap(err) }\<close>, then \<open>k\<close>\<close>

type_synonym ('r, 'a) reading = "((herr + 'a) \<times> 'r Iterator) go"

definition expect :: "'r ring \<Rightarrow> 'r Iterator \<Rightarrow> Type list \<Rightarrow> ferr \<Rightarrow> ('r Iterator \<Rightarrow> ('r, 'a) reading) \<Rightarrow> ('r, 'a) reading" where
  "expect R it ts w k = do {
     (e, it) \<leftarrow> NextExpectedType R it ts;
     case e of Some e \<Rightarrow> Ret (Inl (JoinIter w e), it) | None \<Rightarrow> k it }"

definition failure :: "herr \<Rightarrow> 'r Iterator \<Rightarrow> ('r, 'a) reading" where
  "failure e it = Ret (Inl e, it)"

abbreviation HELO :: bytes where "HELO \<equiv> [0x48, 0x45, 0x4c, 0x4f]"
abbreviation PING :: bytes where "PING \<equiv> [0x50, 0x49, 0x4e, 0x47]"
abbreviation PONG :: bytes where "PONG \<equiv> [0x50, 0x4f, 0x4e, 0x47]"

subsection \<open>HELO\<close>

definition writeHelo :: "bytes \<Rightarrow> bytes \<Rightarrow> bytes \<Rightarrow> bytes" where
  "writeHelo b nonce auth =
     (let b = AppendArrayHeader b 2;
          b = AppendString b HELO;
          b = AppendMapHeader b 3;
          b = AppendString b (text_bytes ''nonce'');
          b = AppendString b nonce;
          b = AppendString b (text_bytes ''auth'');
          b = AppendString b auth;
          b = AppendString b (text_bytes ''keepalive'')
      in AppendBool b True)"

text \<open>The loop over the options; an unknown option's value is not skipped.\<close>

fun helo_loop :: "'r ring \<Rightarrow> nat \<Rightarrow> bytes \<Rightarrow> bytes \<Rightarrow> bool \<Rightarrow> 'r Iterator \<Rightarrow> ('r, bytes \<times> bytes \<times> bool) reading" where
  "helo_loop R 0 nonce auth keepAlive it = Ret (Inr (nonce, auth, keepAlive), it)"
| "helo_loop R (Suc n) nonce auth keepAlive it =
     expect R it [StrT] ErrInvalidHelo (\<lambda>it.
       let (key, it) = iter_Str R it in do {
         (ok, it) \<leftarrow> Next R it;
         if \<not> ok then failure (IterError (it_err it)) it
         else if key = text_bytes ''nonce'' then
           let (nonce, it) = iter_Str R it in helo_loop R n nonce auth keepAlive it
         else if key = text_bytes ''auth'' then
           let (auth, it) = iter_Str R it in helo_loop R n nonce auth keepAlive it
         else if key = text_bytes ''keepalive'' then helo_loop R n nonce auth (iter_Bool it) it
         else helo_loop R n nonce auth keepAlive it })"

definition readHelo :: "'r ring \<Rightarrow> 'r Iterator \<Rightarrow> ('r, bytes \<times> bytes \<times> bool) reading" where
  "readHelo R it =
     expect R it [ArrayT] ErrInvalidHelo (\<lambda>it.
       if it_items it \<noteq> 2 then failure (Const ErrInvalidHelo) it else
     expect R it [StrT] ErrInvalidHelo (\<lambda>it.
       let (typ, it) = iter_Str R it in
       if typ \<noteq> HELO then failure (WrongType ErrInvalidHelo typ) it else
     expect R it [MapT] ErrInvalidHelo (\<lambda>it. do {
       (res, it) \<leftarrow> helo_loop R (nat (it_items it)) [] [] True it;
       case res of
         Inl e \<Rightarrow> Ret (Inl e, it)
       | Inr (nonce, auth, keepAlive) \<Rightarrow>
           if len nonce = 0 then failure (Const ErrInvalidNonce) it
           else Ret (Inr (nonce, auth, keepAlive), it) })))"

subsection \<open>PING\<close>

definition writePing :: "(bytes \<Rightarrow> bytes) \<Rightarrow> bytes \<Rightarrow> bytes \<Rightarrow> Credentials \<Rightarrow> bytes \<Rightarrow> bytes \<Rightarrow> bytes \<Rightarrow> bytes go" where
  "writePing sha hostname b cred salt nonce auth = do {
     let b = AppendArrayHeader b 6;
     let b = AppendString b PING;
     let b = AppendString b hostname;
     let b = AppendString b salt;
     b \<leftarrow> AppendStringMax255 b (sha512Hex sha [salt, hostname, nonce, SharedKey cred]);
     if auth \<noteq> [] then
       AppendStringMax255 (AppendString b (Username cred)) (sha512Hex sha [auth, Username cred, Password cred])
     else Ret (AppendString (AppendString b []) []) }"

definition readPing :: "'r ring \<Rightarrow> (bytes \<Rightarrow> bytes) \<Rightarrow> (bytes \<Rightarrow> bytes + Credentials) \<Rightarrow> bytes \<Rightarrow> bytes \<Rightarrow> 'r Iterator \<Rightarrow>
    ((herr option \<times> bytes \<times> Credentials) \<times> 'r Iterator) go" where
  "readPing R sha Auth nonce auth it = do {
     (res, it) \<leftarrow>
       expect R it [ArrayT] ErrInvalidPing (\<lambda>it.
         if it_items it \<noteq> 6 then failure (Const ErrInvalidPing) it else
       expect R it [StrT] ErrInvalidPing (\<lambda>it.
         let (typ, it) = iter_Str R it in
         if typ \<noteq> PING then failure (WrongType ErrInvalidPing typ) it else
       expect R it [StrT] ErrInvalidPing (\<lambda>it.
         let (clientHostname, it) = iter_Str R it in
       expect R it [StrT, BinT] ErrInvalidPing (\<lambda>it.
         let (salt, it) = iter_Str R it in do {
       (rest, it) \<leftarrow>
         expect R it [StrT] ErrInvalidPing (\<lambda>it.
           let (hexdigest, it) = iter_Bin R it in
         expect R it [StrT] ErrInvalidPing (\<lambda>it.
           let (username, it) = iter_Str R it in
         expect R it [StrT] ErrInvalidPing (\<lambda>it.
           let (password, it) = iter_Bin R it in Ret (Inr (hexdigest, username, password), it))));
       Ret (Inr (clientHostname, salt, rest), it) }))));
     case res of
       Inl e \<Rightarrow> Ret ((Some e, [], no_credentials), it)
     | Inr (clientHostname, salt, Inl e) \<Rightarrow> Ret ((Some e, salt, no_credentials), it)
     | Inr (clientHostname, salt, Inr (hexdigest, username, password)) \<Rightarrow>
         (case Auth username of
            Inl e \<Rightarrow> Ret ((Some (JoinAuth ErrFailedAuth e), salt, no_credentials), it)
          | Inr cred \<Rightarrow>
              if \<not> validateSha512Hex sha hexdigest [salt, clientHostname, nonce, SharedKey cred]
              then Ret ((Some (Const ErrInvalidSharedKey), salt, cred), it)
              else if auth \<noteq> [] \<and> \<not> validateSha512Hex sha password [auth, username, Password cred]
              then Ret ((Some (Const ErrFailedAuth), salt, cred), it)
              else Ret ((None, salt, cred), it)) }"

subsection \<open>PONG\<close>

definition writePong :: "(bytes \<Rightarrow> bytes) \<Rightarrow> bytes \<Rightarrow> bytes \<Rightarrow> bytes \<Rightarrow> bytes \<Rightarrow> bytes \<Rightarrow> bool \<Rightarrow> bytes \<Rightarrow> bytes go" where
  "writePong sha hostname b salt nonce sharedKey authResult reason =
     (let b = AppendArrayHeader b 5;
          b = AppendString b PONG;
          b = AppendBool b authResult;
          b = AppendString b reason;
          b = AppendString b hostname
      in AppendStringMax255 b (sha512Hex sha [salt, hostname, nonce, sharedKey]))"

definition readPong :: "'r ring \<Rightarrow> (bytes \<Rightarrow> bytes) \<Rightarrow> bytes \<Rightarrow> bytes \<Rightarrow> bytes \<Rightarrow> 'r Iterator \<Rightarrow> ('r, bytes) reading" where
  "readPong R sha salt nonce sharedKey it =
     expect R it [ArrayT] ErrInvalidPong (\<lambda>it.
       if it_items it \<noteq> 5 then failure (Const ErrInvalidPong) it else
     expect R it [StrT] ErrInvalidPong (\<lambda>it.
       let (typ, it) = iter_Str R it in
       if typ \<noteq> PONG then failure (WrongType ErrInvalidPong typ) it else
     expect R it [BoolT] ErrInvalidPong (\<lambda>it.
       let authResult = iter_Bool it in
     expect R it [StrT] ErrInvalidPong (\<lambda>it.
       let (reason, it) = iter_Str R it in
     expect R it [StrT] ErrInvalidPong (\<lambda>it.
       let (serverHostname, it) = iter_Str R it in
     expect R it [StrT] ErrInvalidPong (\<lambda>it.
       let (hexdigest, it) = iter_Bin R it in
       if \<not> authResult then
         if reason \<noteq> [] then failure (WithReason ErrFailedAuth reason) it else failure (Const ErrFailedAuth) it
       else if \<not> validateSha512Hex sha hexdigest [salt, serverHostname, nonce, sharedKey] then failure (Const ErrFailedAuth) it
       else Ret (Inr serverHostname, it)))))))"

subsection \<open>ServerSession.authenticate and Client.Connect\<close>

text \<open>
  The server's side in two halves: what it sends first, and what it answers to the PING that the
  iterator is about to read, with the user it has authenticated or the error it returns.
\<close>

definition server_helo :: "bool \<Rightarrow> bytes \<Rightarrow> bytes \<times> bytes \<times> bytes" where
  "server_helo PasswordAuth nonceAuth =
     (let nonce = take 24 nonceAuth;
          auth = (if PasswordAuth then drop 24 nonceAuth else [])
      in (nonce, auth, writeHelo [] nonce auth))"

definition server_answer :: "'r ring \<Rightarrow> (bytes \<Rightarrow> bytes) \<Rightarrow> (bytes \<Rightarrow> bytes + Credentials) \<Rightarrow> (herr \<Rightarrow> bytes) \<Rightarrow> bytes \<Rightarrow>
    bytes \<Rightarrow> bytes \<Rightarrow> 'r Iterator \<Rightarrow> (((herr + bytes) \<times> bytes) \<times> 'r Iterator) go" where
  "server_answer R sha Auth err_text hostname nonce auth it = do {
     ((err, salt, cred), it) \<leftarrow> readPing R sha Auth nonce auth it;
     case err of
       Some e \<Rightarrow> do { b \<leftarrow> writePong sha hostname [] nonce salt [] False (err_text e); Ret ((Inl e, b), it) }
     | None \<Rightarrow> do { b \<leftarrow> writePong sha hostname [] salt nonce (SharedKey cred) True []; Ret ((Inr (Username cred), b), it) } }"

text \<open>
  The client's side of \<open>Client.Connect\<close>, after the connection is up and \<open>opt.Auth\<close> has given the
  credentials: what it returns (the server's host name, which \<open>readPong\<close> stores) and what it wrote.
\<close>

definition client_handshake :: "'r ring \<Rightarrow> (bytes \<Rightarrow> bytes) \<Rightarrow> bytes \<Rightarrow> Credentials \<Rightarrow> bytes \<Rightarrow> 'r Iterator \<Rightarrow>
    (((herr + bytes) \<times> bytes) \<times> 'r Iterator) go" where
  "client_handshake R sha hostname cred salt it = do {
     (res, it) \<leftarrow> readHelo R it;
     case res of
       Inl e \<Rightarrow> Ret ((Inl e, []), it)
     | Inr (nonce, auth, keepAlive) \<Rightarrow> do {
         ping \<leftarrow> writePing sha hostname [] cred salt nonce auth;
         (res, it) \<leftarrow> readPong R sha salt nonce (SharedKey cred) it;
         Ret ((res, ping), it) } }"

subsection \<open>Reading what was written\<close>

lemma wire_AppendString: "len s < 2 ^ 32 \<Longrightarrow> wire (MStr s) (AppendString [] s)"
  using encode_wire [of "MStr s"] by simp

lemma expect_Next: "Next R it = Ret (True, it1) \<Longrightarrow> it_typ it1 \<in> set ts \<Longrightarrow> expect R it ts w k = k it1"
  by (simp add: expect_def NextExpectedType_def)

lemma Next_Str:
  assumes R: "ring_contract R rest limit" and "wire (MStr s) bs" "rest (it_r it) = bs @ xs" "len s \<le> limit"
  obtains it1 it2 where "Next R it = Ret (True, it1)" "it_typ it1 = StrT" "iter_Str R it1 = (s, it2)" "iter_Bin R it1 = (s, it2)"
    "rest (it_r it2) = xs"
proof -
  obtain c lb body r where n: "decodes (MStr s) c body" "Next R it = Ret (True, token it c (msg_type (MStr s)) (len body) r)"
    "rest r = body @ xs"
    by (rule Next_scalar [OF R assms(2) _ assms(3)]) auto
  let ?it = "token it c StrT (len s) r"
  obtain r2 where "raw R ?it = ((s, True), ?it\<lparr>it_err := None, it_r := r2\<rparr>)" "rest r2 = xs"
    using raw_body [OF R, of ?it s xs] n assms(4) by auto
  with n show thesis by (intro that [of ?it "?it\<lparr>it_err := None, it_r := r2\<rparr>"]) (simp_all add: iter_Str_def iter_Bin_def)
qed

lemma expect_Str:
  assumes "ring_contract R rest limit" and "wire (MStr s) bs" "rest (it_r it) = bs @ xs" "len s \<le> limit" and "StrT \<in> set ts"
  obtains it1 it2 where "\<And>w k. expect R it ts w k = k it1" "iter_Str R it1 = (s, it2)" "iter_Bin R it1 = (s, it2)" "rest (it_r it2) = xs"
  by (rule Next_Str [OF assms(1-4)]) (metis assms(5) expect_Next that)

lemma expect_container:
  assumes R: "ring_contract R rest limit" and "header c [] t n n" "t = ArrayT \<or> t = MapT" "rest (it_r it) = c # xs" and "t \<in> set ts"
  obtains it1 where "\<And>w k. expect R it ts w k = k it1" "it_items it1 = n" "rest (it_r it1) = xs"
proof -
  obtain r where "Next R it = Ret (True, token it c t n r)" "rest r = xs"
    using Next_header [OF R _ assms(2), of it xs] assms(4) by auto
  with assms(3,5) show thesis by (intro that [of "token it c t n r"]) (auto intro: expect_Next)
qed

lemma Next_Bool:
  assumes R: "ring_contract R rest limit" and "rest (it_r it) = AppendBool [] b @ xs"
  obtains it1 where "Next R it = Ret (True, it1)" "it_typ it1 = BoolT" "iter_Bool it1 = b" "rest (it_r it1) = xs"
proof -
  have "wire (MBool b) (AppendBool [] b)" using encode_wire [of "MBool b"] by simp
  then obtain c lb body r where "decodes (MBool b) c body"
    "Next R it = Ret (True, token it c (msg_type (MBool b)) (len body) r)" "rest r = body @ xs"
    by (rule Next_scalar [OF R _ _ assms(2)]) auto
  then show thesis by (intro that [of "token it c BoolT 0 r"]) (simp_all add: iter_Bool_def)
qed

lemma small_headers: "header 0x92 [] ArrayT 2 2" "header 0x96 [] ArrayT 6 6" "header 0x95 [] ArrayT 5 5" "header 0x83 [] MapT 3 3"
  using Get_fix_header(3) [of 2] Get_fix_header(3) [of 6] Get_fix_header(3) [of 5] Get_fix_header(2) [of 3]
  by (simp_all add: header_def ibyte_at_def)

lemma writeHelo_bytes: "writeHelo [] nonce auth =
    0x92 # AppendString [] HELO @ 0x83 # AppendString [] (text_bytes ''nonce'') @ AppendString [] nonce @
    AppendString [] (text_bytes ''auth'') @ AppendString [] auth @ AppendString [] (text_bytes ''keepalive'') @ AppendBool [] True"
proof -
  have p: "AppendString b s = b @ AppendString [] s" "AppendMapHeader b n = b @ AppendMapHeader [] n" "AppendBool b v = b @ AppendBool [] v" for b s n v
    by (rule AppendString_prefix, simp add: AppendMapHeader_def, simp add: AppendBool_def)
  show ?thesis
    unfolding writeHelo_def Let_def
    by (subst p(3), subst p(1), subst (2) p(1), subst (3) p(1), subst (4) p(1), subst (5) p(1), subst p(2), subst (6) p(1))
      (simp add: AppendArrayHeader_def AppendMapHeader_def ibyte_at_def)
qed


lemma readHelo_writeHelo:
  assumes R: "ring_contract R rest limit" and r: "rest (it_r it) = writeHelo [] nonce auth @ xs"
    and n: "nonce \<noteq> []" "len nonce \<le> limit" "len nonce < 2 ^ 32" and a: "len auth \<le> limit" "len auth < 2 ^ 32"
  obtains it' where "readHelo R it = Ret (Inr (nonce, auth, True), it')" "rest (it_r it') = xs"
proof -
  let ?S = "\<lambda>s. AppendString [] s"
  let ?n = "text_bytes ''nonce''" and ?a = "text_bytes ''auth''" and ?k = "text_bytes ''keepalive''"
  have lim: "9 \<le> limit" using R by (rule ring_limit)
  have l: "len HELO \<le> limit" "len ?n \<le> limit" "len ?a \<le> limit" "len ?k \<le> limit" using lim by (simp_all add: text_bytes_def)
  have w: "wire (MStr HELO) (?S HELO)" "wire (MStr ?n) (?S ?n)" "wire (MStr ?a) (?S ?a)" "wire (MStr ?k) (?S ?k)"
    "wire (MStr nonce) (?S nonce)" "wire (MStr auth) (?S auth)"
    using n a by (intro wire_AppendString; simp add: text_bytes_def)+
  from r have r0: "rest (it_r it) = 0x92 # ?S HELO @ 0x83 # ?S ?n @ ?S nonce @ ?S ?a @ ?S auth @ ?S ?k @ AppendBool [] True @ xs"
    by (simp add: writeHelo_bytes)
  obtain i1 where i1: "\<And>w k. expect R it [ArrayT] w k = (k i1 :: ('a, bytes \<times> bytes \<times> bool) reading)" "it_items i1 = 2"
    "rest (it_r i1) = ?S HELO @ 0x83 # ?S ?n @ ?S nonce @ ?S ?a @ ?S auth @ ?S ?k @ AppendBool [] True @ xs"
    by (rule expect_container [OF R small_headers(1) _ r0, of "[ArrayT]"]) auto
  obtain i2 i3 where i3: "\<And>w k. expect R i1 [StrT] w k = (k i2 :: ('a, bytes \<times> bytes \<times> bool) reading)" "iter_Str R i2 = (HELO, i3)"
    "rest (it_r i3) = 0x83 # ?S ?n @ ?S nonce @ ?S ?a @ ?S auth @ ?S ?k @ AppendBool [] True @ xs"
    by (rule expect_Str [OF R w(1) i1(3) l(1), of "[StrT]"]) auto
  obtain i4 where i4: "\<And>w k. expect R i3 [MapT] w k = (k i4 :: ('a, bytes \<times> bytes \<times> bool) reading)" "it_items i4 = 3"
    "rest (it_r i4) = ?S ?n @ ?S nonce @ ?S ?a @ ?S auth @ ?S ?k @ AppendBool [] True @ xs"
    by (rule expect_container [OF R small_headers(4) _ i3(3), of "[MapT]"]) auto
  obtain i5 i6 where i6: "\<And>w k. expect R i4 [StrT] w k = (k i5 :: ('a, bytes \<times> bytes \<times> bool) reading)" "iter_Str R i5 = (?n, i6)"
    "rest (it_r i6) = ?S nonce @ ?S ?a @ ?S auth @ ?S ?k @ AppendBool [] True @ xs"
    by (rule expect_Str [OF R w(2) i4(3) l(2), of "[StrT]"]) auto
  obtain i7 i8 where i8: "Next R i6 = Ret (True, i7)" "iter_Str R i7 = (nonce, i8)" "rest (it_r i8) = ?S ?a @ ?S auth @ ?S ?k @ AppendBool [] True @ xs"
    by (rule Next_Str [OF R w(5) i6(3) n(2)]) auto
  obtain i9 i10 where i10: "\<And>w k. expect R i8 [StrT] w k = (k i9 :: ('a, bytes \<times> bytes \<times> bool) reading)" "iter_Str R i9 = (?a, i10)"
    "rest (it_r i10) = ?S auth @ ?S ?k @ AppendBool [] True @ xs"
    by (rule expect_Str [OF R w(3) i8(3) l(3), of "[StrT]"]) auto
  obtain i11 i12 where i12: "Next R i10 = Ret (True, i11)" "iter_Str R i11 = (auth, i12)" "rest (it_r i12) = ?S ?k @ AppendBool [] True @ xs"
    by (rule Next_Str [OF R w(6) i10(3) a(1)]) auto
  obtain i13 i14 where i14: "\<And>w k. expect R i12 [StrT] w k = (k i13 :: ('a, bytes \<times> bytes \<times> bool) reading)" "iter_Str R i13 = (?k, i14)"
    "rest (it_r i14) = AppendBool [] True @ xs"
    by (rule expect_Str [OF R w(4) i12(3) l(4), of "[StrT]"]) auto
  obtain i15 where i15: "Next R i14 = Ret (True, i15)" "iter_Bool i15 = True" "rest (it_r i15) = xs"
    by (rule Next_Bool [OF R i14(3)]) auto
  have k: "?n \<noteq> ?a" "?k \<noteq> ?n" "?k \<noteq> ?a" "?a \<noteq> ?n" by (simp_all add: text_bytes_def)
  have "helo_loop R 3 [] [] True i4 = Ret (Inr (nonce, auth, True), i15)"
    by (simp add: numeral_3_eq_3 i6 i8 i10 i12 i14 i15 k)
  then have "readHelo R it = Ret (Inr (nonce, auth, True), i15)"
    using n(1) by (simp add: readHelo_def i1 i3 i4)
  from this i15(3) show thesis by (rule that)
qed

abbreviation hexdigest :: "(bytes \<Rightarrow> bytes) \<Rightarrow> bytes list \<Rightarrow> bytes" where
  "hexdigest sha vals \<equiv> hex_Encode (sha (concat vals))"

lemma validate_iff: "validateSha512Hex sha s vals \<longleftrightarrow> s = hexdigest sha vals"
  by (simp add: validateSha512Hex_def sha512Hex_def)

lemma length_hex_Encode: "length (hex_Encode b) = 2 * length b"
  by (induction b) (auto simp: hex_Encode_def)

definition digest_bytes :: "(bytes \<Rightarrow> bytes) \<Rightarrow> bytes list \<Rightarrow> bytes" where
  "digest_bytes sha vals = [0xd9, 0x80] @ hexdigest sha vals"

lemma digest_written:
  assumes "\<And>x. length (sha x) = 64"
  shows "AppendStringMax255 b (sha512Hex sha vals) = Ret (b @ digest_bytes sha vals)"
    and "wire (MStr (hexdigest sha vals)) (digest_bytes sha vals)" and "len (hexdigest sha vals) = 128"
proof -
  show l: "len (hexdigest sha vals) = 128" using assms by (simp add: length_hex_Encode)
  have "appends (sha512Hex sha vals) (hexdigest sha vals)" by (simp add: appends_def sha512Hex_def)
  from AppendStringMax255_appends [OF this, of b] l show "AppendStringMax255 b (sha512Hex sha vals) = Ret (b @ digest_bytes sha vals)"
    by (simp add: digest_bytes_def ibyte_at_def)
  show "wire (MStr (hexdigest sha vals)) (digest_bytes sha vals)"
    using wire_str8 [of "hexdigest sha vals"] l by (simp add: digest_bytes_def ibyte_at_def)
qed

lemma pong_start: "AppendString (AppendString (AppendBool (AppendString (AppendArrayHeader [] 5) PONG) v) reason) hostname =
    0x95 # AppendString [] PONG @ AppendBool [] v @ AppendString [] reason @ AppendString [] hostname"
proof -
  have p: "AppendString b s = b @ AppendString [] s" "AppendBool b v = b @ AppendBool [] v" for b s v
    by (rule AppendString_prefix, simp add: AppendBool_def)
  show ?thesis
    by (subst p(1), subst (2) p(1), subst p(2), subst (3) p(1)) (simp add: AppendArrayHeader_def ibyte_at_def)
qed

lemma ping_start: "AppendString (AppendString (AppendString (AppendArrayHeader [] 6) PING) hostname) salt =
    0x96 # AppendString [] PING @ AppendString [] hostname @ AppendString [] salt"
proof -
  note p = AppendString_prefix
  show ?thesis
    by (subst p, subst (2) p, subst (3) p) (simp add: AppendArrayHeader_def ibyte_at_def)
qed

lemma writePong_bytes:
  assumes "\<And>x. length (sha x) = 64"
  shows "writePong sha hostname [] salt nonce key v reason = Ret (0x95 # AppendString [] PONG @ AppendBool [] v @ AppendString [] reason @
    AppendString [] hostname @ digest_bytes sha [salt, hostname, nonce, key])"
  using digest_written(1) [where sha = sha, OF assms] by (simp add: writePong_def Let_def pong_start)

text \<open>The password digest is only sent when the server asked for it.\<close>

definition password_bytes :: "(bytes \<Rightarrow> bytes) \<Rightarrow> Credentials \<Rightarrow> bytes \<Rightarrow> bytes" where
  "password_bytes sha cred auth =
     (if auth \<noteq> [] then AppendString [] (Username cred) @ digest_bytes sha [auth, Username cred, Password cred]
      else AppendString [] [] @ AppendString [] [])"

lemma writePing_bytes:
  assumes "\<And>x. length (sha x) = 64"
  shows "writePing sha hostname [] cred salt nonce auth = Ret (0x96 # AppendString [] PING @ AppendString [] hostname @ AppendString [] salt @
    digest_bytes sha [salt, hostname, nonce, SharedKey cred] @ password_bytes sha cred auth)"
proof -
  have p: "AppendString (AppendString b []) [] = b @ AppendString [] [] @ AppendString [] []" for b
    using AppendString_then(1) [of b "[]" "[]"] .
  show ?thesis
    using digest_written(1) [where sha = sha, OF assms]
    by (simp add: writePing_def Let_def ping_start password_bytes_def p AppendString_prefix [of "0x96 # _"])
qed

lemma readPong_writePong:
  assumes R: "ring_contract R rest limit" and sha: "\<And>x. length (sha x) = 64" and lim: "128 \<le> limit"
    and w: "writePong sha hostname [] s1 s2 key v reason = Ret b" and r: "rest (it_r it) = b @ xs"
    and l: "len hostname \<le> limit" "len hostname < 2 ^ 32" "len reason \<le> limit" "len reason < 2 ^ 32"
  obtains it' where "readPong R sha salt nonce sharedKey it = Ret
      (if \<not> v then if reason \<noteq> [] then Inl (WithReason ErrFailedAuth reason) else Inl (Const ErrFailedAuth)
       else if hexdigest sha [s1, hostname, s2, key] \<noteq> hexdigest sha [salt, hostname, nonce, sharedKey] then Inl (Const ErrFailedAuth)
       else Inr hostname, it')" "rest (it_r it') = xs"
proof -
  let ?S = "\<lambda>s. AppendString [] s" and ?d = "digest_bytes sha [s1, hostname, s2, key]"
  from w r have r0: "rest (it_r it) = 0x95 # ?S PONG @ AppendBool [] v @ ?S reason @ ?S hostname @ ?d @ xs"
    by (simp add: writePong_bytes [where sha = sha, OF sha])
  have wr: "wire (MStr PONG) (?S PONG)" "wire (MStr reason) (?S reason)" "wire (MStr hostname) (?S hostname)"
    using l by (intro wire_AppendString; simp)+
  obtain i1 where i1: "\<And>w k. expect R it [ArrayT] w k = (k i1 :: ('a, bytes) reading)" "it_items i1 = 5"
    "rest (it_r i1) = ?S PONG @ AppendBool [] v @ ?S reason @ ?S hostname @ ?d @ xs"
    by (rule expect_container [OF R small_headers(3) _ r0, of "[ArrayT]"]) auto
  obtain i2 i3 where i3: "\<And>w k. expect R i1 [StrT] w k = (k i2 :: ('a, bytes) reading)" "iter_Str R i2 = (PONG, i3)"
    "rest (it_r i3) = AppendBool [] v @ ?S reason @ ?S hostname @ ?d @ xs"
    by (rule expect_Str [OF R wr(1) i1(3), of "[StrT]"]) (use lim in auto)
  obtain i4 where i4: "Next R i3 = Ret (True, i4)" "it_typ i4 = BoolT" "iter_Bool i4 = v" "rest (it_r i4) = ?S reason @ ?S hostname @ ?d @ xs"
    by (rule Next_Bool [OF R i3(3)]) auto
  have e4: "expect R i3 [BoolT] w k = (k i4 :: ('a, bytes) reading)" for w k
    using i4(1,2) by (intro expect_Next) simp_all
  obtain i5 i6 where i6: "\<And>w k. expect R i4 [StrT] w k = (k i5 :: ('a, bytes) reading)" "iter_Str R i5 = (reason, i6)"
    "rest (it_r i6) = ?S hostname @ ?d @ xs"
    by (rule expect_Str [OF R wr(2) i4(4) l(3), of "[StrT]"]) auto
  obtain i7 i8 where i8: "\<And>w k. expect R i6 [StrT] w k = (k i7 :: ('a, bytes) reading)" "iter_Str R i7 = (hostname, i8)"
    "rest (it_r i8) = ?d @ xs"
    by (rule expect_Str [OF R wr(3) i6(3) l(1), of "[StrT]"]) auto
  have dl: "len (hexdigest sha [s1, hostname, s2, key]) \<le> limit"
    using digest_written(3) [where sha = sha and vals = "[s1, hostname, s2, key]", OF sha] lim by simp
  obtain i9 i10 where i10: "\<And>w k. expect R i8 [StrT] w k = (k i9 :: ('a, bytes) reading)"
    "iter_Bin R i9 = (hexdigest sha [s1, hostname, s2, key], i10)" "rest (it_r i10) = xs"
    by (rule expect_Str [OF R digest_written(2) [OF sha] i8(3) dl, of "[StrT]"]) auto
  show thesis
    by (rule that [of i10]) (use i10(3) in \<open>auto simp: readPong_def i1 i3 e4 i4(3) i6 i8 i10 validate_iff failure_def Let_def\<close>)
qed

text \<open>Any PING at all, with arbitrary digests, and then the one that the client writes.\<close>

lemma readPing_message:
  assumes R: "ring_contract R rest limit"
    and r: "rest (it_r it) = 0x96 # AppendString [] PING @ hb @ sb @ kb @ ub @ pb @ xs"
    and w: "wire (MStr hostname) hb" "wire (MStr salt) sb" "wire (MStr key) kb" "wire (MStr user) ub" "wire (MStr pw) pb"
    and l: "len hostname \<le> limit" "len salt \<le> limit" "len key \<le> limit" "len user \<le> limit" "len pw \<le> limit"
  obtains it' where "readPing R sha Auth nonce auth it = (case Auth user of
      Inl e \<Rightarrow> Ret ((Some (JoinAuth ErrFailedAuth e), salt, no_credentials), it')
    | Inr cred \<Rightarrow>
        if \<not> key = hexdigest sha [salt, hostname, nonce, SharedKey cred] then Ret ((Some (Const ErrInvalidSharedKey), salt, cred), it')
        else if auth \<noteq> [] \<and> \<not> pw = hexdigest sha [auth, user, Password cred] then Ret ((Some (Const ErrFailedAuth), salt, cred), it')
        else Ret ((None, salt, cred), it'))" "rest (it_r it') = xs"
proof -
  have wp: "wire (MStr PING) (AppendString [] PING)" by (rule wire_AppendString) simp
  have lp: "len PING \<le> limit" using ring_limit [OF R] by simp
  obtain i1 where i1: "\<And>w k. expect R it [ArrayT] w k = (k i1 :: ('a, bytes \<times> bytes \<times> (herr + bytes \<times> bytes \<times> bytes)) reading)" "it_items i1 = 6"
    "rest (it_r i1) = AppendString [] PING @ hb @ sb @ kb @ ub @ pb @ xs"
    by (rule expect_container [OF R small_headers(2) _ r, of "[ArrayT]"]) auto
  obtain i2 i3 where i3: "\<And>w k. expect R i1 [StrT] w k = (k i2 :: ('a, bytes \<times> bytes \<times> (herr + bytes \<times> bytes \<times> bytes)) reading)"
    "iter_Str R i2 = (PING, i3)" "rest (it_r i3) = hb @ sb @ kb @ ub @ pb @ xs"
    by (rule expect_Str [OF R wp i1(3) lp, of "[StrT]"]) auto
  obtain i4 i5 where i5: "\<And>w k. expect R i3 [StrT] w k = (k i4 :: ('a, bytes \<times> bytes \<times> (herr + bytes \<times> bytes \<times> bytes)) reading)"
    "iter_Str R i4 = (hostname, i5)" "rest (it_r i5) = sb @ kb @ ub @ pb @ xs"
    by (rule expect_Str [OF R w(1) i3(3) l(1), of "[StrT]"]) auto
  obtain i6 i7 where i7: "\<And>w k. expect R i5 [StrT, BinT] w k = (k i6 :: ('a, bytes \<times> bytes \<times> (herr + bytes \<times> bytes \<times> bytes)) reading)"
    "iter_Str R i6 = (salt, i7)" "rest (it_r i7) = kb @ ub @ pb @ xs"
    by (rule expect_Str [OF R w(2) i5(3) l(2), of "[StrT, BinT]"]) auto
  obtain i8 i9 where i9: "\<And>w k. expect R i7 [StrT] w k = (k i8 :: ('a, bytes \<times> bytes \<times> bytes) reading)"
    "iter_Bin R i8 = (key, i9)" "rest (it_r i9) = ub @ pb @ xs"
    by (rule expect_Str [OF R w(3) i7(3) l(3), of "[StrT]"]) auto
  obtain i10 i11 where i11: "\<And>w k. expect R i9 [StrT] w k = (k i10 :: ('a, bytes \<times> bytes \<times> bytes) reading)"
    "iter_Str R i10 = (user, i11)" "rest (it_r i11) = pb @ xs"
    by (rule expect_Str [OF R w(4) i9(3) l(4), of "[StrT]"]) auto
  obtain i12 i13 where i13: "\<And>w k. expect R i11 [StrT] w k = (k i12 :: ('a, bytes \<times> bytes \<times> bytes) reading)"
    "iter_Bin R i12 = (pw, i13)" "rest (it_r i13) = xs"
    by (rule expect_Str [OF R w(5) i11(3) l(5), of "[StrT]"]) auto
  show thesis
    by (rule that [of i13])
      (simp_all only: readPing_def i1 i3 i5 i7 i9 i11 i13 Let_def prod.case bind.bind_lunit sum.case validate_iff if_False simp_thms)
qed

lemma readPing_writePing:
  assumes R: "ring_contract R rest limit" and sha: "\<And>x. length (sha x) = 64" and lim: "128 \<le> limit"
    and w: "writePing sha hostname [] cred salt nonce auth = Ret b" and r: "rest (it_r it) = b @ xs"
    and l: "len hostname \<le> limit" "len hostname < 2 ^ 32" "len salt \<le> limit" "len salt < 2 ^ 32"
      "len (Username cred) \<le> limit" "len (Username cred) < 2 ^ 32"
    and A: "Auth (if auth \<noteq> [] then Username cred else []) = Inr scred"
  obtains it' where "readPing R sha Auth nonce auth it = Ret
      ((if hexdigest sha [salt, hostname, nonce, SharedKey cred] \<noteq> hexdigest sha [salt, hostname, nonce, SharedKey scred]
        then Some (Const ErrInvalidSharedKey)
        else if auth \<noteq> [] \<and> hexdigest sha [auth, Username cred, Password cred] \<noteq> hexdigest sha [auth, Username cred, Password scred]
        then Some (Const ErrFailedAuth) else None, salt, scred), it')" "rest (it_r it') = xs"
proof -
  let ?u = "if auth \<noteq> [] then Username cred else []" and ?p = "if auth \<noteq> [] then hexdigest sha [auth, Username cred, Password cred] else []"
  let ?pb = "if auth \<noteq> [] then digest_bytes sha [auth, Username cred, Password cred] else AppendString [] []"
  from w r have r0: "rest (it_r it) = 0x96 # AppendString [] PING @ AppendString [] hostname @ AppendString [] salt @
      digest_bytes sha [salt, hostname, nonce, SharedKey cred] @ AppendString [] ?u @ ?pb @ xs"
    by (auto simp: writePing_bytes [where sha = sha, OF sha] password_bytes_def)
  have wp: "wire (MStr ?p) ?pb"
    using digest_written(2) [where sha = sha and vals = "[auth, Username cred, Password cred]", OF sha] wire_AppendString [of "[]"] by simp
  have wr: "wire (MStr hostname) (AppendString [] hostname)" "wire (MStr salt) (AppendString [] salt)" "wire (MStr ?u) (AppendString [] ?u)"
    using l by (intro wire_AppendString; simp)+
  have dl: "len (hexdigest sha [salt, hostname, nonce, SharedKey cred]) \<le> limit" "len ?u \<le> limit" "len ?p \<le> limit"
    using digest_written(3) [where sha = sha and vals = "[salt, hostname, nonce, SharedKey cred]", OF sha] l lim
      digest_written(3) [where sha = sha and vals = "[auth, Username cred, Password cred]", OF sha] by simp_all
  show thesis
    by (rule readPing_message [OF R r0 wr(1,2) digest_written(2) [OF sha] wr(3) wp l(1,3) dl, of sha Auth nonce auth])
      (rule that, auto simp: A split: if_splits)
qed

subsection \<open>Both sides\<close>

lemma server_answer_accepts:
  "readPing R sha Auth nonce auth it = Ret ((None, salt, cred), it') \<Longrightarrow> (\<And>x. length (sha x) = 64) \<Longrightarrow>
     \<exists>b. writePong sha hostname [] salt nonce (SharedKey cred) True [] = Ret b \<and>
       server_answer R sha Auth err_text hostname nonce auth it = Ret ((Inr (Username cred), b), it')"
  "readPing R sha Auth nonce auth it = Ret ((Some e, salt, cred), it') \<Longrightarrow> (\<And>x. length (sha x) = 64) \<Longrightarrow>
     \<exists>b. writePong sha hostname [] nonce salt [] False (err_text e) = Ret b \<and>
       server_answer R sha Auth err_text hostname nonce auth it = Ret ((Inl e, b), it')"
  by (simp_all add: server_answer_def writePong_bytes [where sha = sha])

text \<open>
  C17. A PING is accepted exactly when the owner's callback knows its user, its shared-key digest is
  that of the salt, the host name and the nonce of this session with the key of that user, and, when
  a password was asked for, its password digest is right, whatever else a peer puts in the message:
  no other PING of six strings makes \<open>authenticate\<close> record a user.
\<close>

theorem PING_accepted_iff:
  assumes "ring_contract R rest limit" and "\<And>x. length (sha x) = 64"
    and "rest (it_r it) = 0x96 # AppendString [] PING @ hb @ sb @ kb @ ub @ pb @ xs"
    and "wire (MStr hostname) hb" "wire (MStr salt) sb" "wire (MStr key) kb" "wire (MStr user) ub" "wire (MStr pw) pb"
    and "len hostname \<le> limit" "len salt \<le> limit" "len key \<le> limit" "len user \<le> limit" "len pw \<le> limit"
  shows "\<exists>res b it'. server_answer R sha Auth err_text server nonce auth it = Ret ((res, b), it') \<and> rest (it_r it') = xs \<and>
    (\<forall>u. res = Inr u \<longleftrightarrow> (\<exists>cred. Auth user = Inr cred \<and> u = Username cred \<and>
       key = hex_Encode (sha (salt @ hostname @ nonce @ SharedKey cred)) \<and>
       (auth \<noteq> [] \<longrightarrow> pw = hex_Encode (sha (auth @ user @ Password cred)))))"
proof -
  obtain it' where p: "readPing R sha Auth nonce auth it = (case Auth user of
      Inl e \<Rightarrow> Ret ((Some (JoinAuth ErrFailedAuth e), salt, no_credentials), it')
    | Inr cred \<Rightarrow>
        if \<not> key = hexdigest sha [salt, hostname, nonce, SharedKey cred] then Ret ((Some (Const ErrInvalidSharedKey), salt, cred), it')
        else if auth \<noteq> [] \<and> \<not> pw = hexdigest sha [auth, user, Password cred] then Ret ((Some (Const ErrFailedAuth), salt, cred), it')
        else Ret ((None, salt, cred), it'))" "rest (it_r it') = xs"
    by (rule readPing_message [OF assms(1,3-)])
  show ?thesis
  proof (cases "\<exists>cred. Auth user = Inr cred \<and> key = hexdigest sha [salt, hostname, nonce, SharedKey cred] \<and>
      (auth \<noteq> [] \<longrightarrow> pw = hexdigest sha [auth, user, Password cred])")
    case True
    then obtain cred where c: "Auth user = Inr cred" "key = hexdigest sha [salt, hostname, nonce, SharedKey cred]"
      "auth \<noteq> [] \<longrightarrow> pw = hexdigest sha [auth, user, Password cred]" by blast
    then have "readPing R sha Auth nonce auth it = Ret ((None, salt, cred), it')" using p(1) by auto
    from server_answer_accepts(1) [OF this assms(2), of server err_text] c p(2) show ?thesis by fastforce
  next
    case False
    have "\<exists>e c. readPing R sha Auth nonce auth it = Ret ((Some e, salt, c), it')"
      using False by (auto simp: p(1) split: sum.split)
    then obtain e c where "readPing R sha Auth nonce auth it = Ret ((Some e, salt, c), it')" by blast
    from server_answer_accepts(2) [OF this assms(2), of server err_text] False p(2) show ?thesis by auto
  qed
qed

text \<open>What the server makes of the credentials \<open>cred\<close> of a client, given those it knows.\<close>

definition verdict :: "(bytes \<Rightarrow> bytes) \<Rightarrow> bytes \<Rightarrow> bytes \<Rightarrow> bytes \<Rightarrow> bytes \<Rightarrow> Credentials \<Rightarrow> Credentials \<Rightarrow> ferr option" where
  "verdict sha salt hostname nonce auth cred scred =
     (if hexdigest sha [salt, hostname, nonce, SharedKey cred] \<noteq> hexdigest sha [salt, hostname, nonce, SharedKey scred]
      then Some ErrInvalidSharedKey
      else if auth \<noteq> [] \<and> hexdigest sha [auth, Username cred, Password cred] \<noteq> hexdigest sha [auth, Username cred, Password scred]
      then Some ErrFailedAuth else None)"

lemma handshake_outcome:
  assumes R: "ring_contract (Rs :: 's ring) rests ls" "ring_contract (Rc :: 'c ring) restc lc" "128 \<le> ls" "128 \<le> lc"
    and sha: "\<And>x. length (sha x) = 64"
    and h: "server_helo P rnd = (nonce, auth, helo)" "length rnd = 48" and salt: "length salt = 24"
    and l: "len chost \<le> ls" "len chost < 2 ^ 32" "len (Username cred) \<le> ls" "len (Username cred) < 2 ^ 32"
      "len shost \<le> lc" "len shost < 2 ^ 32" "\<And>e. len (err_text e) \<le> lc" "\<And>e. len (err_text e) < 2 ^ 32"
    and A: "Auth (if P then Username cred else []) = Inr scred"
  obtains ping pong where
    "\<And>its xs. rests (it_r its) = ping @ xs \<Longrightarrow> \<exists>its'. rests (it_r its') = xs \<and>
       server_answer Rs sha Auth err_text shost nonce auth its =
         Ret ((case verdict sha salt chost nonce auth cred scred of None \<Rightarrow> Inr (Username scred) | Some e \<Rightarrow> Inl (Const e), pong), its')"
    "\<And>itc ys. restc (it_r itc) = helo @ pong @ ys \<Longrightarrow> \<exists>itc'. restc (it_r itc') = ys \<and>
       client_handshake Rc sha chost cred salt itc =
         Ret ((case verdict sha salt chost nonce auth cred scred of
                 None \<Rightarrow> if hexdigest sha [salt, shost, nonce, SharedKey scred] \<noteq> hexdigest sha [salt, shost, nonce, SharedKey cred]
                   then Inl (Const ErrFailedAuth) else Inr shost
               | Some e \<Rightarrow> Inl (if err_text (Const e) \<noteq> [] then WithReason ErrFailedAuth (err_text (Const e)) else Const ErrFailedAuth),
               ping), itc')"
proof -
  let ?v = "verdict sha salt chost nonce auth cred scred"
  have na: "nonce = take 24 rnd" "auth = (if P then drop 24 rnd else [])" "helo = writeHelo [] nonce auth"
    using h(1) by (auto simp: server_helo_def Let_def)
  have nl: "length nonce = 24" "length auth \<le> 24" "auth \<noteq> [] \<longleftrightarrow> P" using na h(2) by auto
  let ?ping = "0x96 # AppendString [] PING @ AppendString [] chost @ AppendString [] salt @
      digest_bytes sha [salt, chost, nonce, SharedKey cred] @ password_bytes sha cred auth"
  have wp: "writePing sha chost [] cred salt nonce auth = Ret ?ping" by (rule writePing_bytes) (rule sha)
  have "\<exists>pong. writePong sha shost [] (if ?v = None then salt else nonce) (if ?v = None then nonce else salt)
      (if ?v = None then SharedKey scred else []) (?v = None) (case ?v of None \<Rightarrow> [] | Some e \<Rightarrow> err_text (Const e)) = Ret pong"
    using writePong_bytes [where sha = sha, OF sha] by blast
  then obtain pong where wo: "writePong sha shost [] (if ?v = None then salt else nonce) (if ?v = None then nonce else salt)
      (if ?v = None then SharedKey scred else []) (?v = None) (case ?v of None \<Rightarrow> [] | Some e \<Rightarrow> err_text (Const e)) = Ret pong" ..
  show thesis
  proof (rule that)
    fix its :: "'s Iterator" and xs assume r: "rests (it_r its) = ?ping @ xs"
    have A': "Auth (if auth \<noteq> [] then Username cred else []) = Inr scred" using A nl(3) by simp
    obtain it' where "readPing Rs sha Auth nonce auth its = Ret ((map_option Const ?v, salt, scred), it')" "rests (it_r it') = xs"
      by (rule readPing_writePing [where sha = sha and Auth = Auth, OF R(1) sha R(3) wp r l(1,2) _ _ l(3,4) A'])
        (use salt R(3) in \<open>auto simp: verdict_def\<close>)
    then show "\<exists>its'. rests (it_r its') = xs \<and> server_answer Rs sha Auth err_text shost nonce auth its =
         Ret ((case ?v of None \<Rightarrow> Inr (Username scred) | Some e \<Rightarrow> Inl (Const e), pong), its')"
      using wo by (intro exI [of _ it']) (cases ?v; simp add: server_answer_def)
  next
    fix itc :: "'c Iterator" and ys assume r: "restc (it_r itc) = helo @ pong @ ys"
    obtain i1 where i1: "readHelo Rc itc = Ret (Inr (nonce, auth, True), i1)" "restc (it_r i1) = pong @ ys"
      by (rule readHelo_writeHelo [OF R(2) r [unfolded na(3)]]) (use nl R(4) in auto)
    obtain i2 where "readPong Rc sha salt nonce (SharedKey cred) i1 = Ret
      (if \<not> ?v = None then if (case ?v of None \<Rightarrow> [] | Some e \<Rightarrow> err_text (Const e)) \<noteq> []
           then Inl (WithReason ErrFailedAuth (case ?v of None \<Rightarrow> [] | Some e \<Rightarrow> err_text (Const e))) else Inl (Const ErrFailedAuth)
       else if hexdigest sha [if ?v = None then salt else nonce, shost, if ?v = None then nonce else salt, if ?v = None then SharedKey scred else []]
            \<noteq> hexdigest sha [salt, shost, nonce, SharedKey cred] then Inl (Const ErrFailedAuth)
       else Inr shost, i2)" "restc (it_r i2) = ys"
      by (rule readPong_writePong [where sha = sha, OF R(2) sha R(4) wo i1(2) l(5,6)])
        (use l(7,8) R(4) in \<open>auto split: option.split\<close>)
    then show "\<exists>itc'. restc (it_r itc') = ys \<and> client_handshake Rc sha chost cred salt itc =
         Ret ((case ?v of
                 None \<Rightarrow> if hexdigest sha [salt, shost, nonce, SharedKey scred] \<noteq> hexdigest sha [salt, shost, nonce, SharedKey cred]
                   then Inl (Const ErrFailedAuth) else Inr shost
               | Some e \<Rightarrow> Inl (if err_text (Const e) \<noteq> [] then WithReason ErrFailedAuth (err_text (Const e)) else Const ErrFailedAuth),
               ?ping), itc')"
      using i1(1) wp by (intro exI [of _ i2]) (cases ?v; simp add: client_handshake_def)
  qed
qed

lemma hex_digit_eq: "m < 16 \<Longrightarrow> n < 16 \<Longrightarrow> hex_digit m = hex_digit n \<longleftrightarrow> m = n"
  by (auto simp: hex_digit_def word_unat_eq_iff unat_of_nat split: if_splits)

lemma hex_Encode_eq: "hex_Encode a = hex_Encode b \<longleftrightarrow> a = b"
proof (induction a arbitrary: b)
  case Nil
  show ?case by (cases b) (auto simp: hex_Encode_def)
next
  case (Cons x a)
  have lt: "unat (y :: byte) div 16 < 16" for y using unsigned_less [of y, where 'a = nat] by simp
  have "unat x div 16 = unat y div 16 \<and> unat x mod 16 = unat y mod 16 \<longleftrightarrow> x = y" for y :: byte
    by (metis div_mod_decomp word_unat_eq_iff)
  with Cons lt show ?case by (cases b) (auto simp: hex_Encode_def hex_digit_eq)
qed

text \<open>
  C8. The handshake of a client and a server that share the key, and the password when the server
  asks for one, succeeds, whatever the nonces, the host names and the hash: the server reads the PING
  that the client writes, authenticates the user that its callback returned and answers with a PONG;
  the client, reading HELO and PONG, accepts it and learns the server's host name. Both have consumed
  exactly the handshake, so the transport phase starts at the next byte.
\<close>

theorem handshake_completes:
  assumes "ring_contract Rs rests ls" "ring_contract Rc restc lc" "128 \<le> ls" "128 \<le> lc" and "\<And>x. length (sha x) = 64"
    and "server_helo P rnd = (nonce, auth, helo)" "length rnd = 48" "length salt = 24"
    and "len chost \<le> ls" "len chost < 2 ^ 32" "len (Username cred) \<le> ls" "len (Username cred) < 2 ^ 32"
      "len shost \<le> lc" "len shost < 2 ^ 32" "\<And>e. len (err_text e) \<le> lc" "\<And>e. len (err_text e) < 2 ^ 32"
    and "Auth (if P then Username cred else []) = Inr scred"
    and "SharedKey scred = SharedKey cred" "P \<Longrightarrow> Password scred = Password cred"
  shows "\<exists>ping pong.
    (\<forall>its xs. rests (it_r its) = ping @ xs \<longrightarrow> (\<exists>its'. rests (it_r its') = xs \<and>
       server_answer Rs sha Auth err_text shost nonce auth its = Ret ((Inr (Username scred), pong), its'))) \<and>
    (\<forall>itc ys. restc (it_r itc) = helo @ pong @ ys \<longrightarrow> (\<exists>itc'. restc (it_r itc') = ys \<and>
       client_handshake Rc sha chost cred salt itc = Ret ((Inr shost, ping), itc')))"
proof -
  have "auth \<noteq> [] \<Longrightarrow> P" using assms(6) by (auto simp: server_helo_def Let_def split: if_splits)
  then have "verdict sha salt chost nonce auth cred scred = None" using assms(18,19) by (cases P) (auto simp: verdict_def)
  then show ?thesis
    using assms(18) by (rule_tac handshake_outcome [where err_text = err_text and sha = sha and Auth = Auth, OF assms(1-17)]) force+
qed

abbreviation toy_sha :: "bytes \<Rightarrow> bytes" where
  "toy_sha x \<equiv> replicate 64 (last (0 # x))"

lemma handshake_completes_witness:
  "\<exists>ping pong its' itc'.
     server_answer (list_ring 128) toy_sha (StaticAuthServer \<lparr>Username = [1], Password = [2], SharedKey = [3]\<rparr>) (\<lambda>_. [9]) [8]
       (replicate 24 5) (replicate 24 5) (NewIterator (ping @ [7])) = Ret ((Inr [1], pong), its') \<and> it_r its' = [7] \<and>
     client_handshake (list_ring 128) toy_sha [4] \<lparr>Username = [1], Password = [2], SharedKey = [3]\<rparr> (replicate 24 6)
       (NewIterator (writeHelo [] (replicate 24 5) (replicate 24 5) @ pong @ [])) = Ret ((Inr [8], ping), itc') \<and> it_r itc' = []"
proof -
  let ?c = "\<lparr>Username = [1], Password = [2], SharedKey = [3]\<rparr>" and ?n = "replicate 24 5"
  obtain ping pong where o: "\<forall>its xs. it_r its = ping @ xs \<longrightarrow> (\<exists>its'. it_r its' = xs \<and>
       server_answer (list_ring 128) toy_sha (StaticAuthServer ?c) (\<lambda>_. [9]) [8] ?n ?n its = Ret ((Inr (Username ?c), pong), its'))"
    "\<forall>itc ys. it_r itc = writeHelo [] ?n ?n @ pong @ ys \<longrightarrow> (\<exists>itc'. it_r itc' = ys \<and>
       client_handshake (list_ring 128) toy_sha [4] ?c (replicate 24 6) itc = Ret ((Inr [8], ping), itc'))"
    using handshake_completes [where sha = toy_sha and P = True and rnd = "replicate 48 5" and nonce = ?n and auth = ?n and
      helo = "writeHelo [] ?n ?n" and salt = "replicate 24 6" and chost = "[4]" and shost = "[8]" and cred = ?c and scred = ?c and
      Auth = "StaticAuthServer ?c" and err_text = "\<lambda>_. [9]", OF list_ring_contract list_ring_contract, of 128 128]
    by (fastforce simp: server_helo_def StaticAuthServer_def take_replicate drop_replicate Let_def)
  have "it_r (NewIterator (ping @ [7])) = ping @ [7]" "it_r (NewIterator (writeHelo [] ?n ?n @ pong @ [])) = writeHelo [] ?n ?n @ pong @ []"
    by (simp_all add: NewIterator_def)
  with o show ?thesis by (metis Credentials.select_convs(1))
qed

text \<open>
  A client whose shared-key digest or password digest differs from the one that the server
  computes is turned away on both sides: \<open>authenticate\<close> returns ErrInvalidSharedKey or ErrFailedAuth
  and records no user, and \<open>Connect\<close> returns ErrFailedAuth with the server's reason.
\<close>

theorem handshake_rejects:
  assumes "ring_contract Rs rests ls" "ring_contract Rc restc lc" "128 \<le> ls" "128 \<le> lc" and "\<And>x. length (sha x) = 64"
    and "server_helo P rnd = (nonce, auth, helo)" "length rnd = 48" "length salt = 24"
    and "len chost \<le> ls" "len chost < 2 ^ 32" "len (Username cred) \<le> ls" "len (Username cred) < 2 ^ 32"
      "len shost \<le> lc" "len shost < 2 ^ 32" "\<And>e. len (err_text e) \<le> lc" "\<And>e. len (err_text e) < 2 ^ 32"
    and "Auth (if P then Username cred else []) = Inr scred"
    and "sha (salt @ chost @ nonce @ SharedKey cred) \<noteq> sha (salt @ chost @ nonce @ SharedKey scred) \<or>
      P \<and> sha (auth @ Username cred @ Password cred) \<noteq> sha (auth @ Username cred @ Password scred)"
    and "err_text (Const ErrInvalidSharedKey) \<noteq> []" "err_text (Const ErrFailedAuth) \<noteq> []"
  shows "\<exists>e ping pong. e \<in> {Const ErrInvalidSharedKey, Const ErrFailedAuth} \<and>
    (\<forall>its xs. rests (it_r its) = ping @ xs \<longrightarrow> (\<exists>its'. rests (it_r its') = xs \<and>
       server_answer Rs sha Auth err_text shost nonce auth its = Ret ((Inl e, pong), its'))) \<and>
    (\<forall>itc ys. restc (it_r itc) = helo @ pong @ ys \<longrightarrow> (\<exists>itc'. restc (it_r itc') = ys \<and>
       client_handshake Rc sha chost cred salt itc = Ret ((Inl (WithReason ErrFailedAuth (err_text e)), ping), itc')))"
proof -
  have "P \<Longrightarrow> auth \<noteq> []" using assms(6,7) by (auto simp: server_helo_def Let_def)
  then obtain e where v: "verdict sha salt chost nonce auth cred scred = Some e" "e \<in> {ErrInvalidSharedKey, ErrFailedAuth}"
    using assms(18) by (cases "sha (salt @ chost @ nonce @ SharedKey cred) = sha (salt @ chost @ nonce @ SharedKey scred)")
      (auto simp: verdict_def hex_Encode_eq)
  then have t: "Const e \<in> {Const ErrInvalidSharedKey, Const ErrFailedAuth}" "err_text (Const e) \<noteq> []"
    using assms(19,20) by auto
  show ?thesis
    by (rule_tac handshake_outcome [where err_text = err_text and sha = sha and Auth = Auth, OF assms(1-17)])
      (rule exI [of _ "Const e"], simp only: v(1) t option.case not_False_eq_True if_True, blast)
qed

lemma handshake_rejects_witness:
  "\<exists>ping pong e. \<forall>its ys. it_r its = ping \<longrightarrow> (\<exists>its' itc'.
     server_answer (list_ring 128) toy_sha (StaticAuthServer \<lparr>Username = [], Password = [], SharedKey = [3]\<rparr>) (\<lambda>_. [9]) [8]
       (replicate 24 5) [] its = Ret ((Inl e, pong), its') \<and>
     client_handshake (list_ring 128) toy_sha [4] \<lparr>Username = [], Password = [], SharedKey = [2]\<rparr> (replicate 24 6)
       (NewIterator (writeHelo [] (replicate 24 5) [] @ pong @ ys)) = Ret ((Inl (WithReason ErrFailedAuth [9]), ping), itc'))"
proof -
  let ?c = "\<lparr>Username = [], Password = [], SharedKey = [2]\<rparr>" and ?s = "\<lparr>Username = [], Password = [], SharedKey = [3]\<rparr>"
    and ?n = "replicate 24 5"
  have "\<exists>e ping pong. e \<in> {Const ErrInvalidSharedKey, Const ErrFailedAuth} \<and>
    (\<forall>its xs. it_r its = ping @ xs \<longrightarrow> (\<exists>its'. it_r its' = xs \<and>
       server_answer (list_ring 128) toy_sha (StaticAuthServer ?s) (\<lambda>_. [9]) [8] ?n [] its = Ret ((Inl e, pong), its'))) \<and>
    (\<forall>itc ys. it_r itc = writeHelo [] ?n [] @ pong @ ys \<longrightarrow> (\<exists>itc'. it_r itc' = ys \<and>
       client_handshake (list_ring 128) toy_sha [4] ?c (replicate 24 6) itc = Ret ((Inl (WithReason ErrFailedAuth [9]), ping), itc')))"
    by (rule handshake_rejects [where P = False and rnd = "replicate 48 5" and scred = ?s, OF list_ring_contract list_ring_contract])
      (simp_all add: server_helo_def StaticAuthServer_def take_replicate Let_def)
  then obtain e ping pong where o: "\<forall>its xs. it_r its = ping @ xs \<longrightarrow> (\<exists>its'. it_r its' = xs \<and>
       server_answer (list_ring 128) toy_sha (StaticAuthServer ?s) (\<lambda>_. [9]) [8] ?n [] its = Ret ((Inl e, pong), its'))"
    "\<forall>itc ys. it_r itc = writeHelo [] ?n [] @ pong @ ys \<longrightarrow> (\<exists>itc'. it_r itc' = ys \<and>
       client_handshake (list_ring 128) toy_sha [4] ?c (replicate 24 6) itc = Ret ((Inl (WithReason ErrFailedAuth [9]), ping), itc'))"
    by blast
  have "it_r (NewIterator (writeHelo [] ?n [] @ pong @ ys)) = writeHelo [] ?n [] @ pong @ ys" for ys by (simp add: NewIterator_def)
  with o show ?thesis by (metis append_Nil2)
qed

lemma PING_accepted_iff_witness:
  "\<exists>res b it'. server_answer (list_ring 9) toy_sha (StaticAuthServer no_credentials) (\<lambda>_. []) [8] [5] []
      (NewIterator (0x96 # AppendString [] PING @ AppendString [] [1] @ AppendString [] [2] @ AppendString [] [3] @
         AppendString [] [4] @ AppendString [] [] @ [7])) = Ret ((res, b), it') \<and> it_r it' = [7] \<and> (\<forall>u. res \<noteq> Inr u)"
proof -
  have w: "len s < 2 ^ 32 \<Longrightarrow> wire (MStr s) (AppendString [] s)" for s by (rule wire_AppendString)
  show ?thesis
    using PING_accepted_iff [where sha = toy_sha and Auth = "StaticAuthServer no_credentials" and err_text = "\<lambda>_. []" and server = "[8]"
        and nonce = "[5]" and auth = "[]" and xs = "[7]" and
        it = "NewIterator (0x96 # AppendString [] PING @ AppendString [] [1] @ AppendString [] [2] @ AppendString [] [3] @
         AppendString [] [4] @ AppendString [] [] @ [7])", OF list_ring_contract [of 9] _ _ w w w w w]
    by (fastforce simp: NewIterator_def StaticAuthServer_def no_credentials_def)
qed

end
