(* ===== verification/Client.thy ===== *)
theory Client
  imports Handshake Fallback
begin

text \<open>
  \<open>pkg/msgpack/buffer.go\<close> and \<open>writer.go\<close>, the buffered writer of the package \<open>msgpack\<close>, and
  \<open>forward/client.go\<close>, the client that writes through it.

  A connection is a number; the record \<open>net\<close> is what the operating system does: \<open>dials\<close> says which
  of the next dials succeed and what the peer will send there, \<open>writes\<close> how many bytes the next
  writes let through before they fail (\<open>None\<close> for a write that succeeds, as all beyond the list do),
  \<open>closes\<close> which of the next closes succeed, \<open>salts\<close> what \<open>crypto/rand\<close> gives; \<open>sent\<close> is what each
  connection has carried. \<open>Buffer.WriteTo\<close> is a method of another module: \<open>kept\<close> is what it leaves
  in the buffer, and \<open>spare\<close> what the memory behind the buffer holds after \<open>Grow\<close>.
\<close>

subsection \<open>The network\<close>

record 'r net =
  dials :: "'r option list"
  writes :: "nat option list"
  closes :: "bool list"
  salts :: "bytes option list"
  sent :: "bytes list"

datatype net_err =
    DialFailed | AuthFailed bytes | RandFailed | WriteFailed | CloseFailed | ReadFailed bytes | PhaseFailed herr

definition net_Dial :: "'r net \<Rightarrow> (nat \<times> 'r) option \<times> 'r net" where
  "net_Dial n =
     (case dials n of
        [] \<Rightarrow> (None, n)
      | None # ds \<Rightarrow> (None, n\<lparr>dials := ds\<rparr>)
      | Some rd # ds \<Rightarrow> (Some (length (sent n), rd), n\<lparr>dials := ds, sent := sent n @ [[]]\<rparr>))"

definition net_send :: "nat \<Rightarrow> bytes \<Rightarrow> 'r net \<Rightarrow> 'r net" where
  "net_send i b n = n\<lparr>sent := (sent n)[i := sent n ! i @ b]\<rparr>"

text \<open>The number of bytes written is the second result of \<open>net.Conn.Write\<close>.\<close>

definition conn_Write :: "nat \<Rightarrow> bytes \<Rightarrow> 'r net \<Rightarrow> (int \<times> net_err option) \<times> 'r net" where
  "conn_Write i b n =
     (case writes n of
        [] \<Rightarrow> ((len b, None), net_send i b n)
      | None # ws \<Rightarrow> ((len b, None), net_send i b (n\<lparr>writes := ws\<rparr>))
      | Some k # ws \<Rightarrow> ((len (take k b), Some WriteFailed), net_send i (take k b) (n\<lparr>writes := ws\<rparr>)))"

definition conn_Close :: "nat \<Rightarrow> 'r net \<Rightarrow> net_err option \<times> 'r net" where
  "conn_Close i n =
     (case closes n of [] \<Rightarrow> (None, n) | ok # cs \<Rightarrow> (if ok then None else Some CloseFailed, n\<lparr>closes := cs\<rparr>))"

definition rand_Read :: "'r net \<Rightarrow> bytes option \<times> 'r net" where
  "rand_Read n = (case salts n of [] \<Rightarrow> (None, n) | s # ss \<Rightarrow> (s, n\<lparr>salts := ss\<rparr>))"

text \<open>
  \<open>io.CopyBuffer\<close> with a reader whose reads give the chunks \<open>cs\<close> and end with the error \<open>e\<close>
  (\<open>None\<close> for EOF): each chunk is written before the next is read.
\<close>

fun CopyBuffer :: "nat \<Rightarrow> bytes list \<Rightarrow> bytes option \<Rightarrow> 'r net \<Rightarrow> net_err option \<times> 'r net" where
  "CopyBuffer i [] e n = (map_option ReadFailed e, n)"
| "CopyBuffer i (c # cs) e n =
     (case conn_Write i c n of ((k, None), n) \<Rightarrow> CopyBuffer i cs e n | ((k, Some w), n) \<Rightarrow> (Some w, n))"

subsection \<open>buffer.go\<close>

record Buffer =
  buf_B :: bytes

definition WriteArrayHeader :: "int \<Rightarrow> 'w Buffer_scheme \<Rightarrow> 'w Buffer_scheme" where
  "WriteArrayHeader n w = w\<lparr>buf_B := AppendArrayHeader (buf_B w) n\<rparr>"

definition WriteMapHeader :: "int \<Rightarrow> 'w Buffer_scheme \<Rightarrow> 'w Buffer_scheme" where
  "WriteMapHeader n w = w\<lparr>buf_B := AppendMapHeader (buf_B w) n\<rparr>"

definition WriteString :: "bytes \<Rightarrow> 'w Buffer_scheme \<Rightarrow> 'w Buffer_scheme" where
  "WriteString s w = w\<lparr>buf_B := AppendString (buf_B w) s\<rparr>"

definition WriteStringMax255 :: "(bytes \<Rightarrow> bytes) \<Rightarrow> 'w Buffer_scheme \<Rightarrow> 'w Buffer_scheme go" where
  "WriteStringMax255 fn w = do { b \<leftarrow> AppendStringMax255 (buf_B w) fn; Ret (w\<lparr>buf_B := b\<rparr>) }"

definition WriteInt :: "u64 \<Rightarrow> 'w Buffer_scheme \<Rightarrow> 'w Buffer_scheme" where
  "WriteInt i w = w\<lparr>buf_B := AppendInt (buf_B w) i\<rparr>"

definition WriteUint :: "u64 \<Rightarrow> 'w Buffer_scheme \<Rightarrow> 'w Buffer_scheme" where
  "WriteUint i w = w\<lparr>buf_B := AppendUint (buf_B w) i\<rparr>"

definition WriteNil :: "'w Buffer_scheme \<Rightarrow> 'w Buffer_scheme" where
  "WriteNil w = w\<lparr>buf_B := AppendNil (buf_B w)\<rparr>"

definition WriteBool :: "bool \<Rightarrow> 'w Buffer_scheme \<Rightarrow> 'w Buffer_scheme" where
  "WriteBool b w = w\<lparr>buf_B := AppendBool (buf_B w) b\<rparr>"

definition WriteBinary :: "bytes \<Rightarrow> 'w Buffer_scheme \<Rightarrow> 'w Buffer_scheme" where
  "WriteBinary data w = w\<lparr>buf_B := AppendBinary (buf_B w) data\<rparr>"

definition WriteFloat :: "f64 \<Rightarrow> 'w Buffer_scheme \<Rightarrow> 'w Buffer_scheme" where
  "WriteFloat f w = w\<lparr>buf_B := AppendFloat (buf_B w) f\<rparr>"

definition WriteTimestamp :: "go_time \<Rightarrow> TsFormat list \<Rightarrow> 'w Buffer_scheme \<Rightarrow> 'w Buffer_scheme" where
  "WriteTimestamp t format w = w\<lparr>buf_B := AppendTimestamp (buf_B w) t format\<rparr>"

subsection \<open>writer.go\<close>

record Writer = Buffer +
  wr_w :: "nat option"

definition NewWriter :: "nat option \<Rightarrow> Writer" where
  "NewWriter c = \<lparr> buf_B = [], wr_w = c \<rparr>"

definition Writer_Reset :: "nat option \<Rightarrow> Writer \<Rightarrow> Writer" where
  "Writer_Reset c w = w\<lparr>buf_B := [], wr_w := c\<rparr>"

text \<open>\<open>kept b k\<close>: what \<open>Buffer.WriteTo\<close> keeps of the bytes \<open>b\<close> after \<open>k\<close> of them were written.\<close>

type_synonym wkept = "bytes \<Rightarrow> int \<Rightarrow> bytes"

definition Flush :: "wkept \<Rightarrow> Writer \<Rightarrow> 'r net \<Rightarrow> net_err option \<times> Writer \<times> 'r net" where
  "Flush kept w n =
     (let (err, w, n) = (case wr_w w of
        None \<Rightarrow> (None, w, n)
      | Some i \<Rightarrow> (let ((k, err), n) = conn_Write i (buf_B w) n in (err, w\<lparr>buf_B := kept (buf_B w) k\<rparr>, n)))
      in (err, if err = None then w\<lparr>buf_B := []\<rparr> else w, n))"

definition WriteCustom :: "(bytes \<Rightarrow> bytes) \<Rightarrow> Writer \<Rightarrow> Writer" where
  "WriteCustom fn w = w\<lparr>buf_B := fn (buf_B w)\<rparr>"

text \<open>\<open>Grow\<close> gives room or panics; its error is that of the buffer's module and never returned here.\<close>

definition WriteBinaryReader :: "wkept \<Rightarrow> bytes \<Rightarrow> int \<Rightarrow> bytes list \<Rightarrow> bytes option \<Rightarrow> Writer \<Rightarrow> 'r net \<Rightarrow>
    net_err option \<times> Writer \<times> 'r net" where
  "WriteBinaryReader kept spare n cs e w net =
     (let w = w\<lparr>buf_B := appendBinaryHeader (buf_B w) n\<rparr> in
      case Flush kept w net of
        (Some err, w, net) \<Rightarrow> (Some err, w, net)
      | (None, w, net) \<Rightarrow>
          (case wr_w w of
             None \<Rightarrow> (None, w, net)
           | Some i \<Rightarrow>
               let w = w\<lparr>buf_B := spare\<rparr> in
               (case CopyBuffer i cs e net of
                  (Some err, net) \<Rightarrow> (Some err, w, net)
                | (None, net) \<Rightarrow> (None, w\<lparr>buf_B := []\<rparr>, net))))"

subsection \<open>client.go\<close>

record 'r Client =
  c_conn :: "nat option"
  c_r :: "'r Iterator"
  c_w :: Writer
  c_serverHostname :: bytes
  c_keepAlive :: bool

record ClientOptions =
  o_Hostname :: bytes
  o_Auth :: "bytes + Credentials"

definition NewClient :: "'r \<Rightarrow> 'r Client" where
  "NewClient nil = \<lparr> c_conn = None, c_r = NewIterator nil, c_w = NewWriter None, c_serverHostname = [], c_keepAlive = False \<rparr>"

definition Connect :: "wkept \<Rightarrow> 'r ring \<Rightarrow> (bytes \<Rightarrow> bytes) \<Rightarrow> ClientOptions \<Rightarrow> 'r Client \<Rightarrow> 'r net \<Rightarrow>
    (net_err option \<times> 'r Client \<times> 'r net) go" where
  "Connect kept R sha opt c n =
     (case net_Dial n of
        (None, n) \<Rightarrow> Ret (Some DialFailed, c, n)
      | (Some (i, rd), n) \<Rightarrow>
          let c = c\<lparr>c_conn := Some i\<rparr> in
          (case o_Auth opt of
             Inl e \<Rightarrow> Ret (Some (AuthFailed e), c, n)
           | Inr cred \<Rightarrow>
               let c = c\<lparr>c_r := Reset rd (c_r c), c_w := Writer_Reset (Some i) (c_w c)\<rparr> in
               (case rand_Read n of
                  (None, n) \<Rightarrow> Ret (Some RandFailed, c, n)
                | (Some salt, n) \<Rightarrow> do {
                    (res, it) \<leftarrow> readHelo R (c_r c);
                    let c = c\<lparr>c_r := it\<rparr>;
                    case res of
                      Inl e \<Rightarrow> Ret (Some (PhaseFailed e), c, n)
                    | Inr (nonce, auth, keepAlive) \<Rightarrow> do {
                        let c = c\<lparr>c_keepAlive := keepAlive\<rparr>;
                        b \<leftarrow> writePing sha (o_Hostname opt) (buf_B (c_w c)) cred salt nonce auth;
                        let (err, w, n) = Flush kept ((c_w c)\<lparr>buf_B := b\<rparr>) n;
                        let c = c\<lparr>c_w := w\<rparr>;
                        if err \<noteq> None then Ret (err, c, n)
                        else do {
                          (res, it) \<leftarrow> readPong R sha salt nonce (SharedKey cred) (c_r c);
                          let c = c\<lparr>c_r := it\<rparr>;
                          case res of
                            Inl e \<Rightarrow> Ret (Some (PhaseFailed e), c, n)
                          | Inr serverHostname \<Rightarrow> Ret (None, c\<lparr>c_serverHostname := serverHostname\<rparr>, n) } } })))"

definition ensureConnection :: "wkept \<Rightarrow> 'r ring \<Rightarrow> (bytes \<Rightarrow> bytes) \<Rightarrow> ClientOptions \<Rightarrow> 'r Client \<Rightarrow> 'r net \<Rightarrow>
    (net_err option \<times> 'r Client \<times> 'r net) go" where
  "ensureConnection kept R sha opt c n =
     (if c_conn c \<noteq> None then Ret (None, c, n) else Connect kept R sha opt c n)"

definition Client_Write :: "wkept \<Rightarrow> 'r ring \<Rightarrow> (bytes \<Rightarrow> bytes) \<Rightarrow> ClientOptions \<Rightarrow> bytes \<Rightarrow> 'r Client \<Rightarrow> 'r net \<Rightarrow>
    ((int \<times> net_err option) \<times> 'r Client \<times> 'r net) go" where
  "Client_Write kept R sha opt b c n = do {
     (err, c, n) \<leftarrow> ensureConnection kept R sha opt c n;
     if err \<noteq> None then Ret ((0, err), c, n)
     else let (res, n) = conn_Write (the (c_conn c)) b n in Ret (res, c, n) }"

definition Client_Close :: "'r Client \<Rightarrow> 'r net \<Rightarrow> net_err option \<times> 'r Client \<times> 'r net" where
  "Client_Close c n =
     (case c_conn c of
        None \<Rightarrow> (None, c, n)
      | Some i \<Rightarrow> (let (err, n) = conn_Close i n in (err, c\<lparr>c_conn := None\<rparr>, n)))"

definition Reconnect :: "wkept \<Rightarrow> 'r ring \<Rightarrow> (bytes \<Rightarrow> bytes) \<Rightarrow> ClientOptions \<Rightarrow> 'r Client \<Rightarrow> 'r net \<Rightarrow>
    (net_err option \<times> 'r Client \<times> 'r net) go" where
  "Reconnect kept R sha opt c n =
     (case Client_Close c n of
        (Some err, c, n) \<Rightarrow> Ret (Some err, c, n)
      | (None, c, n) \<Rightarrow> ensureConnection kept R sha opt c n)"

definition WriteBatch :: "wkept \<Rightarrow> bytes \<Rightarrow> 'r ring \<Rightarrow> (bytes \<Rightarrow> bytes) \<Rightarrow> ClientOptions \<Rightarrow> bytes \<Rightarrow> int \<Rightarrow> bytes list \<Rightarrow> bytes option \<Rightarrow>
    'r Client \<Rightarrow> 'r net \<Rightarrow> (net_err option \<times> 'r Client \<times> 'r net) go" where
  "WriteBatch kept spare R sha opt tag sz cs e c n = do {
     (err, c, n) \<leftarrow> ensureConnection kept R sha opt c n;
     if err \<noteq> None then Ret (err, c, n)
     else
       let w = WriteString tag (WriteArrayHeader 3 (c_w c));
           (err, w, n) = WriteBinaryReader kept spare sz cs e w n in
       if err \<noteq> None then Ret (err, c\<lparr>c_w := w\<rparr>, n)
       else
         let w = WriteString (text_bytes ''gzip'') (WriteString (text_bytes ''compressed'') (WriteMapHeader 1 w));
             (err, w, n) = Flush kept w n in
         Ret (err, c\<lparr>c_w := w\<rparr>, n) }"

subsection \<open>What a connection carries\<close>

text \<open>
  \<open>delivers i b n err n'\<close>: the connection \<open>i\<close> carries the bytes \<open>b\<close> when there is no error, a prefix
  of them when there is one, no other connection carries anything, and there is no error when no
  write fails.
\<close>

definition delivers :: "nat \<Rightarrow> bytes \<Rightarrow> 'r net \<Rightarrow> net_err option \<Rightarrow> 'r net \<Rightarrow> bool" where
  "delivers i b n err n' \<longleftrightarrow> (\<exists>p. sent n' = (sent n)[i := sent n ! i @ p] \<and> prefix p b \<and> (err = None \<longrightarrow> p = b)) \<and>
     (set (writes n) \<subseteq> {None} \<longrightarrow> err = None \<and> set (writes n') \<subseteq> {None})"

lemma sent_net_send: "sent (net_send i b n) = (sent n)[i := sent n ! i @ b]" "writes (net_send i b n) = writes n"
  by (simp_all add: net_send_def)

lemma conn_Write_delivers: "conn_Write i b n = ((k, err), n') \<Longrightarrow> delivers i b n err n'"
  by (auto simp: conn_Write_def delivers_def sent_net_send take_is_prefix split: list.splits option.splits)

lemma delivers_seq:
  assumes "delivers i b n None n1" "delivers i b' n1 err n2" "i < length (sent n)"
  shows "delivers i (b @ b') n err n2"
proof -
  obtain p where p: "sent n2 = (sent n1)[i := sent n1 ! i @ p]" "prefix p b'" "err = None \<longrightarrow> p = b'"
    using assms(2) by (auto simp: delivers_def)
  have "sent n1 = (sent n)[i := sent n ! i @ b]" using assms(1) by (auto simp: delivers_def)
  then have "sent n2 = (sent n)[i := sent n ! i @ (b @ p)]" using p(1) assms(3) by simp
  moreover have "prefix (b @ p) (b @ b')" using p(2) by simp
  ultimately show ?thesis using assms(1,2) p(3) unfolding delivers_def by (metis (no_types, lifting))
qed

lemma delivers_failed: "delivers i b n (Some e) n' \<Longrightarrow> delivers i (b @ b') n (Some e) n'"
  unfolding delivers_def by (auto intro: exI [where x = "_ :: bytes"] prefix_prefix)

lemma delivers_length: "delivers i b n err n' \<Longrightarrow> length (sent n') = length (sent n)"
  by (auto simp: delivers_def)

lemma delivers_nothing: "delivers i [] n None n"
  by (simp add: delivers_def)

lemma CopyBuffer_delivers:
  "CopyBuffer i cs None n = (err, n') \<Longrightarrow> i < length (sent n) \<Longrightarrow> delivers i (concat cs) n err n'"
proof (induction cs arbitrary: n)
  case Nil
  then show ?case by (simp add: delivers_nothing)
next
  case (Cons c cs)
  obtain k e n1 where w: "conn_Write i c n = ((k, e), n1)" by (metis prod.exhaust)
  then have d: "delivers i c n e n1" by (rule conn_Write_delivers)
  show ?case
  proof (cases e)
    case None
    with Cons.prems(1) w have "CopyBuffer i cs None n1 = (err, n')" by simp
    from Cons.IH [OF this] have "delivers i (concat cs) n1 err n'" using delivers_length [OF d] Cons.prems(2) by simp
    with d None Cons.prems(2) show ?thesis by (auto intro: delivers_seq)
  next
    case (Some x)
    with Cons.prems(1) w d show ?thesis by (auto intro: delivers_failed)
  qed
qed

lemma Flush_delivers:
  assumes "Flush kept w n = (err, w', n')" and "wr_w w = Some i"
  shows "delivers i (buf_B w) n err n'" and "wr_w w' = Some i" and "err = None \<Longrightarrow> buf_B w' = []"
  using assms by (auto simp: Flush_def Let_def conn_Write_delivers split: prod.splits if_splits)

lemma WriteBinaryReader_delivers:
  assumes "WriteBinaryReader kept spare k cs None w n = (err, w', n')" and "wr_w w = Some i" and "i < length (sent n)"
  shows "delivers i (appendBinaryHeader (buf_B w) k @ concat cs) n err n'" and "wr_w w' = Some i" and "err = None \<Longrightarrow> buf_B w' = []"
proof -
  let ?w = "w\<lparr>buf_B := appendBinaryHeader (buf_B w) k\<rparr>"
  obtain e w1 n1 where f: "Flush kept ?w n = (e, w1, n1)" by (metis prod.exhaust)
  note d = Flush_delivers [OF f, of i]
  have "delivers i (appendBinaryHeader (buf_B w) k @ concat cs) n err n' \<and> wr_w w' = Some i \<and> (err = None \<longrightarrow> buf_B w' = [])"
  proof (cases e)
    case None
    obtain e2 n2 where c: "CopyBuffer i cs None n1 = (e2, n2)" by (metis prod.exhaust)
    have "delivers i (concat cs) n1 e2 n2"
      using CopyBuffer_delivers [OF c] delivers_length [OF d(1)] assms(2,3) by simp
    with d None c assms f show ?thesis
      by (auto simp: WriteBinaryReader_def Let_def intro: delivers_seq split: option.splits)
  next
    case (Some x)
    with d f assms show ?thesis by (auto simp: WriteBinaryReader_def Let_def intro: delivers_failed)
  qed
  then show "delivers i (appendBinaryHeader (buf_B w) k @ concat cs) n err n'" and "wr_w w' = Some i" and "err = None \<Longrightarrow> buf_B w' = []"
    by simp_all
qed

subsection \<open>WriteBatch\<close>

definition batch_msg :: "bytes \<Rightarrow> bytes \<Rightarrow> msg" where
  "batch_msg tag z = MArray [MStr tag, MBin z, MMap [(MStr (text_bytes ''compressed''), MStr (text_bytes ''gzip''))]]"

lemma encode_batch: "encode (batch_msg tag z) =
    appendBinaryHeader (AppendString (AppendArrayHeader [] 3) tag) (len z) @ z @
    AppendString (AppendString (AppendMapHeader [] 1) (text_bytes ''compressed'')) (text_bytes ''gzip'')"
proof -
  have p: "appendBinaryHeader b k = b @ appendBinaryHeader [] k" for b k by (simp add: appendBinaryHeader_def)
  have "encode (batch_msg tag z) = AppendArrayHeader [] 3 @ AppendString [] tag @ (appendBinaryHeader [] (len z) @ z) @
     AppendMapHeader [] 1 @ AppendString [] (text_bytes ''compressed'') @ AppendString [] (text_bytes ''gzip'')"
    by (simp add: batch_msg_def AppendBinary_def)
  also have "\<dots> = appendBinaryHeader (AppendString (AppendArrayHeader [] 3) tag) (len z) @ z @
    AppendString (AppendString (AppendMapHeader [] 1) (text_bytes ''compressed'')) (text_bytes ''gzip'')"
    by (subst (2) p, subst (4) AppendString_prefix, subst (5) AppendString_prefix, subst (4) AppendString_prefix) simp
  finally show ?thesis .
qed

lemma WriteBatch_delivers:
  assumes c: "c_conn c = Some i" "wr_w (c_w c) = Some i" "buf_B (c_w c) = []" "i < length (sent n)" and z: "concat cs = z"
  obtains err c' n' where "WriteBatch kept spare R sha opt tag (len z) cs None c n = Ret (err, c', n')"
    "delivers i (encode (batch_msg tag z)) n err n'" "c_conn c' = Some i" "wr_w (c_w c') = Some i" "err = None \<Longrightarrow> buf_B (c_w c') = []"
proof -
  let ?w = "WriteString tag (WriteArrayHeader 3 (c_w c))"
  let ?b1 = "appendBinaryHeader (AppendString (AppendArrayHeader [] 3) tag) (len z)"
  let ?b2 = "AppendString (AppendString (AppendMapHeader [] 1) (text_bytes ''compressed'')) (text_bytes ''gzip'')"
  have w: "wr_w ?w = Some i" "buf_B ?w = AppendString (AppendArrayHeader [] 3) tag"
    using c by (simp_all add: WriteString_def WriteArrayHeader_def)
  obtain e1 w1 n1 where r: "WriteBinaryReader kept spare (len z) cs None ?w n = (e1, w1, n1)" by (metis prod.exhaust)
  note d = WriteBinaryReader_delivers [OF r w(1) c(4), unfolded w(2) z]
  show thesis
  proof (cases e1)
    case None
    let ?w1 = "WriteString (text_bytes ''gzip'') (WriteString (text_bytes ''compressed'') (WriteMapHeader 1 w1))"
    have w1: "wr_w ?w1 = Some i" "buf_B ?w1 = ?b2"
      using d None by (simp_all add: WriteString_def WriteMapHeader_def)
    obtain e2 w2 n2 where f: "Flush kept ?w1 n1 = (e2, w2, n2)" by (metis prod.exhaust)
    note d2 = Flush_delivers [OF f w1(1), unfolded w1(2)]
    have "delivers i ((?b1 @ z) @ ?b2) n e2 n2" using d(1) d2(1) None c(4) by (metis delivers_seq)
    then show thesis
      by (intro that [of e2 "c\<lparr>c_w := w2\<rparr>" n2]) (use c r f None d2 in \<open>simp_all add: WriteBatch_def ensureConnection_def encode_batch\<close>)
  next
    case (Some x)
    then have "delivers i ((?b1 @ z) @ ?b2) n e1 n1" using d(1) by (auto intro: delivers_failed simp del: append_assoc)
    then show thesis
      by (intro that [of e1 "c\<lparr>c_w := w1\<rparr>" n1]) (use c r Some d in \<open>simp_all add: WriteBatch_def ensureConnection_def encode_batch\<close>)
  qed
qed

subsection \<open>Connect\<close>

lemma Connect_handshake:
  assumes "dials n = Some rd # ds" "salts n = Some salt # ss" "set (writes n) \<subseteq> {None}" "o_Auth opt = Inr cred"
    and "client_handshake R sha (o_Hostname opt) cred salt (Reset rd (c_r c)) = Ret ((res, ping), it')"
  obtains c' n' where "Connect kept R sha opt c n = Ret (case res of Inl e \<Rightarrow> Some (PhaseFailed e) | Inr h \<Rightarrow> None, c', n')"
    "c_conn c' = Some (length (sent n))" "sent n' = sent n @ [ping]" "c_r c' = it'" "buf_B (c_w c') = []"
    "\<And>h. res = Inr h \<Longrightarrow> c_serverHostname c' = h" "wr_w (c_w c') = Some (length (sent n))" "set (writes n') \<subseteq> {None}"
proof -
  let ?i = "length (sent n)" and ?n = "n\<lparr>dials := ds, sent := sent n @ [[]], salts := ss\<rparr>"
  obtain r1 i1 where h: "readHelo R (Reset rd (c_r c)) = Ret (r1, i1)"
    using assms(5) by (auto simp: client_handshake_def split: bind_split_asm option.splits)
  show thesis
  proof (cases r1)
    case (Inl e)
    with assms h show thesis
      by (intro that [of "c\<lparr>c_conn := Some ?i, c_r := i1, c_w := Writer_Reset (Some ?i) (c_w c)\<rparr>" ?n])
        (auto simp: client_handshake_def Connect_def net_Dial_def rand_Read_def Writer_Reset_def)
  next
    case (Inr t)
    obtain nonce auth ka where t: "t = (nonce, auth, ka)" by (cases t)
    from assms(5) h Inr t have p: "writePing sha (o_Hostname opt) [] cred salt nonce auth = Ret ping"
      "readPong R sha salt nonce (SharedKey cred) i1 = Ret (res, it')"
      by (auto simp: client_handshake_def split: bind_split_asm option.splits)
    let ?w = "(c_w c)\<lparr>wr_w := Some ?i, buf_B := ping\<rparr>"
    obtain err w n' where f: "Flush kept ?w ?n = (err, w, n')" by (metis prod.exhaust)
    have d: "delivers ?i ping ?n err n'" "wr_w w = Some ?i" "err = None \<Longrightarrow> buf_B w = []" using Flush_delivers [OF f, of ?i] by simp_all
    then have e: "err = None" "sent n' = sent n @ [ping]" "set (writes n') \<subseteq> {None}" using assms(3) by (auto simp: delivers_def)
    let ?c = "c\<lparr>c_conn := Some ?i, c_r := it', c_w := w, c_keepAlive := ka\<rparr>"
    have u: "Connect kept R sha opt c n = (case res of Inl e \<Rightarrow> Ret (Some (PhaseFailed e), ?c, n')
      | Inr h \<Rightarrow> Ret (None, ?c\<lparr>c_serverHostname := h\<rparr>, n'))"
      using assms(1,2,4) h Inr t p f e(1) by (cases res) (simp_all add: Connect_def net_Dial_def rand_Read_def Writer_Reset_def Let_def)
    show thesis
      by (rule that [of "case res of Inl e \<Rightarrow> ?c | Inr h \<Rightarrow> ?c\<lparr>c_serverHostname := h\<rparr>" n'])
        (use u d e in \<open>auto split: sum.split\<close>)
  qed
qed

subsection \<open>Properties\<close>

text \<open>
  A connected client with an empty write buffer turns a batch of \<open>size\<close> bytes, in whatever chunks
  its reader gives them, into the one MessagePack message [tag, bin, {compressed: gzip}] of the
  CompressedPackedForward mode: WriteBatch succeeds exactly when the connection has carried all of
  that message, succeeds when no write fails, and otherwise the connection has carried a prefix of it
  and nothing else.
\<close>

theorem WriteBatch_sends_message:
  assumes "c_conn c = Some i" "wr_w (c_w c) = Some i" "buf_B (c_w c) = []" "i < length (sent n)"
    and "concat cs = z" "len z < 2 ^ 32" "len tag < 2 ^ 32"
  shows "\<exists>err c' n' bs p. WriteBatch kept spare R sha opt tag (len z) cs None c n = Ret (err, c', n') \<and>
    wire (MArray [MStr tag, MBin z, MMap [(MStr (text_bytes ''compressed''), MStr (text_bytes ''gzip''))]]) bs \<and>
    sent n' = (sent n)[i := sent n ! i @ p] \<and> prefix p bs \<and> (err = None \<longrightarrow> p = bs \<and> buf_B (c_w c') = []) \<and>
    (set (writes n) \<subseteq> {None} \<longrightarrow> err = None) \<and> c_conn c' = Some i"
proof -
  obtain err c' n' where b: "WriteBatch kept spare R sha opt tag (len z) cs None c n = Ret (err, c', n')"
    "delivers i (encode (batch_msg tag z)) n err n'" "c_conn c' = Some i" "wr_w (c_w c') = Some i"
    "err = None \<Longrightarrow> buf_B (c_w c') = []"
    by (rule WriteBatch_delivers [where kept = kept and spare = spare and R = R and sha = sha and opt = opt and tag = tag, OF assms(1-5)]) (rule that)
  have "wire (batch_msg tag z) (encode (batch_msg tag z))"
    using assms(6,7) by (intro encode_wire) (simp add: batch_msg_def text_bytes_def)
  with b show ?thesis unfolding delivers_def batch_msg_def by blast
qed

lemma WriteBatch_sends_message_witness:
  "\<exists>err c' n' bs. WriteBatch (\<lambda>b k. b) [] (list_ring 9) toy_sha \<lparr>o_Hostname = [], o_Auth = Inl []\<rparr> [0x74] 3 [[1, 2], [3]] None
       ((NewClient [])\<lparr>c_conn := Some 0, c_w := NewWriter (Some 0)\<rparr>)
       \<lparr>dials = [], writes = [], closes = [], salts = [], sent = [[]]\<rparr> = Ret (err, c', n') \<and> err = None \<and> sent n' = [bs] \<and>
     wire (MArray [MStr [0x74], MBin [1, 2, 3], MMap [(MStr (text_bytes ''compressed''), MStr (text_bytes ''gzip''))]]) bs"
  using WriteBatch_sends_message [of "(NewClient [])\<lparr>c_conn := Some 0, c_w := NewWriter (Some 0)\<rparr>" 0
      "\<lparr>dials = [], writes = [], closes = [], salts = [], sent = [[]]\<rparr>" "[[1, 2], [3]]" "[1, 2, 3]" "[0x74]"
      "\<lambda>b k. b" "[]" "list_ring 9" toy_sha "\<lparr>o_Hostname = [], o_Auth = Inl []\<rparr>"]
  by (fastforce simp: NewClient_def NewWriter_def)

text \<open>
  Connect stores the connection before the handshake. When it fails afterwards, on the
  credentials, on the handshake or because the server refused them, it returns the error but the
  connection stays, so the next Write sends its bytes over a connection that no server has accepted,
  with no handshake of its own.
\<close>

theorem failed_handshake_keeps_connection:
  assumes "Connect kept R sha opt c n = Ret (Some e, c', n')" and "e \<noteq> DialFailed"
  shows "c_conn c' = Some (length (sent n)) \<and>
    Client_Write kept R sha opt b c' n' = (let (res, n'') = conn_Write (length (sent n)) b n' in Ret (res, c', n''))"
proof -
  have "c_conn c' = Some (length (sent n))"
    using assms by (auto simp: Connect_def net_Dial_def Let_def split: bind_split_asm option.splits sum.splits list.splits prod.splits if_splits)
  then show ?thesis by (simp add: Client_Write_def ensureConnection_def split: prod.split)
qed

lemma failed_handshake_keeps_connection_witness:
  "\<exists>e c' n'. Connect (\<lambda>b k. b) (list_ring 9) toy_sha \<lparr>o_Hostname = [], o_Auth = Inl [1]\<rparr> (NewClient [])
      \<lparr>dials = [Some []], writes = [], closes = [], salts = [], sent = []\<rparr> = Ret (Some e, c', n') \<and>
    Client_Write (\<lambda>b k. b) (list_ring 9) toy_sha \<lparr>o_Hostname = [], o_Auth = Inl [1]\<rparr> [7] c' n' =
      Ret ((1, None), c', n'\<lparr>sent := [[7]]\<rparr>)"
proof -
  let ?opt = "\<lparr>o_Hostname = [], o_Auth = Inl [1]\<rparr>" and ?n = "\<lparr>dials = [Some []], writes = [], closes = [], salts = [], sent = []\<rparr>"
  have c: "Connect (\<lambda>b k. b) (list_ring 9) toy_sha ?opt (NewClient []) ?n =
      Ret (Some (AuthFailed [1]), (NewClient [])\<lparr>c_conn := Some 0\<rparr>, \<lparr>dials = [], writes = [], closes = [], salts = [], sent = [[]]\<rparr>)"
    by (simp add: Connect_def net_Dial_def)
  from failed_handshake_keeps_connection [OF this, of "[7]"] c show ?thesis
    by (simp add: conn_Write_def net_send_def Let_def)
qed

text \<open>
  When it is the credentials that failed, the writer of a new client has no connection yet, and a
  batch reports success with nothing read and nothing sent.
\<close>

lemma Flush_error: "Flush kept w n = (Some e, w', n') \<Longrightarrow> e = WriteFailed"
  by (auto simp: Flush_def conn_Write_def Let_def split: option.splits list.splits if_splits)

lemma WriteBatch_after_failed_auth:
  assumes "Connect kept R sha opt (NewClient rd) n = Ret (Some (AuthFailed e), c', n')"
  shows "\<exists>c''. WriteBatch kept spare R sha opt tag k cs r c' n' = Ret (None, c'', n')"
proof -
  have "c_conn c' \<noteq> None \<and> c_w c' = NewWriter None"
    using assms by (auto simp: Connect_def net_Dial_def NewClient_def Let_def dest: Flush_error
      split: bind_split_asm option.splits sum.splits list.splits prod.splits if_splits)
  then show ?thesis
    by (simp add: WriteBatch_def ensureConnection_def WriteBinaryReader_def Flush_def WriteString_def WriteArrayHeader_def
      WriteMapHeader_def NewWriter_def Let_def)
qed

text \<open>
  C19. Connect, from the dial to the PONG: against a server with the same shared key, and the same
  password when it asks for one, a dial that succeeds and writes that do not fail give a connection
  that has carried the PING only, whose server has authenticated the user, with the server's host
  name stored, an empty write buffer on that connection and the reader just past the handshake.
\<close>

theorem Connect_completes:
  assumes "ring_contract (Rs :: 's ring) rests ls" "ring_contract (Rc :: 'c ring) restc lc" "128 \<le> ls" "128 \<le> lc" and "\<And>x. length (sha x) = 64"
    and "server_helo P rnd = (nonce, auth, helo)" "length rnd = 48" "length salt = 24"
    and "len (o_Hostname opt) \<le> ls" "len (o_Hostname opt) < 2 ^ 32" "len (Username cred) \<le> ls" "len (Username cred) < 2 ^ 32"
      "len shost \<le> lc" "len shost < 2 ^ 32"
    and "o_Auth opt = Inr cred" and "Auth (if P then Username cred else []) = Inr scred"
    and "SharedKey scred = SharedKey cred" "P \<Longrightarrow> Password scred = Password cred"
  shows "\<exists>ping pong.
    (\<forall>its xs. rests (it_r its) = ping @ xs \<longrightarrow> (\<exists>its'. rests (it_r its') = xs \<and>
       server_answer Rs sha Auth (\<lambda>_. []) shost nonce auth its = Ret ((Inr (Username scred), pong), its'))) \<and>
    (\<forall>c n rd ds ss ys. restc rd = helo @ pong @ ys \<and> dials n = Some rd # ds \<and> salts n = Some salt # ss \<and> set (writes n) \<subseteq> {None} \<longrightarrow>
       (\<exists>c' n'. Connect kept Rc sha opt c n = Ret (None, c', n') \<and> sent n' = sent n @ [ping] \<and> c_conn c' = Some (length (sent n)) \<and>
          c_serverHostname c' = shost \<and> wr_w (c_w c') = c_conn c' \<and> buf_B (c_w c') = [] \<and> restc (it_r (c_r c')) = ys))"
proof -
  have "auth \<noteq> [] \<Longrightarrow> P" using assms(6) by (auto simp: server_helo_def Let_def split: if_splits)
  then have v: "verdict sha salt (o_Hostname opt) nonce auth cred scred = None"
    using assms(17,18) by (cases P) (auto simp: verdict_def)
  obtain ping pong where
    s: "\<And>its xs. rests (it_r its) = ping @ xs \<Longrightarrow> \<exists>its'. rests (it_r its') = xs \<and>
       server_answer Rs sha Auth (\<lambda>_. []) shost nonce auth its = Ret ((Inr (Username scred), pong), its')" and
    c: "\<And>itc ys. restc (it_r itc) = helo @ pong @ ys \<Longrightarrow> \<exists>itc'. restc (it_r itc') = ys \<and>
       client_handshake Rc sha (o_Hostname opt) cred salt itc = Ret ((Inr shost, ping), itc')"
    by (rule handshake_outcome [where err_text = "\<lambda>_. []" and sha = sha and Auth = Auth, OF assms(1-14) _ _ assms(16)], use assms(4) in simp, simp,
      rule that, unfold v option.case assms(17) not_True_eq_False simp_thms if_False)
  have "\<exists>c' n'. Connect kept Rc sha opt cl n = Ret (None, c', n') \<and> sent n' = sent n @ [ping] \<and> c_conn c' = Some (length (sent n)) \<and>
          c_serverHostname c' = shost \<and> wr_w (c_w c') = c_conn c' \<and> buf_B (c_w c') = [] \<and> restc (it_r (c_r c')) = ys"
    if a: "restc rd = helo @ pong @ ys \<and> dials n = Some rd # ds \<and> salts n = Some salt # ss \<and> set (writes n) \<subseteq> {None}"
    for cl :: "'c Client" and n :: "'c net" and rd ds ss ys
  proof -
    from a have "restc (it_r (Reset rd (c_r cl))) = helo @ pong @ ys" by (simp add: Reset_def)
    from c [OF this] obtain it' where it: "restc (it_r it') = ys"
      "client_handshake Rc sha (o_Hostname opt) cred salt (Reset rd (c_r cl)) = Ret ((Inr shost, ping), it')" by blast
    from a show ?thesis
      by (elim conjE, rule_tac Connect_handshake [where n = n and rd = rd and ds = ds and ss = ss and kept = kept, OF _ _ _ assms(15) it(2)]) (use it(1) in \<open>auto\<close>)
  qed
  with s show ?thesis by (rule_tac exI [of _ ping], rule_tac exI [of _ pong]) blast
qed

lemma Connect_completes_witness:
  "\<exists>ping pong c' n'. Connect (\<lambda>b k. b) (list_ring 128) toy_sha
       \<lparr>o_Hostname = [4], o_Auth = Inr \<lparr>Username = [1], Password = [2], SharedKey = [3]\<rparr>\<rparr> (NewClient [])
       \<lparr>dials = [Some (writeHelo [] (replicate 24 5) (replicate 24 5) @ pong @ [7])], writes = [], closes = [],
          salts = [Some (replicate 24 6)], sent = []\<rparr> = Ret (None, c', n') \<and> sent n' = [ping] \<and> c_serverHostname c' = [8]"
proof -
  let ?c = "\<lparr>Username = [1], Password = [2], SharedKey = [3]\<rparr>" and ?h = "writeHelo [] (replicate 24 5) (replicate 24 5)"
  have "\<exists>ping pong.
    (\<forall>its xs. it_r its = ping @ xs \<longrightarrow> (\<exists>its'. it_r its' = xs \<and>
       server_answer (list_ring 128) toy_sha (StaticAuthServer ?c) (\<lambda>_. []) [8] (replicate 24 5) (replicate 24 5) its = Ret ((Inr (Username ?c), pong), its'))) \<and>
    (\<forall>c n rd ds ss ys. rd = ?h @ pong @ ys \<and> dials n = Some rd # ds \<and> salts n = Some (replicate 24 6) # ss \<and> set (writes n) \<subseteq> {None} \<longrightarrow>
       (\<exists>c' n'. Connect (\<lambda>b k. b) (list_ring 128) toy_sha \<lparr>o_Hostname = [4], o_Auth = Inr ?c\<rparr> c n = Ret (None, c', n') \<and>
          sent n' = sent n @ [ping] \<and> c_conn c' = Some (length (sent n)) \<and>
          c_serverHostname c' = [8] \<and> wr_w (c_w c') = c_conn c' \<and> buf_B (c_w c') = [] \<and> it_r (c_r c') = ys))"
    by (rule Connect_completes [where P = True and rnd = "replicate 48 5" and cred = ?c, OF list_ring_contract list_ring_contract])
      (simp_all add: server_helo_def StaticAuthServer_def take_replicate drop_replicate Let_def)
  then obtain ping pong where
    "\<forall>c n rd ds ss ys. rd = ?h @ pong @ ys \<and> dials n = Some rd # ds \<and> salts n = Some (replicate 24 6) # ss \<and> set (writes n) \<subseteq> {None} \<longrightarrow>
       (\<exists>c' n'. Connect (\<lambda>b k. b) (list_ring 128) toy_sha \<lparr>o_Hostname = [4], o_Auth = Inr ?c\<rparr> c n = Ret (None, c', n') \<and>
          sent n' = sent n @ [ping] \<and> c_conn c' = Some (length (sent n)) \<and>
          c_serverHostname c' = [8] \<and> wr_w (c_w c') = c_conn c' \<and> buf_B (c_w c') = [] \<and> it_r (c_r c') = ys)"
    by blast
  from this [rule_format, of "?h @ pong @ [7]" "[7]" "\<lparr>dials = [Some (?h @ pong @ [7])], writes = [], closes = [],
          salts = [Some (replicate 24 6)], sent = []\<rparr>" "[]" "[]" "NewClient []"]
  show ?thesis by fastforce
qed

subsection \<open>The fallback buffer flushed through the client\<close>

text \<open>
  \<open>flushFallbackToCli\<close> hands \<open>WriteBatch\<close> to the buffer's \<open>Reader\<close>; a panic in it is impossible on a
  connected client. The buffer only looks at whether there was an error.
\<close>

definition client_batch :: "wkept \<Rightarrow> bytes \<Rightarrow> 'r ring \<Rightarrow> (bytes \<Rightarrow> bytes) \<Rightarrow> ClientOptions \<Rightarrow> bytes \<Rightarrow> ('r Client \<times> 'r net) batch_fn" where
  "client_batch kept spare R sha opt tag sz z cn =
     (case WriteBatch kept spare R sha opt tag sz [z] None (fst cn) (snd cn) of
        Some (err, c, n) \<Rightarrow> (map_option (\<lambda>_. ErrIO) err, (c, n)) | None \<Rightarrow> (Some ErrIO, cn))"

lemma flush_delivers:
  assumes "holds gz d rs ws" and "files (d_os d) (wName d) \<noteq> None"
    and "c_conn c = Some i" "wr_w (c_w c) = Some i" "buf_B (c_w c) = []" "i < length (sent n)"
  obtains z e d' err c' n' where "gz_file gz ws z"
    "DirBuffer_Reader gz (client_batch kept spare R sha opt tag) d (c, n) = (e, d', (c', n'))"
    "delivers i (encode (batch_msg tag z)) n err n'" "(e = None) = (err = None)" "holds gz d' (if e = None then [] else ws) rs"
proof -
  obtain z e d' cn where r: "gz_file gz ws z" "client_batch kept spare R sha opt tag (len z) z (c, n) = (e, cn)"
    "DirBuffer_Reader gz (client_batch kept spare R sha opt tag) d (c, n) = (e, d', cn)" "holds gz d' (if e = None then [] else ws) rs"
    using Reader_offers [OF assms(1,2), of "client_batch kept spare R sha opt tag" "(c, n)"] by blast
  obtain err c' n' where b: "WriteBatch kept spare R sha opt tag (len z) [z] None c n = Ret (err, c', n')"
    "delivers i (encode (batch_msg tag z)) n err n'"
    by (rule WriteBatch_delivers [where kept = kept and spare = spare and R = R and sha = sha and opt = opt and tag = tag and
      cs = "[z]" and z = z, OF assms(3-6)]) (simp, rule that)
  have "cn = (c', n')" "(e = None) = (err = None)" using r(2) b(1) by (auto simp: client_batch_def)
  with r b(2) show thesis by (intro that [of z e d' c' n' err]) simp_all
qed

lemma batch_msg_wire: "len tag < 2 ^ 32 \<Longrightarrow> len z < 2 ^ 32 \<Longrightarrow> wire (batch_msg tag z) (encode (batch_msg tag z))"
  by (intro encode_wire) (simp add: batch_msg_def text_bytes_def)

text \<open>
  Flushing the directory buffer through a connected client: the entries that the buffer holds
  for reading go out as one CompressedPackedForward message, whose binary is the gzip file that
  decompresses to them, and the buffer forgets them only when the whole message has been carried by
  the connection; otherwise it still holds every one.
\<close>

theorem flush_sends_batch:
  assumes "holds gz d rs ws" and "files (d_os d) (wName d) \<noteq> None"
    and "c_conn c = Some i" "wr_w (c_w c) = Some i" "buf_B (c_w c) = []" "i < length (sent n)" "len tag < 2 ^ 32"
  shows "\<exists>z e d' c' n' bs p. DirBuffer_Reader gz (client_batch kept spare R sha opt tag) d (c, n) = (e, d', (c', n')) \<and>
    gz_file gz ws z \<and> sent n' = (sent n)[i := sent n ! i @ p] \<and> prefix p bs \<and>
    (len z < 2 ^ 32 \<longrightarrow> wire (MArray [MStr tag, MBin z, MMap [(MStr (text_bytes ''compressed''), MStr (text_bytes ''gzip''))]]) bs) \<and>
    (if e = None then p = bs \<and> holds gz d' [] rs else holds gz d' ws rs)"
proof -
  obtain z e d' err c' n' where r: "gz_file gz ws z"
    "DirBuffer_Reader gz (client_batch kept spare R sha opt tag) d (c, n) = (e, d', (c', n'))"
    "delivers i (encode (batch_msg tag z)) n err n'" "(e = None) = (err = None)" "holds gz d' (if e = None then [] else ws) rs"
    by (rule flush_delivers [OF assms(1-6)])
  from r(3) obtain p where p: "sent n' = (sent n)[i := sent n ! i @ p]" "prefix p (encode (batch_msg tag z))"
    "err = None \<longrightarrow> p = encode (batch_msg tag z)" unfolding delivers_def by blast
  show ?thesis
    by (rule exI [of _ z], rule exI [of _ e], rule exI [of _ d'], rule exI [of _ c'], rule exI [of _ n'],
      rule exI [of _ "encode (batch_msg tag z)"], rule exI [of _ p])
      (use r p batch_msg_wire [OF assms(7), of z] in \<open>cases err; auto simp: batch_msg_def simp del: encode.simps\<close>)
qed

lemma flush_sends_batch_witness:
  "\<exists>z e d' c' n' p. DirBuffer_Reader store_gz (client_batch (\<lambda>b k. b) [] (list_ring 9) toy_sha \<lparr>o_Hostname = [], o_Auth = Inl []\<rparr> [0x74])
      (NewDirBuffer \<lparr>files = [[0x64, 0x2f, 0x70, 0x6f, 0x6e, 0x67, 0x2e, 0x62, 0x69, 0x6e] \<mapsto> [5, 0]], faults = []\<rparr> [0x64])
      ((NewClient [])\<lparr>c_conn := Some 0, c_w := NewWriter (Some 0)\<rparr>, \<lparr>dials = [], writes = [], closes = [], salts = [], sent = [[]]\<rparr>) =
      (e, d', (c', n')) \<and> gz_file store_gz [[5]] z \<and> sent n' = [p] \<and> (if e = None then holds store_gz d' [] [] else holds store_gz d' [[5]] [])"
proof -
  let ?d = "NewDirBuffer \<lparr>files = [[0x64, 0x2f, 0x70, 0x6f, 0x6e, 0x67, 0x2e, 0x62, 0x69, 0x6e] \<mapsto> [5, 0]], faults = []\<rparr> [0x64]"
  have "gz_file store_gz ([] @ [[5]]) ([] @ gz_member store_gz [[5]])" by (rule gz_file_member) simp
  then have h: "holds store_gz ?d [] [[5]]" by (simp add: holds_def NewDirBuffer_def content_def gz_member_def store_gz_def)
  show ?thesis
    using flush_sends_batch [OF h, of "(NewClient [])\<lparr>c_conn := Some 0, c_w := NewWriter (Some 0)\<rparr>" 0
      "\<lparr>dials = [], writes = [], closes = [], salts = [], sent = [[]]\<rparr>" "[0x74]" "\<lambda>b k. b" "[]" "list_ring 9" toy_sha "\<lparr>o_Hostname = [], o_Auth = Inl []\<rparr>"]
    by (fastforce simp: NewClient_def NewWriter_def NewDirBuffer_def)
qed

end
