(* ===== verification/Transport.thy ===== *)
theory Transport
  imports Iteration
begin

text \<open>
  \<open>forward/transport\<close>: the transport phase of a server session. It turns the messages of a
  connection into entries, and is a state machine over four modes: the message mode reads a message
  and either returns its entry or enters one of the three forward modes, which return the entries of
  one batch and then, when it has options, acknowledge its chunk on leaving.

  The main iterator reads the connection through the ring \<open>R\<close>. A packed batch is read by a second
  iterator over a reader that is limited to the batch, or that decompresses it: \<open>sub\<close> is what
  these modes use of the modules of the ring buffer and of gzip. While such a batch is read, its
  reader owns the connection, and \<open>Underlying\<close> gives it back. \<open>ack\<close> is any callback:
  \<open>t_ack_results\<close> says what its next calls return, \<open>t_acks\<close> is what it was called with.

  The mode changes are calls of one another (\<open>Next\<close>, \<open>Enter\<close>, \<open>changeMode\<close>, \<open>Leave\<close>, \<open>Next\<close>);
  their depth is bounded by a fuel. Flushing and rewinding the ring move no bytes of the stream
  and are left out. An error of \<open>ack\<close> is some text, never \<open>io.EOF\<close>, which \<open>TransportPhase.error\<close> would pass on as it is.
\<close>

datatype mode = MessageMode | ForwardMode | PackedForwardMode | CompressedPackedForwardMode

datatype cause =
    IterErr err | NoError | UnexpectedLength int | TooShort int | TooLong int | InvalidEntry | AckErr bytes

datatype transport_err =
    T_EOF | T_UnexpectedEOF | ModeErr mode string cause | AlreadyIn mode | GzipErr bytes

text \<open>\<open>Entry.Record\<close> points to the main iterator or to the one of the batch.\<close>

datatype record_iter = MainIter | BatchIter

record Entry =
  en_Tag :: bytes
  en_Timestamp :: go_time
  en_Record :: record_iter

definition empty_Entry :: Entry where
  "empty_Entry = \<lparr> en_Tag = [], en_Timestamp = zero_time, en_Record = MainIter \<rparr>"

record ('r, 'q) sub =
  Peek3 :: "'r \<Rightarrow> int \<Rightarrow> (bytes \<times> err option) \<times> 'r"
  Limited :: "'r \<Rightarrow> int \<Rightarrow> 'q"
  Gunzip :: "'r \<Rightarrow> int \<Rightarrow> (bytes + 'q) \<times> 'r"
  Underlying :: "'q \<Rightarrow> 'r"

record 'q TransportPhase =
  t_mode :: mode
  fm_tag :: bytes
  fm_items :: int
  fm_hasOptions :: bool
  pm_iter :: "'q Iterator option"
  pm_tag :: bytes
  pm_hasOptions :: bool
  cm_iter :: "'q Iterator option"
  cm_tag :: bytes
  cm_hasOptions :: bool
  t_ack_results :: "bytes option list"
  t_acks :: "bytes list"

type_synonym ('r, 'q) tstate = "'r Iterator \<times> 'q TransportPhase"
type_synonym ('r, 'q) tresult = "((transport_err option \<times> Entry) \<times> ('r, 'q) tstate) go"

subsection \<open>transport_phase.go\<close>

definition Init :: "bytes option list \<Rightarrow> 'q TransportPhase" where
  "Init results =
     \<lparr> t_mode = MessageMode, fm_tag = [], fm_items = 0, fm_hasOptions = False, pm_iter = None, pm_tag = [], pm_hasOptions = False,
       cm_iter = None, cm_tag = [], cm_hasOptions = False, t_ack_results = results, t_acks = [] \<rparr>"

definition t_error :: "'q TransportPhase \<Rightarrow> string \<Rightarrow> cause \<Rightarrow> transport_err" where
  "t_error t op err = (if err = IterErr EOF then T_EOF else ModeErr (t_mode t) op err)"

definition errorNoEof :: "'q TransportPhase \<Rightarrow> string \<Rightarrow> cause \<Rightarrow> transport_err" where
  "errorNoEof t op err = (if err = IterErr EOF then T_UnexpectedEOF else ModeErr (t_mode t) op err)"

definition iter_cause :: "err option \<Rightarrow> cause" where
  "iter_cause e = (case e of Some e \<Rightarrow> IterErr e | None \<Rightarrow> NoError)"

definition t_ack :: "bytes \<Rightarrow> 'q TransportPhase \<Rightarrow> bytes option \<times> 'q TransportPhase" where
  "t_ack chunk t =
     (let t = t\<lparr>t_acks := t_acks t @ [chunk]\<rparr> in
      case t_ack_results t of [] \<Rightarrow> (None, t) | e # es \<Rightarrow> (e, t\<lparr>t_ack_results := es\<rparr>))"

text \<open>The loop over the options; \<open>Skip\<close> has its own fuel.\<close>

fun options_loop :: "'r ring \<Rightarrow> nat \<Rightarrow> nat \<Rightarrow> 'r Iterator \<Rightarrow> 'q TransportPhase \<Rightarrow> (transport_err option \<times> ('r, 'q) tstate) go" where
  "options_loop R skip 0 it t = Ret (None, it, t)"
| "options_loop R skip (Suc n) it t = do {
     (err, it) \<leftarrow> NextExpectedType R it [StrT];
     case err of Some e \<Rightarrow> Ret (Some (errorNoEof t ''ack'' (IterErr e)), it, t) | None \<Rightarrow> do {
     let (key, it) = iter_Str R it;
     (ok, it) \<leftarrow> Next R it;
     if \<not> ok then
       Ret (Some (errorNoEof t ''ack'' (IterErr (case it_err it of Some e \<Rightarrow> e | None \<Rightarrow> ErrUnexpectedEOF))), it, t)
     else if key \<noteq> text_bytes ''chunk'' then do { it \<leftarrow> Skip R skip it; options_loop R skip n it t }
     else
       let (chunk, it) = iter_Str R it; (err, t) = t_ack chunk t in
       (case err of
          Some e \<Rightarrow> Ret (Some (t_error t ''ack'' (AckErr e)), it, t)
        | None \<Rightarrow> options_loop R skip n it t) } }"

definition handleOptions :: "'r ring \<Rightarrow> nat \<Rightarrow> ('r, 'q) tstate \<Rightarrow> (transport_err option \<times> ('r, 'q) tstate) go" where
  "handleOptions R skip s = (case s of (it, t) \<Rightarrow> do {
     (err, it) \<leftarrow> NextExpectedType R it [MapT];
     case err of
       Some e \<Rightarrow> Ret (Some (errorNoEof t ''ack'' (IterErr e)), it, t)
     | None \<Rightarrow> options_loop R skip (nat (it_items it)) it t })"

text \<open>The \<open>Leave\<close> of the current mode; a batch's iterator goes back to the pool and frees the connection.\<close>

definition batch_Leave :: "('r, 'q) sub \<Rightarrow> 'q Iterator option \<Rightarrow> 'r Iterator \<Rightarrow> 'r Iterator go" where
  "batch_Leave S iter it = (case iter of None \<Rightarrow> Panic | Some i \<Rightarrow> Ret (it\<lparr>it_r := Underlying S (it_r i)\<rparr>))"

definition Leave :: "'r ring \<Rightarrow> ('r, 'q) sub \<Rightarrow> nat \<Rightarrow> ('r, 'q) tstate \<Rightarrow> (transport_err option \<times> ('r, 'q) tstate) go" where
  "Leave R S skip s = (case s of (it, t) \<Rightarrow>
     (case t_mode t of
        MessageMode \<Rightarrow> Ret (None, it, t)
      | ForwardMode \<Rightarrow> if fm_hasOptions t then handleOptions R skip (it, t) else Ret (None, it, t)
      | PackedForwardMode \<Rightarrow> do {
          it \<leftarrow> batch_Leave S (pm_iter t) it;
          let t = t\<lparr>pm_iter := None\<rparr>;
          if pm_hasOptions t then handleOptions R skip (it, t) else Ret (None, it, t) }
      | CompressedPackedForwardMode \<Rightarrow> do {
          it \<leftarrow> batch_Leave S (cm_iter t) it;
          let t = t\<lparr>cm_iter := None\<rparr>;
          if cm_hasOptions t then handleOptions R skip (it, t) else Ret (None, it, t) }))"

text \<open>\<open>rec\<close> stands for the \<open>TransportPhase.Next\<close> that \<open>changeMode\<close> ends with.\<close>

type_synonym ('r, 'q) next_fn = "('r, 'q) tstate \<Rightarrow> Entry \<Rightarrow> ('r, 'q) tresult"

definition changeMode :: "'r ring \<Rightarrow> ('r, 'q) sub \<Rightarrow> nat \<Rightarrow> ('r, 'q) next_fn \<Rightarrow> mode \<Rightarrow> ('r, 'q) next_fn" where
  "changeMode R S skip rec mode s e =
     (if mode = t_mode (snd s) then Ret ((Some (AlreadyIn mode), e), s)
      else do {
        (err, it, t) \<leftarrow> Leave R S skip s;
        if err \<noteq> None then Ret ((err, e), it, t)
        else rec (it, t\<lparr>t_mode := mode\<rparr>) e })"

subsection \<open>The entry of a batch\<close>

text \<open>
  What the three forward modes do after their first \<open>NextExpectedType\<close>, on the iterator of the
  batch: the length of the array, the time and the head of the record.
\<close>

definition read_entry :: "'i ring \<Rightarrow> 'q TransportPhase \<Rightarrow> bytes \<Rightarrow> record_iter \<Rightarrow> 'i Iterator \<Rightarrow> Entry \<Rightarrow>
    ((transport_err option \<times> Entry) \<times> 'i Iterator) go" where
  "read_entry Q t tag src iter e =
     (if it_items iter \<noteq> 2 then Ret ((Some (t_error t ''array_head'' (UnexpectedLength (it_items iter))), e), iter)
      else do {
        (err, iter) \<leftarrow> NextExpectedType Q iter [ExtT, IntT, UintT];
        case err of Some x \<Rightarrow> Ret ((Some (errorNoEof t ''time'' (IterErr x)), e), iter) | None \<Rightarrow> do {
        (ts, iter) \<leftarrow> iter_Time Q iter;
        let e = e\<lparr>en_Tag := tag, en_Timestamp := ts\<rparr>;
        (err, iter) \<leftarrow> NextExpectedType Q iter [MapT];
        case err of
          Some x \<Rightarrow> Ret ((Some (errorNoEof t ''record'' (IterErr x)), e), iter)
        | None \<Rightarrow> Ret ((None, e\<lparr>en_Record := src\<rparr>), iter) } })"

subsection \<open>forward_mode.go, packed_forward_mode.go, compressed_packed_forward_mode.go\<close>

text \<open>The \<open>Next\<close> of a mode takes the \<open>changeMode\<close> that its \<open>Enter\<close> calls.\<close>

type_synonym ('r, 'q) change_fn = "mode \<Rightarrow> ('r, 'q) next_fn"

definition forward_Enter :: "('r, 'q) change_fn \<Rightarrow> int \<Rightarrow> bool \<Rightarrow> ('r, 'q) next_fn" where
  "forward_Enter change items hasOptions s e = (case s of (it, t) \<Rightarrow>
     change ForwardMode (it, t\<lparr>fm_tag := en_Tag e, fm_items := items, fm_hasOptions := hasOptions\<rparr>) e)"

definition forward_Next :: "'r ring \<Rightarrow> ('r, 'q) change_fn \<Rightarrow> ('r, 'q) next_fn" where
  "forward_Next R change s e = (case s of (it, t) \<Rightarrow>
     if fm_items t \<le> 0 then change MessageMode s e
     else do {
       (err, it) \<leftarrow> NextExpectedType R it [ArrayT];
       case err of Some x \<Rightarrow> Ret ((Some (t_error t ''array_head'' (IterErr x)), e), it, t) | None \<Rightarrow> do {
       ((err, e), it) \<leftarrow> read_entry R t (fm_tag t) MainIter it e;
       Ret ((err, e), it, if err = None then t\<lparr>fm_items := fm_items t - 1\<rparr> else t) } })"

definition packed_Enter :: "('r, 'q) sub \<Rightarrow> ('r, 'q) change_fn \<Rightarrow> bool \<Rightarrow> ('r, 'q) next_fn" where
  "packed_Enter S change hasOptions s e = (case s of (it, t) \<Rightarrow>
     change PackedForwardMode
       (it, t\<lparr>pm_iter := Some (NewIterator (Limited S (it_r it) (it_length it))), pm_tag := en_Tag e, pm_hasOptions := hasOptions\<rparr>) e)"

definition packed_Next :: "'q ring \<Rightarrow> ('r, 'q) change_fn \<Rightarrow> ('r, 'q) next_fn" where
  "packed_Next Q change s e = (case s of (it, t) \<Rightarrow>
     case pm_iter t of None \<Rightarrow> Panic | Some iter \<Rightarrow> do {
       (err, iter) \<leftarrow> NextExpectedType Q iter [ArrayT];
       let t = t\<lparr>pm_iter := Some iter\<rparr>;
       case err of
         Some x \<Rightarrow> if x = EOF then change MessageMode (it, t) e else Ret ((Some (t_error t ''array_head'' (IterErr x)), e), it, t)
       | None \<Rightarrow> do {
           ((err, e), iter) \<leftarrow> read_entry Q t (pm_tag t) BatchIter iter e;
           Ret ((err, e), it, t\<lparr>pm_iter := Some iter\<rparr>) } })"

definition compressed_Enter :: "('r, 'q) sub \<Rightarrow> ('r, 'q) change_fn \<Rightarrow> bool \<Rightarrow> ('r, 'q) next_fn" where
  "compressed_Enter S change hasOptions s e = (case s of (it, t) \<Rightarrow>
     case Gunzip S (it_r it) (it_length it) of
       (Inl x, r) \<Rightarrow> Ret ((Some (GzipErr x), e), it\<lparr>it_r := r\<rparr>, t)
     | (Inr q, r) \<Rightarrow>
         change CompressedPackedForwardMode
           (it\<lparr>it_r := r\<rparr>, t\<lparr>cm_iter := Some (NewIterator q), cm_tag := en_Tag e, cm_hasOptions := hasOptions\<rparr>) e)"

definition compressed_Next :: "'q ring \<Rightarrow> ('r, 'q) change_fn \<Rightarrow> ('r, 'q) next_fn" where
  "compressed_Next Q change s e = (case s of (it, t) \<Rightarrow>
     case cm_iter t of None \<Rightarrow> Panic | Some iter \<Rightarrow> do {
       (err, iter) \<leftarrow> NextExpectedType Q iter [ArrayT];
       let t = t\<lparr>cm_iter := Some iter\<rparr>;
       case err of
         Some x \<Rightarrow> if x = EOF then change MessageMode (it, t) e else Ret ((Some (t_error t ''array_head'' (IterErr x)), e), it, t)
       | None \<Rightarrow> do {
           ((err, e), iter) \<leftarrow> read_entry Q t (cm_tag t) BatchIter iter e;
           Ret ((err, e), it, t\<lparr>cm_iter := Some iter\<rparr>) } })"

subsection \<open>gzip.go, message_mode.go\<close>

definition isGzip :: "('r, 'q) sub \<Rightarrow> 'r Iterator \<Rightarrow> ((bool \<times> err option) \<times> 'r Iterator) go" where
  "isGzip S it =
     (let ((magicNumbers, err), r) = Peek3 S (it_r it) (it_length it);
          it = it\<lparr>it_r := r\<rparr> in
      if err \<noteq> None then Ret ((False, err), it)
      else do {
        a \<leftarrow> go_index magicNumbers 0;
        b \<leftarrow> go_index magicNumbers 1;
        c \<leftarrow> go_index magicNumbers 2;
        Ret ((a = 0x1f \<and> b = 0x8b \<and> c = 8, None), it) })"

abbreviation (input) "minTagLen \<equiv> (1 :: int)"
abbreviation (input) "maxTagLen \<equiv> (64 :: int)"

text \<open>The part before the time or the entries: the tag of a message, with the number of its items.\<close>

definition message_head :: "'r ring \<Rightarrow> ('r, 'q) tstate \<Rightarrow> ((transport_err + int \<times> bytes) \<times> 'r Iterator) go" where
  "message_head R s = (case s of (it, t) \<Rightarrow> do {
     (err, it) \<leftarrow> NextExpectedType R it [ArrayT];
     case err of Some x \<Rightarrow> Ret (Inl (t_error t ''array_head'' (IterErr x)), it) | None \<Rightarrow>
     let evLen = it_items it in
     if evLen < 2 \<or> evLen > 4 then Ret (Inl (t_error t ''array_head'' (UnexpectedLength evLen)), it)
     else do {
       (err, it) \<leftarrow> NextExpectedType R it [StrT];
       case err of Some x \<Rightarrow> Ret (Inl (errorNoEof t ''tag'' (IterErr x)), it) | None \<Rightarrow>
       if it_length it < minTagLen then Ret (Inl (t_error t ''tag'' (TooShort (it_length it))), it)
       else if it_length it > maxTagLen then Ret (Inl (t_error t ''tag'' (TooLong (it_length it))), it)
       else let (tag, it) = iter_Str R it in Ret (Inr (evLen, tag), it) } })"

definition message_Next :: "'r ring \<Rightarrow> ('r, 'q) sub \<Rightarrow> nat \<Rightarrow> ('r, 'q) change_fn \<Rightarrow> ('r, 'q) next_fn" where
  "message_Next R S skip change s e = (case s of (_, t) \<Rightarrow> do {
     (res, it) \<leftarrow> message_head R s;
     case res of Inl x \<Rightarrow> Ret ((Some x, e), it, t) | Inr (evLen, tag) \<Rightarrow> do {
     let e = e\<lparr>en_Tag := tag\<rparr>;
     (ok, it) \<leftarrow> Next R it;
     if \<not> ok then Ret ((Some (errorNoEof t ''time_or_entries'' (iter_cause (it_err it))), e), it, t)
     else if it_typ it = ArrayT then forward_Enter change (it_items it) (evLen = 3) (it, t) e
     else if it_typ it = BinT then do {
       ((gz, err), it) \<leftarrow> isGzip S it;
       case err of Some x \<Rightarrow> Ret ((Some (t_error t ''is_gzip'' (IterErr x)), e), it, t) | None \<Rightarrow>
       if gz then compressed_Enter S change (evLen = 3) (it, t) e
       else packed_Enter S change (evLen = 3) (it, t) e }
     else if it_typ it \<noteq> ExtT \<and> it_typ it \<noteq> IntT \<and> it_typ it \<noteq> UintT
     then Ret ((Some (t_error t ''time_or_entries'' InvalidEntry), e), it, t)
     else do {
       (ts, it) \<leftarrow> iter_Time R it;
       let e = e\<lparr>en_Timestamp := ts\<rparr>;
       (err, it) \<leftarrow> NextExpectedType R it [MapT];
       case err of Some x \<Rightarrow> Ret ((Some (errorNoEof t ''record'' (IterErr x)), e), it, t) | None \<Rightarrow>
       let e = e\<lparr>en_Record := MainIter\<rparr> in
       if evLen = 4 then do { (err, s) \<leftarrow> handleOptions R skip (it, t); Ret ((err, e), s) }
       else Ret ((None, e), it, t) } } })"

subsection \<open>TransportPhase.Next\<close>

primrec t_Next :: "'r ring \<Rightarrow> 'q ring \<Rightarrow> ('r, 'q) sub \<Rightarrow> nat \<Rightarrow> nat \<Rightarrow> ('r, 'q) next_fn" where
  "t_Next R Q S skip 0 = (\<lambda>s e. None)"
| "t_Next R Q S skip (Suc fuel) = (\<lambda>s e.
     let change = changeMode R S skip (t_Next R Q S skip fuel) in
     case t_mode (snd s) of
       MessageMode \<Rightarrow> message_Next R S skip change s e
     | ForwardMode \<Rightarrow> forward_Next R change s e
     | PackedForwardMode \<Rightarrow> packed_Next Q change s e
     | CompressedPackedForwardMode \<Rightarrow> compressed_Next Q change s e)"

subsection \<open>Calls that return\<close>

definition returns :: "'a go \<Rightarrow> ('a \<Rightarrow> bool) \<Rightarrow> bool" where
  "returns m P \<longleftrightarrow> (\<exists>x. m = Ret x \<and> P x)"

named_theorems ret_intros

lemma returns_Ret [ret_intros]: "P x \<Longrightarrow> returns (Ret x) P"
  by (simp add: returns_def)

lemma returns_bind: "returns m P \<Longrightarrow> (\<And>x. P x \<Longrightarrow> returns (f x) T) \<Longrightarrow> returns (m \<bind> f) T"
  by (auto simp: returns_def)

lemma returns_mono: "returns m P \<Longrightarrow> (\<And>x. P x \<Longrightarrow> T x) \<Longrightarrow> returns m T"
  by (auto simp: returns_def)

lemma returns_if [ret_intros]: "(b \<Longrightarrow> returns x P) \<Longrightarrow> (\<not> b \<Longrightarrow> returns y P) \<Longrightarrow> returns (if b then x else y) P"
  by simp

lemma returns_option [ret_intros]:
  "(v = None \<Longrightarrow> returns x P) \<Longrightarrow> (\<And>y. v = Some y \<Longrightarrow> returns (f y) P) \<Longrightarrow> returns (case v of None \<Rightarrow> x | Some y \<Rightarrow> f y) P"
  by (cases v) auto

text \<open>\<open>shrinks R g\<close>: no operation of the ring makes the measure \<open>g\<close> of the reader larger.\<close>

definition shrinks :: "'r ring \<Rightarrow> ('r \<Rightarrow> nat) \<Rightarrow> bool" where
  "shrinks R g \<longleftrightarrow> (\<forall>r. g (snd (ReadByte R r)) \<le> g r) \<and> (\<forall>r n. 0 \<le> n \<longrightarrow> g (snd (ReadBytes R r n)) \<le> g r) \<and>
     (\<forall>r n. 0 \<le> n \<longrightarrow> g (Discard R r n) \<le> g r)"

lemma ring_shrinks: "ring_contract R rest limit \<Longrightarrow> shrinks R (\<lambda>r. length (rest r))"
proof -
  assume R: "ring_contract R rest limit"
  have 1: "length (rest (snd (ReadByte R r))) \<le> length (rest r)" for r
    using ring_ReadByte [OF R, of r "fst (fst (ReadByte R r))" "snd (fst (ReadByte R r))" "snd (ReadByte R r)"] by (auto split: if_splits)
  have 2: "length (rest (snd (ReadBytes R r n))) \<le> length (rest r)" if "0 \<le> n" for r n
    using ring_ReadBytes [OF R that, of r "fst (fst (ReadBytes R r n))" "snd (fst (ReadBytes R r n))" "snd (ReadBytes R r n)"]
    by (auto split: if_splits)
  have 3: "length (rest (Discard R r n)) \<le> length (rest r)" if "0 \<le> n" for r n
    using ring_Discard [OF R that] by simp
  from 1 2 3 show ?thesis by (simp add: shrinks_def)
qed

lemma Next_shrinks:
  assumes R: "ring_contract R rest limit" and "iter_ok it" and "shrinks R g"
  shows "returns (Next R it) (\<lambda>(b, it'). iter_ok it' \<and> length (rest (it_r it')) \<le> length (rest (it_r it)) \<and>
    (b \<longrightarrow> length (rest (it_r it')) < length (rest (it_r it))) \<and> g (it_r it') \<le> g (it_r it))"
proof -
  obtain b it' where n: "Next R it = Ret (b, it')" "iter_ok it'" "length (rest (it_r it')) \<le> length (rest (it_r it))"
    "b \<longrightarrow> length (rest (it_r it')) < length (rest (it_r it))" using Next_total [OF R assms(2)] by blast
  obtain c e r1 where r1: "ReadByte R (it_r it) = ((c, e), r1)" by (metis prod.collapse)
  then have g1: "g r1 \<le> g (it_r it)" using assms(3) by (metis shrinks_def snd_conv)
  obtain t k v where t: "Get c = (t, k, v)" by (metis prod_cases3)
  obtain buf e2 r2 where r2: "ReadBytes R r1 k = ((buf, e2), r2)" by (metis prod.collapse)
  then have "g r2 \<le> g r1" using assms(3) Get_len_nonneg [OF t] by (metis shrinks_def snd_conv)
  with g1 n(1) r1 t r2 have "g (it_r it') \<le> g (it_r it)"
    by (auto simp: Next_def Let_def split: if_splits bind_split_asm)
  with n show ?thesis by (auto simp: returns_def)
qed

text \<open>What an operation of the iterator leaves: \<open>later\<close> relates the iterator before and after.\<close>

definition later :: "('r \<Rightarrow> bytes) \<Rightarrow> ('r \<Rightarrow> nat) \<Rightarrow> 'r Iterator \<Rightarrow> 'r Iterator \<Rightarrow> bool" where
  "later rest g it it' \<longleftrightarrow> iter_ok it' \<and> length (rest (it_r it')) \<le> length (rest (it_r it)) \<and> g (it_r it') \<le> g (it_r it)"

lemma later_refl: "iter_ok it \<Longrightarrow> later rest g it it"
  by (simp add: later_def)

lemma later_trans: "later rest g a b \<Longrightarrow> later rest g b c \<Longrightarrow> later rest g a c"
  by (auto simp: later_def)

lemma NextExpectedType_returns:
  assumes "ring_contract R rest limit" and "iter_ok it" and "shrinks R g"
  shows "returns (NextExpectedType R it ts) (\<lambda>(e, it'). later rest g it it' \<and>
    (e = None \<longrightarrow> length (rest (it_r it')) < length (rest (it_r it))))"
  unfolding NextExpectedType_def
  by (rule returns_bind [OF Next_shrinks [OF assms]]) (auto intro!: ret_intros simp: later_def split: if_splits)

lemma raw_later:
  assumes R: "ring_contract R rest limit" and "iter_ok it" and "shrinks R g" and "raw R it = (x, it')"
  shows "later rest g it it'"
proof -
  obtain b e r where r: "ReadBytes R (it_r it) (it_length it) = ((b, e), r)" by (metis prod.collapse)
  have n: "0 \<le> it_length it" using assms(2) by (simp add: iter_ok_def)
  have "length (rest r) \<le> length (rest (it_r it))" using ring_ReadBytes [OF R n r] by (auto split: if_splits)
  moreover have "g r \<le> g (it_r it)" using assms(3) n r by (metis shrinks_def snd_conv)
  ultimately show ?thesis using r assms(2,4) by (auto simp: raw_def later_def iter_ok_def)
qed

lemma iter_Str_later:
  assumes "ring_contract R rest limit" and "iter_ok it" and "shrinks R g" and "iter_Str R it = (s, it')"
  shows "later rest g it it'"
  using raw_later [OF assms(1-3)] assms(4) by (auto simp: iter_Str_def Let_def split: prod.splits if_splits)

lemma readIntUnsafe_returns: "returns (readIntUnsafe c src) (\<lambda>_. True)"
  using intFromBuf_total [of src] uintFromBuf_total [of src] by (auto simp: readIntUnsafe_def returns_def split: prod.split)

lemma returns_True: "returns m (\<lambda>_. True) \<longleftrightarrow> m \<noteq> Panic"
  by (auto simp: returns_def)

lemma be_returns:
  "4 \<le> length buf \<Longrightarrow> uint32_be buf \<noteq> Panic" "8 \<le> length buf \<Longrightarrow> uint64_be buf \<noteq> Panic"
  by (rule uint32_be.cases [of buf], auto simp: be_eval) (rule uint64_be.cases [of buf], auto simp: be_eval)

lemma readTimeUnsafe_returns: "readTimeUnsafe c src \<noteq> Panic"
proof -
  have i: "readIntUnsafe c src \<noteq> Panic" using readIntUnsafe_returns [of c src] by (simp add: returns_True)
  have s: "\<not> len src < 5 \<Longrightarrow> go_index src 0 = Ret (src ! 0)"
    "\<not> len src < 5 \<Longrightarrow> go_slice src 1 (len src) = Ret (drop 1 src)" "\<not> len src < 5 \<Longrightarrow> go_slice src 5 (len src) = Ret (drop 5 src)"
    by (cases src; simp add: go_index_def go_slice_def)+
  have u: "\<not> len src < 5 \<Longrightarrow> uint32_be (drop 1 src) \<noteq> Panic" by (rule be_returns) simp
  show ?thesis
    using i u be_returns(2) [of "drop 1 src"] be_returns(2) [of "drop 5 src"]
      int32_be_no_panic [of 1 5 src] int32_be_no_panic [of 5 9 src]
    by (cases "len src < 5") (auto simp: readTimeUnsafe_def s bind_eq_None_conv int32_be_def go_slice_def)
qed

lemma iter_Time_returns:
  assumes "ring_contract R rest limit" and "iter_ok it" and "shrinks R g"
  shows "returns (iter_Time R it) (\<lambda>(ts, it'). later rest g it it')"
proof -
  obtain b ok it' where r: "raw R it = ((b, ok), it')" by (metis prod.collapse)
  with raw_later [OF assms] have "later rest g it it'" by simp
  moreover obtain v where "readTimeUnsafe (it_byt it') b = Ret v" using readTimeUnsafe_returns by blast
  ultimately show ?thesis using r by (auto simp: iter_Time_def returns_def)
qed

lemma Skip_returns:
  assumes R: "ring_contract R rest limit" and "iter_ok it" and "length (rest (it_r it)) < skip"
  shows "returns (Skip R skip it) (\<lambda>it'. iter_ok it' \<and> length (rest (it_r it')) \<le> length (rest (it_r it)))"
  using Skip_total_aux(1) [OF assms] by (auto simp: returns_def)

text \<open>The bounds on what the other modules do: a batch is never longer than what is left of the connection.\<close>

definition sub_bounds :: "('r \<Rightarrow> bytes) \<Rightarrow> 'q ring \<Rightarrow> ('q \<Rightarrow> nat) \<Rightarrow> ('r, 'q) sub \<Rightarrow> bool" where
  "sub_bounds rest Q owed S \<longleftrightarrow> shrinks Q owed \<and>
     (\<forall>r n b e r'. Peek3 S r n = ((b, e), r') \<longrightarrow> length (rest r') \<le> length (rest r) \<and> (e = None \<longrightarrow> 3 \<le> length b)) \<and>
     (\<forall>r n. 0 \<le> n \<longrightarrow> owed (Limited S r n) \<le> length (rest r)) \<and>
     (\<forall>r n res r'. 0 \<le> n \<longrightarrow> Gunzip S r n = (res, r') \<longrightarrow> length (rest r') \<le> length (rest r) \<and>
        (\<forall>q. res = Inr q \<longrightarrow> owed q \<le> length (rest r))) \<and>
     (\<forall>q. length (rest (Underlying S q)) \<le> owed q)"

definition opt_iter_ok :: "'q Iterator option \<Rightarrow> bool" where
  "opt_iter_ok i \<longleftrightarrow> (case i of None \<Rightarrow> False | Some i \<Rightarrow> iter_ok i)"

definition trans_ok :: "('r, 'q) tstate \<Rightarrow> bool" where
  "trans_ok s = (case s of (it, t) \<Rightarrow> iter_ok it \<and> (t_mode t = PackedForwardMode \<longrightarrow> opt_iter_ok (pm_iter t)) \<and>
     (t_mode t = CompressedPackedForwardMode \<longrightarrow> opt_iter_ok (cm_iter t)))"

text \<open>The bytes of the connection that are still to come, in the hands of either iterator.\<close>

definition trans_left :: "('r \<Rightarrow> bytes) \<Rightarrow> ('q \<Rightarrow> nat) \<Rightarrow> ('r, 'q) tstate \<Rightarrow> nat" where
  "trans_left rest owed s = (case s of (it, t) \<Rightarrow>
     (case t_mode t of
        PackedForwardMode \<Rightarrow> (case pm_iter t of None \<Rightarrow> 0 | Some i \<Rightarrow> owed (it_r i))
      | CompressedPackedForwardMode \<Rightarrow> (case cm_iter t of None \<Rightarrow> 0 | Some i \<Rightarrow> owed (it_r i))
      | _ \<Rightarrow> length (rest (it_r it))))"

lemma t_ack_acks: "t_ack c t = (e, t') \<Longrightarrow> \<exists>rs as. t' = t\<lparr>t_ack_results := rs, t_acks := as\<rparr>"
  by (cases t) (auto simp: t_ack_def Let_def split: list.splits)

definition options_done :: "('r \<Rightarrow> bytes) \<Rightarrow> 'r Iterator \<Rightarrow> 'q TransportPhase \<Rightarrow> transport_err option \<times> ('r, 'q) tstate \<Rightarrow> bool" where
  "options_done rest it t res = (case res of (err, it', t') \<Rightarrow> iter_ok it' \<and> length (rest (it_r it')) \<le> length (rest (it_r it)) \<and>
     (\<exists>rs as. t' = t\<lparr>t_ack_results := rs, t_acks := as\<rparr>))"

lemma options_done_trans:
  "length (rest (it_r it1)) \<le> length (rest (it_r it)) \<Longrightarrow> t1 = t\<lparr>t_ack_results := rs, t_acks := as\<rparr> \<Longrightarrow>
    options_done rest it1 t1 res \<Longrightarrow> options_done rest it t res"
  by (auto simp: options_done_def)

lemma options_done_now:
  "iter_ok it' \<Longrightarrow> length (rest (it_r it')) \<le> length (rest (it_r it)) \<Longrightarrow> options_done rest it t (err, it', t)"
  unfolding options_done_def by (cases t) auto

lemma options_loop_returns:
  assumes R: "ring_contract R rest limit"
  shows "iter_ok it \<Longrightarrow> length (rest (it_r it)) \<le> skip \<Longrightarrow> returns (options_loop R skip n it t) (options_done rest it t)"
proof (induction n arbitrary: it t)
  case 0
  then show ?case by (simp add: returns_def options_done_now)
next
  case (Suc n)
  note g = ring_shrinks [OF R]
  obtain e it1 where ne: "NextExpectedType R it [StrT] = Ret (e, it1)" and 1: "later rest (\<lambda>r. length (rest r)) it it1"
    "e = None \<longrightarrow> length (rest (it_r it1)) < length (rest (it_r it))"
    using NextExpectedType_returns [OF R Suc.prems(1) g] unfolding returns_def by blast
  show ?case
  proof (cases e)
      case (Some x)
      with 1 ne show ?thesis by (auto simp: later_def intro!: ret_intros options_done_now)
    next
      case None
      obtain key it2 where k: "iter_Str R it1 = (key, it2)" by (metis prod.exhaust)
      with iter_Str_later [OF R _ g] 1(1) have 2: "iter_ok it2" "length (rest (it_r it2)) \<le> length (rest (it_r it1))" by (auto simp: later_def)
      obtain ok it3 where n: "Next R it2 = Ret (ok, it3)" "iter_ok it3" "length (rest (it_r it3)) \<le> length (rest (it_r it2))"
        using Next_total [OF R 2(1)] by blast
      have l: "length (rest (it_r it3)) < length (rest (it_r it))" using 1 2 n None by simp
      obtain chunk it4 where c: "iter_Str R it3 = (chunk, it4)" by (metis prod.exhaust)
      with iter_Str_later [OF R n(2) g] l have 4: "iter_ok it4" "length (rest (it_r it4)) \<le> length (rest (it_r it))" by (auto simp: later_def)
      obtain err t1 where a: "t_ack chunk t = (err, t1)" by (metis prod.exhaust)
      then obtain rs as where t1: "t1 = t\<lparr>t_ack_results := rs, t_acks := as\<rparr>" using t_ack_acks by blast
      consider "\<not> ok" | "ok" "key \<noteq> text_bytes ''chunk''" | "ok" "key = text_bytes ''chunk''" by blast
      then show ?thesis
      proof cases
        case 1
        with None ne k n l show ?thesis by (auto intro!: ret_intros options_done_now)
      next
        case 2
        have "returns (Skip R skip it3 \<bind> (\<lambda>it. options_loop R skip n it t)) (options_done rest it t)"
        proof (rule returns_bind [OF Skip_returns [OF R n(2)]])
          show "length (rest (it_r it3)) < skip" using l Suc.prems(2) by simp
          fix it5 assume 5: "iter_ok it5 \<and> length (rest (it_r it5)) \<le> length (rest (it_r it3))"
          show "returns (options_loop R skip n it5 t) (options_done rest it t)"
            by (rule returns_mono [OF Suc.IH [of it5 t]], use 5 l Suc.prems in simp_all)
              (rule options_done_trans [where rs = "t_ack_results t" and as = "t_acks t"]; use 5 l in simp)
        qed
        with None ne k n 2 show ?thesis by simp
      next
        case 3
        have "returns (options_loop R skip n it4 t1) (options_done rest it t)"
          by (rule returns_mono [OF Suc.IH [of it4 t1]], use 4 Suc.prems in simp_all)
            (rule options_done_trans [OF 4(2) t1])
        moreover have "options_done rest it t (x, it4, t1)" for x using 4 t1 by (auto simp: options_done_def)
        ultimately show ?thesis using None ne k n 3 c a by (auto intro!: ret_intros)
      qed
  qed
qed

lemma handleOptions_returns:
  assumes R: "ring_contract R rest limit" and "iter_ok it" and "length (rest (it_r it)) \<le> skip"
  shows "returns (handleOptions R skip (it, t)) (options_done rest it t)"
proof -
  obtain e it1 where ne: "NextExpectedType R it [MapT] = Ret (e, it1)" and 1: "later rest (\<lambda>r. length (rest r)) it it1"
    using NextExpectedType_returns [OF R assms(2) ring_shrinks [OF R]] unfolding returns_def by blast
  then have l: "iter_ok it1" "length (rest (it_r it1)) \<le> length (rest (it_r it))" by (auto simp: later_def)
  have "returns (options_loop R skip (nat (it_items it1)) it1 t) (options_done rest it t)"
    by (rule returns_mono [OF options_loop_returns [OF R l(1)]], use l assms(3) in simp)
      (rule options_done_trans [OF l(2), where rs = "t_ack_results t" and as = "t_acks t"]; simp)
  with l ne show ?thesis by (auto simp: handleOptions_def intro!: ret_intros options_done_now)
qed

lemma read_entry_returns:
  assumes Q: "ring_contract Q restq limit" and "iter_ok iter" and g: "shrinks Q g"
  shows "returns (read_entry Q t tag src iter e) (\<lambda>((err, e'), iter'). later restq g iter iter')"
proof -
  obtain x1 i1 where 1: "NextExpectedType Q iter [ExtT, IntT, UintT] = Ret (x1, i1)" "later restq g iter i1"
    using NextExpectedType_returns [OF Q assms(2) g] unfolding returns_def by blast
  then have o1: "iter_ok i1" by (simp add: later_def)
  obtain ts i2 where 2: "iter_Time Q i1 = Ret (ts, i2)" "later restq g i1 i2"
    using iter_Time_returns [OF Q o1 g] unfolding returns_def by blast
  then have o2: "iter_ok i2" by (simp add: later_def)
  obtain x3 i3 where 3: "NextExpectedType Q i2 [MapT] = Ret (x3, i3)" "later restq g i2 i3"
    using NextExpectedType_returns [OF Q o2 g] unfolding returns_def by blast
  have l: "later restq g iter iter" "later restq g iter i3" using assms(2) 1(2) 2(2) 3(2) by (auto intro: later_refl later_trans)
  show ?thesis
    using 1 2(1) 3(1) l by (auto simp: read_entry_def Let_def intro!: ret_intros)
qed

text \<open>What every call of \<open>Next\<close> ends with when \<open>m\<close> bytes of the connection were left.\<close>

definition next_ok :: "('r \<Rightarrow> bytes) \<Rightarrow> ('q \<Rightarrow> nat) \<Rightarrow> nat \<Rightarrow> (transport_err option \<times> Entry) \<times> ('r, 'q) tstate \<Rightarrow> bool" where
  "next_ok rest owed m res = (case res of ((err, e), s) \<Rightarrow> (err = None \<longrightarrow> trans_ok s) \<and> trans_left rest owed s \<le> m)"

text \<open>What a mode needs of the \<open>changeMode\<close> that it calls.\<close>

definition change_ok :: "('r \<Rightarrow> bytes) \<Rightarrow> ('q \<Rightarrow> nat) \<Rightarrow> nat \<Rightarrow> ('r, 'q) change_fn \<Rightarrow> bool" where
  "change_ok rest owed m change \<longleftrightarrow> (\<forall>mode it t e. mode \<noteq> t_mode t \<longrightarrow> trans_ok (it, t\<lparr>t_mode := mode\<rparr>) \<longrightarrow>
     t_mode t = MessageMode \<longrightarrow> trans_left rest owed (it, t\<lparr>t_mode := mode\<rparr>) < m \<longrightarrow> returns (change mode (it, t) e) (next_ok rest owed m))"

lemma next_ok_here:
  "t_mode t = MessageMode \<Longrightarrow> iter_ok it \<Longrightarrow> length (rest (it_r it)) \<le> m \<Longrightarrow> next_ok rest owed m ((err, e), it, t)"
  by (simp add: next_ok_def trans_ok_def trans_left_def)

lemma forward_Enter_returns:
  assumes "change_ok rest owed m change" and "iter_ok it" and "t_mode t = MessageMode" and "length (rest (it_r it)) < m"
  shows "returns (forward_Enter change items ho (it, t) e) (next_ok rest owed m)"
  using assms by (auto simp: forward_Enter_def change_ok_def trans_ok_def trans_left_def)

lemma packed_Enter_returns:
  assumes "change_ok rest owed m change" and S: "sub_bounds rest Q owed S" and "iter_ok it" and "t_mode t = MessageMode"
    and "length (rest (it_r it)) < m"
  shows "returns (packed_Enter S change ho (it, t) e) (next_ok rest owed m)"
proof -
  have "owed (Limited S (it_r it) (it_length it)) \<le> length (rest (it_r it))"
    using S assms(3) by (auto simp: sub_bounds_def iter_ok_def)
  with assms show ?thesis
    by (auto simp: packed_Enter_def change_ok_def trans_ok_def trans_left_def opt_iter_ok_def iter_ok_NewIterator)
qed

lemma compressed_Enter_returns:
  assumes "change_ok rest owed m change" and S: "sub_bounds rest Q owed S" and "iter_ok it" and "t_mode t = MessageMode"
    and "length (rest (it_r it)) < m"
  shows "returns (compressed_Enter S change ho (it, t) e) (next_ok rest owed m)"
proof -
  obtain res r where g: "Gunzip S (it_r it) (it_length it) = (res, r)" by (metis prod.exhaust)
  moreover have "0 \<le> it_length it" using assms(3) by (simp add: iter_ok_def)
  ultimately have b: "length (rest r) \<le> length (rest (it_r it)) \<and> (\<forall>q. res = Inr q \<longrightarrow> owed q \<le> length (rest (it_r it)))"
    using S unfolding sub_bounds_def by blast
  show ?thesis
  proof (cases res)
    case (Inl x)
    with g b assms(3-5) show ?thesis
      by (auto simp: compressed_Enter_def iter_ok_def intro!: ret_intros next_ok_here)
  next
    case (Inr q)
    with g b assms show ?thesis
      by (auto simp: compressed_Enter_def change_ok_def trans_ok_def trans_left_def opt_iter_ok_def iter_ok_def NewIterator_def)
  qed
qed

lemma sub_Peek3:
  assumes "sub_bounds rest Q owed S" and "Peek3 S r n = ((b, e), r')"
  shows "length (rest r') \<le> length (rest r) \<and> (e = None \<longrightarrow> 3 \<le> length b)"
proof -
  have "\<forall>r n b e r'. Peek3 S r n = ((b, e), r') \<longrightarrow> length (rest r') \<le> length (rest r) \<and> (e = None \<longrightarrow> 3 \<le> length b)"
    using assms(1) unfolding sub_bounds_def by (elim conjE)
  from this [rule_format, OF assms(2)] show ?thesis by simp
qed

lemma isGzip_returns:
  assumes S: "sub_bounds rest Q owed S" and "iter_ok it"
  shows "returns (isGzip S it) (\<lambda>(res, it'). iter_ok it' \<and> length (rest (it_r it')) \<le> length (rest (it_r it)))"
proof -
  obtain b e r where p: "Peek3 S (it_r it) (it_length it) = ((b, e), r)" by (metis prod.collapse)
  have k: "length (rest r) \<le> length (rest (it_r it))" "e = None \<Longrightarrow> 3 \<le> length b"
    using sub_Peek3 [OF S p] by simp_all
  have ok: "iter_ok (it\<lparr>it_r := r\<rparr>)" using assms(2) by (simp add: iter_ok_def)
  show ?thesis
  proof (cases e)
    case None
    then have "go_index b 0 = Ret (b ! 0)" "go_index b 1 = Ret (b ! 1)" "go_index b 2 = Ret (b ! 2)" using k(2) by (auto simp: go_index_def)
    with p k(1) ok None show ?thesis by (simp add: isGzip_def returns_def)
  next
    case (Some x)
    with p k(1) ok show ?thesis by (simp add: isGzip_def returns_def)
  qed
qed

lemma message_head_returns:
  assumes R: "ring_contract R rest limit" and "iter_ok it"
  shows "returns (message_head R (it, t)) (\<lambda>(res, it'). iter_ok it' \<and> length (rest (it_r it')) \<le> length (rest (it_r it)) \<and>
    (\<forall>x. res = Inr x \<longrightarrow> length (rest (it_r it')) < length (rest (it_r it))))"
proof -
  note g = ring_shrinks [OF R]
  obtain e1 i1 where 1: "NextExpectedType R it [ArrayT] = Ret (e1, i1)" "later rest (\<lambda>r. length (rest r)) it i1"
    "e1 = None \<longrightarrow> length (rest (it_r i1)) < length (rest (it_r it))"
    using NextExpectedType_returns [OF R assms(2) g] unfolding returns_def by blast
  then have o1: "iter_ok i1" by (simp add: later_def)
  obtain e2 i2 where 2: "NextExpectedType R i1 [StrT] = Ret (e2, i2)" "later rest (\<lambda>r. length (rest r)) i1 i2"
    using NextExpectedType_returns [OF R o1 g] unfolding returns_def by blast
  then have o2: "iter_ok i2" by (simp add: later_def)
  obtain tag i3 where 3: "iter_Str R i2 = (tag, i3)" by (metis prod.exhaust)
  with iter_Str_later [OF R o2 g] have "later rest (\<lambda>r. length (rest r)) i2 i3" .
  with 1 2 3 show ?thesis
    by (auto simp: message_head_def later_def Let_def intro!: ret_intros)
qed

lemma message_Next_returns:
  assumes R: "ring_contract R rest limit" and S: "sub_bounds rest Q owed S" and "trans_ok (it, t)" and t: "t_mode t = MessageMode"
    and m: "length (rest (it_r it)) = m" "m \<le> skip" and c: "change_ok rest owed m change"
  shows "returns (message_Next R S skip change (it, t) e) (next_ok rest owed m)"
proof -
  note g = ring_shrinks [OF R]
  have ok: "iter_ok it" using assms(3) by (simp add: trans_ok_def)
  obtain res i1 where 1: "message_head R (it, t) = Ret (res, i1)" "iter_ok i1" "length (rest (it_r i1)) \<le> m"
    "\<forall>x. res = Inr x \<longrightarrow> length (rest (it_r i1)) < m"
    using message_head_returns [OF R ok, of t] m(1) unfolding returns_def by blast
  show ?thesis
  proof (cases res)
    case (Inl x)
    with 1 t show ?thesis by (auto simp: message_Next_def intro!: ret_intros next_ok_here)
  next
    case (Inr et)
    obtain evLen tag where et: "et = (evLen, tag)" by (cases et)
    obtain b i2 where 2: "Next R i1 = Ret (b, i2)" "iter_ok i2" "length (rest (it_r i2)) \<le> length (rest (it_r i1))"
      using Next_total [OF R 1(2)] by blast
    have l2: "length (rest (it_r i2)) < m" using 1(4) 2(3) Inr by simp
    obtain gz err i3 where 3: "isGzip S i2 = Ret ((gz, err), i3)" "iter_ok i3" "length (rest (it_r i3)) \<le> length (rest (it_r i2))"
      using isGzip_returns [OF S 2(2)] unfolding returns_def by auto
    obtain ts i4 where 4: "iter_Time R i2 = Ret (ts, i4)" "later rest (\<lambda>r. length (rest r)) i2 i4"
      using iter_Time_returns [OF R 2(2) g] unfolding returns_def by blast
    then have o4: "iter_ok i4" by (simp add: later_def)
    obtain x5 i5 where 5: "NextExpectedType R i4 [MapT] = Ret (x5, i5)" "later rest (\<lambda>r. length (rest r)) i4 i5"
      using NextExpectedType_returns [OF R o4 g] unfolding returns_def by blast
    have l5: "iter_ok i5" "length (rest (it_r i5)) < m" using 4(2) 5(2) l2 by (auto simp: later_def)
    obtain x6 s6 where 6: "handleOptions R skip (i5, t) = Ret (x6, s6)" "options_done rest i5 t (x6, s6)"
      using handleOptions_returns [OF R l5(1), of skip t] l5(2) m(2) unfolding returns_def by auto
    have n6: "next_ok rest owed m ((x6, e'), s6)" for e'
      using 6(2) t l5 by (auto simp: options_done_def next_ok_def trans_ok_def trans_left_def)
    have head: "message_Next R S skip change (it, t) e =
      (if \<not> b then Ret ((Some (errorNoEof t ''time_or_entries'' (iter_cause (it_err i2))), e\<lparr>en_Tag := tag\<rparr>), i2, t)
       else if it_typ i2 = ArrayT then forward_Enter change (it_items i2) (evLen = 3) (i2, t) (e\<lparr>en_Tag := tag\<rparr>)
       else if it_typ i2 = BinT then (case err of Some x \<Rightarrow> Ret ((Some (t_error t ''is_gzip'' (IterErr x)), e\<lparr>en_Tag := tag\<rparr>), i3, t)
         | None \<Rightarrow> if gz then compressed_Enter S change (evLen = 3) (i3, t) (e\<lparr>en_Tag := tag\<rparr>)
             else packed_Enter S change (evLen = 3) (i3, t) (e\<lparr>en_Tag := tag\<rparr>))
       else if it_typ i2 \<noteq> ExtT \<and> it_typ i2 \<noteq> IntT \<and> it_typ i2 \<noteq> UintT
         then Ret ((Some (t_error t ''time_or_entries'' InvalidEntry), e\<lparr>en_Tag := tag\<rparr>), i2, t)
       else (case x5 of Some x \<Rightarrow> Ret ((Some (errorNoEof t ''record'' (IterErr x)), e\<lparr>en_Tag := tag, en_Timestamp := ts\<rparr>), i5, t)
         | None \<Rightarrow> if evLen = 4 then Ret ((x6, e\<lparr>en_Tag := tag, en_Timestamp := ts, en_Record := MainIter\<rparr>), s6)
             else Ret ((None, e\<lparr>en_Tag := tag, en_Timestamp := ts, en_Record := MainIter\<rparr>), i5, t)))"
      using 1(1) Inr et 2(1) 3(1) 4(1) 5(1) 6(1) by (auto simp: message_Next_def Let_def split: option.splits)
    have l: "length (rest (it_r i2)) < m" "length (rest (it_r i3)) < m" "length (rest (it_r i2)) \<le> m" "length (rest (it_r i3)) \<le> m"
      "length (rest (it_r i5)) \<le> m" using l2 3(3) l5 by simp_all
    show ?thesis unfolding head
      by (intro ret_intros forward_Enter_returns [OF c 2(2) t l(1)] compressed_Enter_returns [OF c S 3(2) t l(2)]
        packed_Enter_returns [OF c S 3(2) t l(2)] n6 next_ok_here [where rest = rest, OF t 2(2) l(3)] next_ok_here [where rest = rest, OF t 3(2) l(4)] next_ok_here [where rest = rest, OF t l5(1) l(5)])
  qed
qed

definition to_message_ok :: "('r \<Rightarrow> bytes) \<Rightarrow> ('q \<Rightarrow> nat) \<Rightarrow> nat \<Rightarrow> ('r, 'q) change_fn \<Rightarrow> bool" where
  "to_message_ok rest owed m change \<longleftrightarrow> (\<forall>s e. t_mode (snd s) \<noteq> MessageMode \<longrightarrow> trans_ok s \<longrightarrow> trans_left rest owed s \<le> m \<longrightarrow>
     returns (change MessageMode s e) (next_ok rest owed m))"

lemma forward_Next_returns:
  assumes R: "ring_contract R rest limit" and "trans_ok (it, t)" and t: "t_mode t = ForwardMode"
    and m: "length (rest (it_r it)) \<le> m" and c: "to_message_ok rest owed m change"
  shows "returns (forward_Next R change (it, t) e) (next_ok rest owed m)"
proof -
  note g = ring_shrinks [OF R]
  have ok: "iter_ok it" using assms(2) by (simp add: trans_ok_def)
  obtain x1 i1 where 1: "NextExpectedType R it [ArrayT] = Ret (x1, i1)" "later rest (\<lambda>r. length (rest r)) it i1"
    using NextExpectedType_returns [OF R ok g] unfolding returns_def by blast
  then have o1: "iter_ok i1" by (simp add: later_def)
  obtain x2 e2 i2 where 2: "read_entry R t (fm_tag t) MainIter i1 e = Ret ((x2, e2), i2)" "later rest (\<lambda>r. length (rest r)) i1 i2"
    using read_entry_returns [OF R o1 g] unfolding returns_def by fast
  have "next_ok rest owed m ((y, e'), i1, t)" "next_ok rest owed m ((y, e'), i2, t)" "next_ok rest owed m ((y, e'), i2, t\<lparr>fm_items := k\<rparr>)" for y e' k
    using 1(2) 2(2) t m by (auto simp: next_ok_def trans_ok_def trans_left_def later_def)
  moreover have "returns (change MessageMode (it, t) e) (next_ok rest owed m)"
    using c assms(2) t m by (simp add: to_message_ok_def trans_left_def)
  ultimately show ?thesis using 1(1) 2(1) by (auto simp: forward_Next_def intro!: ret_intros)
qed

lemma packed_Next_returns:
  assumes Q: "ring_contract Q restq limit" and S: "sub_bounds rest Q owed S" and "trans_ok (it, t)" and t: "t_mode t = PackedForwardMode"
    and m: "trans_left rest owed (it, t) \<le> m" and c: "to_message_ok rest owed m change"
  shows "returns (packed_Next Q change (it, t) e) (next_ok rest owed m)"
proof -
  have g: "shrinks Q owed" using S by (simp add: sub_bounds_def)
  obtain iter where p: "pm_iter t = Some iter" "iter_ok iter" and ok: "iter_ok it"
    using assms(3) t by (auto simp: trans_ok_def opt_iter_ok_def split: option.splits)
  obtain x1 i1 where 1: "NextExpectedType Q iter [ArrayT] = Ret (x1, i1)" "later restq owed iter i1"
    using NextExpectedType_returns [OF Q p(2) g] unfolding returns_def by blast
  then have o1: "iter_ok i1" by (simp add: later_def)
  let ?t = "t\<lparr>pm_iter := Some i1\<rparr>"
  obtain x2 e2 i2 where 2: "read_entry Q ?t (pm_tag ?t) BatchIter i1 e = Ret ((x2, e2), i2)" "later restq owed i1 i2"
    using read_entry_returns [OF Q o1 g] unfolding returns_def by fast
  have "owed (it_r iter) \<le> m" using m t p by (simp add: trans_left_def)
  then have n: "next_ok rest owed m ((y, e'), it, ?t)" "next_ok rest owed m ((y, e'), it, t\<lparr>pm_iter := Some i2\<rparr>)"
      "trans_ok (it, ?t)" "trans_left rest owed (it, ?t) \<le> m" for y e'
    using 1(2) 2(2) t ok by (auto simp: next_ok_def trans_ok_def trans_left_def later_def opt_iter_ok_def)
  moreover have "returns (change MessageMode (it, ?t) e) (next_ok rest owed m)"
    using c n(3,4) t by (simp add: to_message_ok_def)
  ultimately show ?thesis using p(1) 1(1) 2(1) by (auto simp: packed_Next_def Let_def intro!: ret_intros)
qed

lemma compressed_Next_returns:
  assumes Q: "ring_contract Q restq limit" and S: "sub_bounds rest Q owed S" and "trans_ok (it, t)" and t: "t_mode t = CompressedPackedForwardMode"
    and m: "trans_left rest owed (it, t) \<le> m" and c: "to_message_ok rest owed m change"
  shows "returns (compressed_Next Q change (it, t) e) (next_ok rest owed m)"
proof -
  have g: "shrinks Q owed" using S by (simp add: sub_bounds_def)
  obtain iter where p: "cm_iter t = Some iter" "iter_ok iter" and ok: "iter_ok it"
    using assms(3) t by (auto simp: trans_ok_def opt_iter_ok_def split: option.splits)
  obtain x1 i1 where 1: "NextExpectedType Q iter [ArrayT] = Ret (x1, i1)" "later restq owed iter i1"
    using NextExpectedType_returns [OF Q p(2) g] unfolding returns_def by blast
  then have o1: "iter_ok i1" by (simp add: later_def)
  let ?t = "t\<lparr>cm_iter := Some i1\<rparr>"
  obtain x2 e2 i2 where 2: "read_entry Q ?t (cm_tag ?t) BatchIter i1 e = Ret ((x2, e2), i2)" "later restq owed i1 i2"
    using read_entry_returns [OF Q o1 g] unfolding returns_def by fast
  have "owed (it_r iter) \<le> m" using m t p by (simp add: trans_left_def)
  then have n: "next_ok rest owed m ((y, e'), it, ?t)" "next_ok rest owed m ((y, e'), it, t\<lparr>cm_iter := Some i2\<rparr>)"
      "trans_ok (it, ?t)" "trans_left rest owed (it, ?t) \<le> m" for y e'
    using 1(2) 2(2) t ok by (auto simp: next_ok_def trans_ok_def trans_left_def later_def opt_iter_ok_def)
  moreover have "returns (change MessageMode (it, ?t) e) (next_ok rest owed m)"
    using c n(3,4) t by (simp add: to_message_ok_def)
  ultimately show ?thesis using p(1) 1(1) 2(1) by (auto simp: compressed_Next_def Let_def intro!: ret_intros)
qed

text \<open>Leaving a mode for the message mode: the connection goes back to the main iterator.\<close>

lemma Leave_returns:
  assumes R: "ring_contract R rest limit" and S: "sub_bounds rest Q owed S" and ok: "trans_ok (it, t)"
    and m: "trans_left rest owed (it, t) \<le> m" "m \<le> skip"
  shows "returns (Leave R S skip (it, t)) (\<lambda>(err, it', t'). iter_ok it' \<and> length (rest (it_r it')) \<le> m \<and>
    trans_left rest owed (it', t') \<le> m)"
proof -
  have opt: "returns (if ho then handleOptions R skip (it1, t1) else Ret (None, it1, t1)) (\<lambda>(err, it', t'). iter_ok it' \<and>
      length (rest (it_r it')) \<le> m \<and> trans_left rest owed (it', t') \<le> m)"
    if "iter_ok it1" "length (rest (it_r it1)) \<le> m" "t_mode t1 = MessageMode \<or> t_mode t1 = ForwardMode \<or>
      t_mode t1 = PackedForwardMode \<and> pm_iter t1 = None \<or> t_mode t1 = CompressedPackedForwardMode \<and> cm_iter t1 = None" for it1 t1 ho
  proof -
    have l: "length (rest (it_r it1)) \<le> skip" using that(2) m(2) by simp
    have "returns (handleOptions R skip (it1, t1)) (\<lambda>(err, it', t'). iter_ok it' \<and>
        length (rest (it_r it')) \<le> m \<and> trans_left rest owed (it', t') \<le> m)"
      by (rule returns_mono [OF handleOptions_returns [OF R that(1) l, of t1]])
        (use that(2,3) in \<open>auto simp: options_done_def trans_left_def\<close>)
    moreover have "trans_left rest owed (it1, t1) \<le> m" using that by (auto simp: trans_left_def)
    ultimately show ?thesis using that by (auto intro!: ret_intros)
  qed
  have u: "length (rest (Underlying S q)) \<le> owed q" for q using S by (simp add: sub_bounds_def)
  show ?thesis
  proof (cases "t_mode t")
    case MessageMode
    then show ?thesis using ok m by (simp add: Leave_def returns_def trans_ok_def trans_left_def)
  next
    case ForwardMode
    then show ?thesis using ok m opt [of it t "fm_hasOptions t"] by (simp add: Leave_def trans_ok_def trans_left_def)
  next
    case PackedForwardMode
    then obtain i where "pm_iter t = Some i" "iter_ok it" using ok by (auto simp: trans_ok_def opt_iter_ok_def split: option.splits)
    with PackedForwardMode m u [of "it_r i"] opt [of "it\<lparr>it_r := Underlying S (it_r i)\<rparr>" "t\<lparr>pm_iter := None\<rparr>" "pm_hasOptions t"]
    show ?thesis by (simp add: Leave_def batch_Leave_def trans_left_def iter_ok_def Let_def)
  next
    case CompressedPackedForwardMode
    then obtain i where "cm_iter t = Some i" "iter_ok it" using ok by (auto simp: trans_ok_def opt_iter_ok_def split: option.splits)
    with CompressedPackedForwardMode m u [of "it_r i"] opt [of "it\<lparr>it_r := Underlying S (it_r i)\<rparr>" "t\<lparr>cm_iter := None\<rparr>" "cm_hasOptions t"]
    show ?thesis by (simp add: Leave_def batch_Leave_def trans_left_def iter_ok_def Let_def)
  qed
qed

definition depth :: "mode \<Rightarrow> nat \<Rightarrow> nat" where
  "depth mode m = (if mode = MessageMode then 2 * m + 1 else 2 * m + 2)"

lemma t_Next_returns:
  assumes R: "ring_contract R rest limit" and Q: "ring_contract Q restq limitq" and S: "sub_bounds rest Q owed S"
  shows "trans_ok s \<Longrightarrow> trans_left rest owed s \<le> m \<Longrightarrow> m \<le> skip \<Longrightarrow> depth (t_mode (snd s)) m \<le> fuel \<Longrightarrow>
    returns (t_Next R Q S skip fuel s e) (next_ok rest owed m)"
proof (induction fuel arbitrary: s m e)
  case 0
  then show ?case by (simp add: depth_def split: if_splits)
next
  case (Suc fuel)
  obtain it t where s: "s = (it, t)" by (cases s)
  let ?change = "changeMode R S skip (t_Next R Q S skip fuel)"
  have mono: "next_ok rest owed k res \<Longrightarrow> k \<le> m \<Longrightarrow> next_ok rest owed m res" for k res
    by (auto simp: next_ok_def)
  show ?case
  proof (cases "t_mode t = MessageMode")
    case True
    note MessageMode = this
    let ?m = "length (rest (it_r it))"
    have "?m \<le> m" using Suc.prems(2) s MessageMode by (simp add: trans_left_def)
    have c: "change_ok rest owed ?m ?change"
      unfolding change_ok_def
    proof (intro allI impI)
      fix mode it' t' e' assume *: "mode \<noteq> t_mode t'" "trans_ok (it', t'\<lparr>t_mode := mode\<rparr>)" "t_mode t' = MessageMode"
        "trans_left rest owed (it', t'\<lparr>t_mode := mode\<rparr>) < ?m"
      have "returns (t_Next R Q S skip fuel (it', t'\<lparr>t_mode := mode\<rparr>) e') (next_ok rest owed (?m - 1))"
        by (rule Suc.IH) (use * Suc.prems \<open>?m \<le> m\<close> s MessageMode in \<open>auto simp: depth_def\<close>)
      then have "returns (t_Next R Q S skip fuel (it', t'\<lparr>t_mode := mode\<rparr>) e') (next_ok rest owed ?m)"
        by (rule returns_mono) (auto simp: next_ok_def)
      with * show "returns (?change mode (it', t') e') (next_ok rest owed ?m)" by (simp add: changeMode_def Leave_def)
    qed
    have "returns (message_Next R S skip ?change (it, t) e) (next_ok rest owed ?m)"
      by (rule message_Next_returns [OF R S _ MessageMode _ _ c]) (use Suc.prems s \<open>?m \<le> m\<close> in auto)
    then have "returns (message_Next R S skip ?change (it, t) e) (next_ok rest owed m)"
      by (rule returns_mono) (use mono \<open>?m \<le> m\<close> in blast)
    with s MessageMode show ?thesis by simp
  next
    case False
    have c: "to_message_ok rest owed m ?change"
      unfolding to_message_ok_def
    proof (intro allI impI)
      fix s' :: "('a, 'b) tstate" and e' assume *: "t_mode (snd s') \<noteq> MessageMode" "trans_ok s'" "trans_left rest owed s' \<le> m"
      obtain it1 t1 where s': "s' = (it1, t1)" by (cases s')
      obtain err it2 t2 where l: "Leave R S skip s' = Ret (err, it2, t2)" "iter_ok it2" "length (rest (it_r it2)) \<le> m" "trans_left rest owed (it2, t2) \<le> m"
        using Leave_returns [OF R S, of it1 t1 m skip] * s' Suc.prems(3) unfolding returns_def by auto
      have "returns (t_Next R Q S skip fuel (it2, t2\<lparr>t_mode := MessageMode\<rparr>) e') (next_ok rest owed m)"
        by (rule Suc.IH) (use l Suc.prems False s in \<open>auto simp: depth_def trans_ok_def trans_left_def\<close>)
      with * l s' show "returns (?change MessageMode s' e') (next_ok rest owed m)"
        by (auto simp: changeMode_def next_ok_def intro!: ret_intros)
    qed
    show ?thesis
    proof (cases "t_mode t")
      case ForwardMode
      with s show ?thesis using forward_Next_returns [OF R, of it t m owed ?change e] Suc.prems c by (simp add: trans_left_def)
    next
      case PackedForwardMode
      with s show ?thesis using packed_Next_returns [OF Q S, of it t m ?change e] Suc.prems c by simp
    next
      case CompressedPackedForwardMode
      with s show ?thesis using compressed_Next_returns [OF Q S, of it t m ?change e] Suc.prems c by simp
    qed (use False in simp)
  qed
qed

subsection \<open>Readers on lists\<close>

text \<open>
  The connection is a list; the reader of a batch is the batch with what comes after it; decompression
  drops the magic number.
\<close>

definition gzip_magic :: "bytes \<Rightarrow> bool" where
  "gzip_magic z \<longleftrightarrow> take 3 z = [0x1f, 0x8b, 8]"

definition pair_ring :: "int \<Rightarrow> (bytes \<times> bytes) ring" where
  "pair_ring limit =
     \<lparr> ReadByte = (\<lambda>q. let (res, r) = ReadByte (list_ring limit) (fst q) in (res, (r, snd q))),
       ReadBytes = (\<lambda>q n. let (res, r) = ReadBytes (list_ring limit) (fst q) n in (res, (r, snd q))),
       Discard = (\<lambda>q n. (Discard (list_ring limit) (fst q) n, snd q)) \<rparr>"

definition list_unzip :: "bytes \<Rightarrow> bytes option" where
  "list_unzip z = (if gzip_magic z then Some (drop 3 z) else None)"

definition list_sub :: "(bytes \<Rightarrow> bytes option) \<Rightarrow> (bytes, bytes \<times> bytes) sub" where
  "list_sub uz =
     \<lparr> Peek3 = (\<lambda>r n. if 3 \<le> n \<and> 3 \<le> len r then ((take 3 r, None), r) else (([], Some EOF), r)),
       Limited = (\<lambda>r n. (take (nat n) r, drop (nat n) r)),
       Gunzip = (\<lambda>r n. case uz (take (nat n) r) of None \<Rightarrow> (Inl [], r) | Some d \<Rightarrow> (Inr (d, drop (nat n) r), r)),
       Underlying = snd \<rparr>"

lemma pair_ring_contract: "9 \<le> limit \<Longrightarrow> ring_contract (pair_ring limit) fst limit"
  by (auto simp: ring_contract_def pair_ring_def list_ring_def split: list.splits if_splits)

lemma pair_ring_shrinks: "shrinks (pair_ring limit) (\<lambda>q. length (fst q) + length (snd q))"
  by (auto simp: shrinks_def pair_ring_def list_ring_def split: prod.split list.split)

lemma list_sub_bounds: "sub_bounds (\<lambda>r. r) (pair_ring limit) (\<lambda>q. length (fst q) + length (snd q)) (list_sub list_unzip)"
  unfolding sub_bounds_def
  by (auto simp: pair_ring_shrinks list_sub_def list_unzip_def split: if_splits option.splits)

subsection \<open>Properties\<close>

text \<open>
  After an error the invariant may be gone: the options of a packed batch are read when its iterator has already been
  given back, so when they are malformed the mode stays without an iterator, and the next call of \<open>Next\<close> dereferences nil.
\<close>

theorem Next_after_bad_options_panics:
  assumes "t_mode t = PackedForwardMode" "pm_hasOptions t" "pm_iter t = Some i" and "NextExpectedType Q i [ArrayT] = Ret (Some EOF, i1)"
    and "NextExpectedType R (it\<lparr>it_r := Underlying S (it_r i1)\<rparr>) [MapT] = Ret (Some x, it2)"
  shows "\<exists>err s'. t_Next R Q S skip (Suc fuel) (it, t) e = Ret ((Some err, e), s') \<and> (\<forall>e'. t_Next R Q S skip (Suc fuel) s' e' = Panic)"
  using assms by (simp add: packed_Next_def changeMode_def Leave_def batch_Leave_def handleOptions_def Let_def)

text \<open>
  C9. A call of \<open>Next\<close> returns. From any state of the four modes that satisfies their invariant (\<open>trans_ok\<close>), whatever bytes a peer sends
  and whatever the decompressor makes of them, a call of \<open>Next\<close> neither panics nor hangs, it never owes the connection more bytes than
  before, and when it returns no error the invariant holds again. After an error it need not
  (\<open>Next_after_bad_options_panics\<close>): a session must not call \<open>Next\<close> again. The number of nested mode changes is at most
  twice the number of bytes still to come, plus two.
\<close>

theorem transport_returns:
  assumes "ring_contract R rest limit" and "ring_contract Q restq limitq" and "sub_bounds rest Q owed S"
    and "trans_ok s" and "trans_left rest owed s \<le> skip" and "2 * trans_left rest owed s + 2 \<le> fuel"
  shows "\<exists>err e' s'. t_Next R Q S skip fuel s e = Ret ((err, e'), s') \<and> trans_left rest owed s' \<le> trans_left rest owed s \<and>
    (err = None \<longrightarrow> trans_ok s')"
proof -
  have "depth (t_mode (snd s)) (trans_left rest owed s) \<le> fuel" using assms(6) by (simp add: depth_def)
  from t_Next_returns [OF assms(1-4) order_refl assms(5) this, of e] show ?thesis
    unfolding returns_def next_ok_def by auto
qed

lemma transport_returns_witness:
  "\<exists>err e' s'. t_Next (list_ring 9) (pair_ring 9) (list_sub list_unzip) 7 16 (NewIterator [0x93, 0xa1, 0x74, 0xc4, 0x02, 0x93, 0xff], Init []) empty_Entry =
     Ret ((err, e'), s') \<and> (err = None \<longrightarrow> trans_ok s')"
proof -
  let ?s = "(NewIterator [0x93, 0xa1, 0x74, 0xc4, 0x02, 0x93, 0xff], Init []) :: (bytes, bytes \<times> bytes) tstate"
  have "trans_ok ?s" "trans_left (\<lambda>r. r) (\<lambda>q. length (fst q) + length (snd q)) ?s = 7"
    by (simp_all add: trans_ok_def trans_left_def Init_def iter_ok_NewIterator)
  with transport_returns [OF list_ring_contract pair_ring_contract list_sub_bounds, of 9 9 ?s 7 16 empty_Entry] show ?thesis by auto
qed

end
