(* ===== verification/Delivery.thy ===== *)
theory Delivery
  imports Transport
begin

text \<open>
  What the transport phase of \<open>Transport\<close> delivers. The messages of the Forward protocol (\<open>fmsg\<close>) and
  their bytes (\<open>fmsg_wire\<close>) are stated on their own; \<open>tenv\<close> gathers what the transport phase relies on
  of the ring buffers and of gzip. \<open>standing\<close> relates a state of the four modes to the entries and
  acknowledgements still to come, \<open>yields\<close> says what one call of \<open>Next\<close> does there, and the property is
  their composition over a whole session.
\<close>

subsection \<open>What the operations of the iterator leave alone\<close>

text \<open>\<open>keeps R h\<close>: no operation of the ring changes \<open>h\<close> of the reader.\<close>

definition keeps :: "'r ring \<Rightarrow> ('r \<Rightarrow> 'h) \<Rightarrow> bool" where
  "keeps R h \<longleftrightarrow> (\<forall>r. h (snd (ReadByte R r)) = h r) \<and> (\<forall>r n. 0 \<le> n \<longrightarrow> h (snd (ReadBytes R r n)) = h r) \<and>
     (\<forall>r n. 0 \<le> n \<longrightarrow> h (Discard R r n) = h r)"

lemma keeps_unit: "keeps R (\<lambda>_. ())"
  by (simp add: keeps_def)

lemma Next_keeps:
  assumes "keeps R h" and "Next R it = Ret (b, it')"
  shows "h (it_r it') = h (it_r it)"
proof -
  obtain c e r1 where r1: "ReadByte R (it_r it) = ((c, e), r1)" by (metis prod.collapse)
  then have 1: "h r1 = h (it_r it)" using assms(1) by (metis keeps_def snd_conv)
  obtain t k v where t: "Get c = (t, k, v)" by (metis prod_cases3)
  obtain buf e2 r2 where r2: "ReadBytes R r1 k = ((buf, e2), r2)" by (metis prod.collapse)
  then have "h r2 = h r1" using assms(1) Get_len_nonneg [OF t] by (metis keeps_def snd_conv)
  with 1 assms(2) r1 t r2 show ?thesis by (auto simp: Next_def Let_def split: if_splits bind_split_asm)
qed


lemma Next_token:
  assumes R: "ring_contract R rest limit" and h: "keeps R h" and "header c lb t l k" and "rest (it_r it) = c # lb @ xs"
  obtains r where "Next R it = Ret (True, token it c t l r)" "rest r = xs" "h r = h (it_r it)"
proof -
  obtain r where "Next R it = Ret (True, token it c t l r)" "rest r = xs" by (rule Next_header [OF R assms(4,3)])
  with Next_keeps [OF h this(1)] show thesis by (intro that [of r]) simp_all
qed

lemma expected_token:
  assumes R: "ring_contract R rest limit" and h: "keeps R h" and "header c lb t l k" and "rest (it_r it) = c # lb @ xs" and "t \<in> set ts"
  obtains r where "NextExpectedType R it ts = Ret (None, token it c t l r)" "rest r = xs" "h r = h (it_r it)"
proof -
  obtain r where "Next R it = Ret (True, token it c t l r)" "rest r = xs" "h r = h (it_r it)"
    by (rule Next_token [OF R h assms(3,4)])
  with assms(5) show thesis by (intro that [of r]) (simp_all add: NextExpectedType_token)
qed

lemma raw_token:
  assumes R: "ring_contract R rest limit" and h: "keeps R h" and "rest r = body @ xs" "len body \<le> limit" "t \<noteq> ArrayT" "t \<noteq> MapT"
  obtains r2 where "raw R (token it c t (len body) r) = ((body, True), (token it c t (len body) r)\<lparr>it_err := None, it_r := r2\<rparr>)"
    "rest r2 = xs" "h r2 = h r"
proof -
  let ?it = "token it c t (len body) r"
  obtain r2 where r2: "raw R ?it = ((body, True), ?it\<lparr>it_err := None, it_r := r2\<rparr>)" "rest r2 = xs"
    by (rule raw_body [OF R, of ?it body xs]) (use assms in simp_all)
  then have "it_r (snd (raw R ?it)) = r2" by simp
  then have "snd (ReadBytes R r (len body)) = r2" using assms(5,6) by (simp add: raw_def split: prod.splits)
  then have "h r2 = h r" using h by (auto simp: keeps_def)
  with r2 show thesis by (rule that)
qed

lemma read_Str:
  assumes R: "ring_contract R rest limit" and h: "keeps R h" and "wire (MStr s) bs" "rest (it_r it) = bs @ xs" "len s \<le> limit"
  obtains it1 it2 where "Next R it = Ret (True, it1)" "NextExpectedType R it [StrT] = Ret (None, it1)" "it_typ it1 = StrT" "it_length it1 = len s"
    "iter_Str R it1 = (s, it2)" "rest (it_r it2) = xs" "h (it_r it2) = h (it_r it)"
proof -
  obtain c lb k where bs: "bs = c # lb @ s" "header c lb StrT (len s) k" using assms(3) by (auto elim: wire_E)
  with assms(4) have r0: "rest (it_r it) = c # lb @ (s @ xs)" by simp
  obtain r where n: "Next R it = Ret (True, token it c StrT (len s) r)" "rest r = s @ xs" "h r = h (it_r it)"
    by (rule Next_token [OF R h bs(2) r0])
  obtain r2 where "raw R (token it c StrT (len s) r) = ((s, True), (token it c StrT (len s) r)\<lparr>it_err := None, it_r := r2\<rparr>)"
    "rest r2 = xs" "h r2 = h r"
    by (rule raw_token [OF R h n(2) assms(5), of StrT it c]) simp_all
  with n show thesis by (intro that [of "token it c StrT (len s) r" "(token it c StrT (len s) r)\<lparr>it_err := None, it_r := r2\<rparr>"]) (simp_all add: iter_Str_def NextExpectedType_token)
qed

text \<open>The bytes of a time, in any of the forms that an entry may have.\<close>

definition time_wire :: "go_time \<Rightarrow> bytes \<Rightarrow> bool" where
  "time_wire t bs \<longleftrightarrow> (\<exists>c lb body ty k. bs = c # lb @ body \<and> header c lb ty (len body) k \<and> ty \<in> {ExtT, IntT, UintT} \<and>
     readTimeUnsafe c body = Ret t \<and> len body \<le> 9)"

lemma AppendTimestamp_time_wire: "msg_ok (MTime t f) \<Longrightarrow> time_wire t (AppendTimestamp [] t f)"
proof -
  assume ok: "msg_ok (MTime t f)"
  obtain c lb body k where "encode (MTime t f) = c # lb @ body" "header c lb (msg_type (MTime t f)) (len body) k" "decodes (MTime t f) c body"
    by (rule header_scalar [OF ok]) simp_all
  then show ?thesis unfolding time_wire_def by (auto simp del: msg_ok.simps)
qed

lemma read_Time:
  assumes R: "ring_contract R rest limit" and h: "keeps R h" and "time_wire t bs" "rest (it_r it) = bs @ xs"
  obtains it1 it2 where "Next R it = Ret (True, it1)" "it_typ it1 \<in> {ExtT, IntT, UintT}" "iter_Time R it1 = Ret (t, it2)"
    "rest (it_r it2) = xs" "h (it_r it2) = h (it_r it)"
proof -
  obtain c lb body ty k where b: "bs = c # lb @ body" "header c lb ty (len body) k" "ty \<in> {ExtT, IntT, UintT}"
    "readTimeUnsafe c body = Ret t" "len body \<le> 9" using assms(3) unfolding time_wire_def by blast
  with assms(4) have r0: "rest (it_r it) = c # lb @ (body @ xs)" by simp
  obtain r where n: "Next R it = Ret (True, token it c ty (len body) r)" "rest r = body @ xs" "h r = h (it_r it)"
    by (rule Next_token [OF R h b(2) r0])
  obtain r2 where "raw R (token it c ty (len body) r) = ((body, True), (token it c ty (len body) r)\<lparr>it_err := None, it_r := r2\<rparr>)"
    "rest r2 = xs" "h r2 = h r"
    by (rule raw_token [OF R h n(2), of ty it c]) (use b ring_limit [OF R] in auto)
  with n b show thesis by (intro that [of "token it c ty (len body) r" "(token it c ty (len body) r)\<lparr>it_err := None, it_r := r2\<rparr>"]) (simp_all add: iter_Time_def)
qed

lemma wire_MMap_head:
  assumes "wire (MMap kvs) bs"
  obtains c lb k body where "bs = c # lb @ body" "header c lb MapT (len kvs) k"
  using assms by (auto elim: wire_MapE)

lemma read_entry_event:
  assumes Q: "ring_contract Q restq limit" and h: "keeps Q h" and "time_wire t sb" "wire (MMap kvs) rb" "restq (it_r iter) = sb @ rb @ xs"
    and "it_items iter = 2"
  obtains iter2 i0 where "read_entry Q tt tag src iter e =
      Ret ((None, e\<lparr>en_Tag := tag, en_Timestamp := t, en_Record := src\<rparr>), iter2)" "Next Q i0 = Ret (True, iter2)" "restq (it_r i0) = rb @ xs"
    "h (it_r iter2) = h (it_r iter)"
proof -
  obtain i1 i2 where 1: "Next Q iter = Ret (True, i1)" "it_typ i1 \<in> {ExtT, IntT, UintT}" "iter_Time Q i1 = Ret (t, i2)"
    "restq (it_r i2) = rb @ xs" "h (it_r i2) = h (it_r iter)"
    by (rule read_Time [OF Q h assms(3,5)])
  obtain c lb k body where b: "rb = c # lb @ body" "header c lb MapT (len kvs) k" by (rule wire_MMap_head [OF assms(4)])
  with 1 have r2: "restq (it_r i2) = c # lb @ (body @ xs)" by simp
  obtain r where n: "Next Q i2 = Ret (True, token i2 c MapT (len kvs) r)" "restq r = body @ xs" "h r = h (it_r i2)"
    by (rule Next_token [OF Q h b(2) r2])
  have "read_entry Q tt tag src iter e = Ret ((None, e\<lparr>en_Tag := tag, en_Timestamp := t, en_Record := src\<rparr>), token i2 c MapT (len kvs) r)"
    using 1(1-3) n(1) assms(6) by (simp add: read_entry_def NextExpectedType_def)
  from this n(1) 1(4) show thesis by (rule that) (use n(3) 1(5) in simp)
qed

subsection \<open>Options\<close>

abbreviation chunk_key :: bytes where
  "chunk_key \<equiv> text_bytes ''chunk''"

text \<open>The chunks that the options of a message ask to acknowledge, in order.\<close>

fun chunks :: "(bytes \<times> msg) list \<Rightarrow> bytes list" where
  "chunks [] = []"
| "chunks ((k, v) # opts) = (case v of MStr s \<Rightarrow> if k = chunk_key then [s] else [] | _ \<Rightarrow> []) @ chunks opts"

definition option_ok :: "int \<Rightarrow> bytes \<times> msg \<Rightarrow> bool" where
  "option_ok limit kv \<longleftrightarrow> len (fst kv) \<le> limit \<and> (fst kv = chunk_key \<longrightarrow> (\<exists>s. snd kv = MStr s \<and> len s \<le> limit))"

abbreviation options_msg :: "(bytes \<times> msg) list \<Rightarrow> msg" where
  "options_msg opts \<equiv> MMap (map (\<lambda>kv. (MStr (fst kv), snd kv)) opts)"

lemma options_loop_acks:
  assumes R: "ring_contract R rest limit"
  shows "list_all2 (\<lambda>kv b. wire (MStr (fst kv)) (fst b) \<and> wire (snd kv) (snd b)) opts obs \<Longrightarrow> \<forall>kv \<in> set opts. option_ok limit kv \<Longrightarrow>
    rest (it_r it) = concat (map (\<lambda>b. fst b @ snd b) obs) @ xs \<Longrightarrow> length (rest (it_r it)) \<le> skip \<Longrightarrow> t_ack_results t = [] \<Longrightarrow>
    \<exists>it'. options_loop R skip (length opts) it t = Ret (None, it', t\<lparr>t_acks := t_acks t @ chunks opts\<rparr>) \<and> rest (it_r it') = xs"
proof (induction opts obs arbitrary: it t rule: list_all2_induct)
  case (Cons kv opts b obs)
  obtain k v where kv: "kv = (k, v)" by (cases kv)
  let ?xs = "concat (map (\<lambda>b. fst b @ snd b) obs) @ xs"
  have w: "wire (MStr k) (fst b)" "wire v (snd b)" and r: "rest (it_r it) = fst b @ snd b @ ?xs" and k: "len k \<le> limit"
    and v: "k = chunk_key \<Longrightarrow> \<exists>s. v = MStr s \<and> len s \<le> limit"
    using Cons.hyps(1) Cons.prems kv by (auto simp: option_ok_def)
  obtain i1 i2 where 1: "NextExpectedType R it [StrT] = Ret (None, i1)" "iter_Str R i1 = (k, i2)" "rest (it_r i2) = snd b @ ?xs"
    by (rule read_Str [OF R keeps_unit w(1) r k]) blast
  show ?case
  proof (cases "k = chunk_key")
    case True
    then obtain s where s: "v = MStr s" "len s \<le> limit" using v by blast
    obtain i3 i4 where 2: "Next R i2 = Ret (True, i3)" "iter_Str R i3 = (s, i4)" "rest (it_r i4) = ?xs"
      by (rule read_Str [OF R keeps_unit w(2) [unfolded s(1)] 1(3) s(2)]) blast
    let ?t = "t\<lparr>t_acks := t_acks t @ [s]\<rparr>"
    have "length (rest (it_r i4)) \<le> skip" using Cons.prems(3) r 2(3) by simp
    with Cons.IH [of i4 ?t] 2(3) Cons.prems obtain it' where
      "options_loop R skip (length opts) i4 ?t = Ret (None, it', ?t\<lparr>t_acks := t_acks ?t @ chunks opts\<rparr>)" "rest (it_r it') = xs" by auto
    with 1 2 True s(1) kv Cons.prems(4) show ?thesis by (simp add: t_ack_def Let_def)
  next
    case False
    have "length (rest (it_r i2)) \<le> skip" using Cons.prems(3) r 1(3) by simp
    then obtain i3 i4 where 2: "Next R i2 = Ret (True, i3)" "Skip R skip i3 = Ret i4" "rest (it_r i4) = ?xs"
      using wire_skips [OF R w(2)] 1(3) unfolding skips_def by blast
    have "length (rest (it_r i4)) \<le> skip" using Cons.prems(3) r 2(3) by simp
    with Cons.IH [of i4 t] 2(3) Cons.prems obtain it' where
      "options_loop R skip (length opts) i4 t = Ret (None, it', t\<lparr>t_acks := t_acks t @ chunks opts\<rparr>)" "rest (it_r it') = xs" by auto
    with 1 2 False kv show ?thesis by (cases v) auto
  qed
qed simp

lemma handleOptions_acks:
  assumes R: "ring_contract R rest limit" and "wire (options_msg opts) ob" "\<forall>kv \<in> set opts. option_ok limit kv"
    and "rest (it_r it) = ob @ xs" "length (rest (it_r it)) \<le> skip" "t_ack_results t = []"
  obtains it' where "handleOptions R skip (it, t) = Ret (None, it', t\<lparr>t_acks := t_acks t @ chunks opts\<rparr>)" "rest (it_r it') = xs"
proof -
  from assms(2) obtain c lb k obs where b: "ob = c # lb @ concat (map (\<lambda>b. fst b @ snd b) obs)" "header c lb MapT (len opts) k"
    "list_all2 (\<lambda>kv b. wire (MStr (fst kv)) (fst b) \<and> wire (snd kv) (snd b)) opts obs"
    by (auto elim!: wire_MapE simp: list_all2_map1)
  with assms(4) have r0: "rest (it_r it) = c # lb @ (concat (map (\<lambda>b. fst b @ snd b) obs) @ xs)" by simp
  obtain r where n: "NextExpectedType R it [MapT] = Ret (None, token it c MapT (len opts) r)" "rest r = concat (map (\<lambda>b. fst b @ snd b) obs) @ xs"
    by (rule expected_token [OF R keeps_unit b(2) r0, of "[MapT]"]) auto
  have "length (rest r) \<le> skip" using assms(5) r0 n(2) by simp
  with options_loop_acks [OF R b(3) assms(3), of "token it c MapT (len opts) r" xs skip t] n(2) assms(6) obtain it' where
    "options_loop R skip (length opts) (token it c MapT (len opts) r) t = Ret (None, it', t\<lparr>t_acks := t_acks t @ chunks opts\<rparr>)" "rest (it_r it') = xs"
    by auto
  with n(1) show thesis by (intro that [of it']) (simp_all add: handleOptions_def)
qed

subsection \<open>Messages of the Forward protocol and their entries\<close>

type_synonym event = "go_time \<times> (msg \<times> msg) list"

datatype fmsg =
    Single bytes event
  | Forwarded bytes "event list" "(bytes \<times> msg) list option"
  | Packed bytes "event list" "(bytes \<times> msg) list option"
  | Compressed bytes "event list" "(bytes \<times> msg) list option"

fun entries_of :: "fmsg \<Rightarrow> (bytes \<times> event) list" where
  "entries_of (Single tag ev) = [(tag, ev)]"
| "entries_of (Forwarded tag evs opts) = map (Pair tag) evs"
| "entries_of (Packed tag evs opts) = map (Pair tag) evs"
| "entries_of (Compressed tag evs opts) = map (Pair tag) evs"

definition chunks_opt :: "(bytes \<times> msg) list option \<Rightarrow> bytes list" where
  "chunks_opt opts = (case opts of None \<Rightarrow> [] | Some opts \<Rightarrow> chunks opts)"

fun acks_of :: "fmsg \<Rightarrow> bytes list" where
  "acks_of (Single tag ev) = []"
| "acks_of (Forwarded tag evs opts) = chunks_opt opts"
| "acks_of (Packed tag evs opts) = chunks_opt opts"
| "acks_of (Compressed tag evs opts) = chunks_opt opts"

text \<open>An event is [time, record], its time and its record in any of their encodings.\<close>

definition event_wire :: "event \<Rightarrow> bytes \<Rightarrow> bool" where
  "event_wire ev bs \<longleftrightarrow> (\<exists>c lb k sb rb. bs = c # lb @ sb @ rb \<and> header c lb ArrayT 2 k \<and> time_wire (fst ev) sb \<and> wire (MMap (snd ev)) rb)"

definition options_wire :: "int \<Rightarrow> (bytes \<times> msg) list option \<Rightarrow> bytes \<Rightarrow> bool" where
  "options_wire limit opts ob \<longleftrightarrow> (case opts of None \<Rightarrow> ob = []
     | Some opts \<Rightarrow> wire (options_msg opts) ob \<and> (\<forall>kv \<in> set opts. option_ok limit kv))"

abbreviation items_of :: "(bytes \<times> msg) list option \<Rightarrow> int" where
  "items_of opts \<equiv> (if opts = None then 2 else 3)"

definition head_wire :: "int \<Rightarrow> int \<Rightarrow> bytes \<Rightarrow> bytes \<Rightarrow> bool" where
  "head_wire limit n tag bs \<longleftrightarrow> (\<exists>c lb k tb. bs = c # lb @ tb \<and> header c lb ArrayT n k \<and> wire (MStr tag) tb \<and>
     1 \<le> len tag \<and> len tag \<le> 64 \<and> len tag \<le> limit)"

text \<open>
  \<open>fmsg_wire limit unzip m bs\<close>: the bytes \<open>bs\<close> are the message \<open>m\<close>; \<open>unzip\<close> is decompression. A packed
  batch has at least one entry.
\<close>

fun fmsg_wire :: "int \<Rightarrow> (bytes \<Rightarrow> bytes option) \<Rightarrow> fmsg \<Rightarrow> bytes \<Rightarrow> bool" where
  "fmsg_wire limit unzip (Single tag ev) bs \<longleftrightarrow>
     (\<exists>hb sb rb. bs = hb @ sb @ rb \<and> head_wire limit 3 tag hb \<and> time_wire (fst ev) sb \<and> wire (MMap (snd ev)) rb)"
| "fmsg_wire limit unzip (Forwarded tag evs opts) bs \<longleftrightarrow>
     (\<exists>hb c lb k ebs ob. bs = hb @ (c # lb @ concat ebs) @ ob \<and> head_wire limit (items_of opts) tag hb \<and> header c lb ArrayT (len evs) k \<and>
        list_all2 event_wire evs ebs \<and> options_wire limit opts ob)"
| "fmsg_wire limit unzip (Packed tag evs opts) bs \<longleftrightarrow>
     (\<exists>hb zb ebs ob. bs = hb @ zb @ ob \<and> head_wire limit (items_of opts) tag hb \<and> wire (MBin (concat ebs)) zb \<and> evs \<noteq> [] \<and>
        list_all2 event_wire evs ebs \<and> options_wire limit opts ob)"
| "fmsg_wire limit unzip (Compressed tag evs opts) bs \<longleftrightarrow>
     (\<exists>hb z zb ebs ob. bs = hb @ zb @ ob \<and> head_wire limit (items_of opts) tag hb \<and> wire (MBin z) zb \<and> gzip_magic z \<and>
        unzip z = Some (concat ebs) \<and> list_all2 event_wire evs ebs \<and> options_wire limit opts ob)"

subsection \<open>The state between two entries\<close>

text \<open>
  The modules around the transport phase, with what they promise: the ring readers of the connection
  and of a batch, decompression, and that the reader of a batch yields the batch and then leaves the
  connection right after it.
\<close>

record ('r, 'q) tenv =
  conn :: "'r ring"
  conn_rest :: "'r \<Rightarrow> bytes"
  conn_limit :: int
  batch :: "'q ring"
  batch_rest :: "'q \<Rightarrow> bytes"
  batch_limit :: int
  after :: "'q \<Rightarrow> bytes"
  unzip :: "bytes \<Rightarrow> bytes option"
  readers :: "('r, 'q) sub"

definition ends :: "'r ring \<Rightarrow> ('r \<Rightarrow> bytes) \<Rightarrow> bool" where
  "ends R rest \<longleftrightarrow> (\<forall>r. rest r = [] \<longrightarrow> snd (fst (ReadByte R r)) = Some EOF)"

definition tenv_ok :: "('r, 'q) tenv \<Rightarrow> bool" where
  "tenv_ok E \<longleftrightarrow> ring_contract (conn E) (conn_rest E) (conn_limit E) \<and> ring_contract (batch E) (batch_rest E) (batch_limit E) \<and>
     ends (conn E) (conn_rest E) \<and> ends (batch E) (batch_rest E) \<and> keeps (batch E) (after E) \<and>
     (\<forall>r n. 3 \<le> n \<longrightarrow> n \<le> len (conn_rest E r) \<longrightarrow>
        (\<exists>r'. Peek3 (readers E) r n = ((take 3 (conn_rest E r), None), r') \<and> conn_rest E r' = conn_rest E r)) \<and>
     (\<forall>r n. 0 \<le> n \<longrightarrow> n \<le> len (conn_rest E r) \<longrightarrow> batch_rest E (Limited (readers E) r n) = take (nat n) (conn_rest E r) \<and>
        after E (Limited (readers E) r n) = drop (nat n) (conn_rest E r)) \<and>
     (\<forall>r n d. 0 \<le> n \<longrightarrow> n \<le> len (conn_rest E r) \<longrightarrow> unzip E (take (nat n) (conn_rest E r)) = Some d \<longrightarrow>
        (\<exists>q r'. Gunzip (readers E) r n = (Inr q, r') \<and> batch_rest E q = d \<and> after E q = drop (nat n) (conn_rest E r))) \<and>
     (\<forall>q. batch_rest E q = [] \<longrightarrow> conn_rest E (Underlying (readers E) q) = after E q)"

lemma tenv_rings: "tenv_ok E \<Longrightarrow> ring_contract (conn E) (conn_rest E) (conn_limit E)"
  "tenv_ok E \<Longrightarrow> ring_contract (batch E) (batch_rest E) (batch_limit E)" "tenv_ok E \<Longrightarrow> keeps (batch E) (after E)"
  by (simp_all add: tenv_ok_def)

lemma tenv_ends: "tenv_ok E \<Longrightarrow> ends (conn E) (conn_rest E)" "tenv_ok E \<Longrightarrow> ends (batch E) (batch_rest E)"
  by (simp_all add: tenv_ok_def)

lemma tenv_Underlying: "tenv_ok E \<Longrightarrow> batch_rest E q = [] \<Longrightarrow> conn_rest E (Underlying (readers E) q) = after E q"
  by (simp add: tenv_ok_def)

text \<open>The messages still to come before the bytes \<open>z\<close>, at most \<open>n\<close> of them, with their entries and chunks.\<close>

definition messages_left :: "('r, 'q) tenv \<Rightarrow> bytes \<Rightarrow> nat \<Rightarrow> bytes \<Rightarrow> (bytes \<times> event) list \<Rightarrow> bytes list \<Rightarrow> bool" where
  "messages_left E z n bs out ack \<longleftrightarrow> (\<exists>ms bss. bs = concat bss @ z \<and> length ms \<le> n \<and> list_all2 (fmsg_wire (conn_limit E) (unzip E)) ms bss \<and>
     out = concat (map entries_of ms) \<and> ack = concat (map acks_of ms))"

definition tail_left :: "('r, 'q) tenv \<Rightarrow> bytes \<Rightarrow> nat \<Rightarrow> bool \<Rightarrow> bytes \<Rightarrow> (bytes \<times> event) list \<Rightarrow> bytes list \<Rightarrow> bool" where
  "tail_left E z n ho bs out ack \<longleftrightarrow> (\<exists>opts ob bs' ack'. ho = (opts \<noteq> None) \<and> bs = ob @ bs' \<and> options_wire (conn_limit E) opts ob \<and>
     messages_left E z n bs' out ack' \<and> ack = chunks_opt opts @ ack')"

definition events_left :: "('r, 'q) tenv \<Rightarrow> bytes \<Rightarrow> nat \<Rightarrow> bytes \<Rightarrow> bool \<Rightarrow> event list \<Rightarrow> bytes \<Rightarrow> bytes \<Rightarrow> (bytes \<times> event) list \<Rightarrow> bytes list \<Rightarrow> bool" where
  "events_left E z n tag ho evs ebs bs out ack \<longleftrightarrow> (\<exists>ebss out'. ebs = concat ebss \<and> list_all2 event_wire evs ebss \<and>
     tail_left E z n ho bs out' ack \<and> out = map (Pair tag) evs @ out')"

definition standing :: "('r, 'q) tenv \<Rightarrow> bytes \<Rightarrow> nat \<Rightarrow> nat \<Rightarrow> ('r, 'q) tstate \<Rightarrow> (bytes \<times> event) list \<Rightarrow> bytes list \<Rightarrow> bool" where
  "standing E z skip n s out ack = (case s of (it, t) \<Rightarrow> t_ack_results t = [] \<and>
     (case t_mode t of
        MessageMode \<Rightarrow> length (conn_rest E (it_r it)) \<le> skip \<and> messages_left E z n (conn_rest E (it_r it)) out ack
      | ForwardMode \<Rightarrow> length (conn_rest E (it_r it)) \<le> skip \<and> (\<exists>evs ebs bs. conn_rest E (it_r it) = ebs @ bs \<and> fm_items t = len evs \<and>
          events_left E z n (fm_tag t) (fm_hasOptions t) evs ebs bs out ack)
      | PackedForwardMode \<Rightarrow> (case pm_iter t of None \<Rightarrow> False | Some i \<Rightarrow> length (after E (it_r i)) \<le> skip \<and>
          (\<exists>evs. events_left E z n (pm_tag t) (pm_hasOptions t) evs (batch_rest E (it_r i)) (after E (it_r i)) out ack))
      | CompressedPackedForwardMode \<Rightarrow> (case cm_iter t of None \<Rightarrow> False | Some i \<Rightarrow> length (after E (it_r i)) \<le> skip \<and>
          (\<exists>evs. events_left E z n (cm_tag t) (cm_hasOptions t) evs (batch_rest E (it_r i)) (after E (it_r i)) out ack))))"

text \<open>
  \<open>at_record R rest h it kvs P\<close>: the iterator is just after the head of a record \<open>kvs\<close>, and any iterator
  that has consumed exactly that record satisfies \<open>P\<close>.
\<close>

definition at_record :: "'i ring \<Rightarrow> ('i \<Rightarrow> bytes) \<Rightarrow> ('i \<Rightarrow> 'h) \<Rightarrow> 'i Iterator \<Rightarrow> (msg \<times> msg) list \<Rightarrow> ('i Iterator \<Rightarrow> bool) \<Rightarrow> bool" where
  "at_record R rest h it kvs P \<longleftrightarrow> (\<exists>i0 rb xs. Next R i0 = Ret (True, it) \<and> wire (MMap kvs) rb \<and> rest (it_r i0) = rb @ xs \<and>
     (\<forall>it'. rest (it_r it') = xs \<and> h (it_r it') = h (it_r it) \<longrightarrow> P it'))"

definition reading :: "('r, 'q) tenv \<Rightarrow> bytes \<Rightarrow> nat \<Rightarrow> nat \<Rightarrow> ('r, 'q) tstate \<Rightarrow> record_iter \<Rightarrow> (msg \<times> msg) list \<Rightarrow> (bytes \<times> event) list \<Rightarrow> bytes list \<Rightarrow> bool" where
  "reading E z skip n s src kvs out ack = (case s of (it, t) \<Rightarrow>
     (case src of
        MainIter \<Rightarrow> at_record (conn E) (conn_rest E) (\<lambda>_. ()) it kvs (\<lambda>it'. standing E z skip n (it', t) out ack)
      | BatchIter \<Rightarrow> (case t_mode t of
            PackedForwardMode \<Rightarrow> (case pm_iter t of None \<Rightarrow> False | Some i \<Rightarrow>
              at_record (batch E) (batch_rest E) (after E) i kvs (\<lambda>i'. standing E z skip n (it, t\<lparr>pm_iter := Some i'\<rparr>) out ack))
          | CompressedPackedForwardMode \<Rightarrow> (case cm_iter t of None \<Rightarrow> False | Some i \<Rightarrow>
              at_record (batch E) (batch_rest E) (after E) i kvs (\<lambda>i'. standing E z skip n (it, t\<lparr>cm_iter := Some i'\<rparr>) out ack))
          | _ \<Rightarrow> False)))"

text \<open>
  What a call of \<open>Next\<close> does when the entries \<open>out\<close> and the chunks \<open>ack\<close> are still to come. After the last entry it
  leaves the phase ready for another message, as a new one is. The call that meets the bytes \<open>z\<close> ends with \<open>stop\<close>:
  the end of the stream where there are none.
\<close>

definition idle :: "'q TransportPhase \<Rightarrow> bool" where
  "idle t \<longleftrightarrow> t_mode t = MessageMode \<and> t_ack_results t = []"

lemma idle_Init: "idle (Init [])"
  by (simp add: idle_def Init_def)

definition stops :: "('r, 'q) tenv \<Rightarrow> bytes \<Rightarrow> transport_err \<Rightarrow> bool" where
  "stops E z stop \<longleftrightarrow> (\<forall>skip f it t e. conn_rest E (it_r it) = z \<and> t_mode t = MessageMode \<longrightarrow>
     (\<exists>e' it'. t_Next (conn E) (batch E) (readers E) skip (Suc f) (it, t) e = Ret ((Some stop, e'), it', t)))"

definition yields :: "('r, 'q) tenv \<Rightarrow> bytes \<Rightarrow> transport_err \<Rightarrow> nat \<Rightarrow> nat \<Rightarrow> nat \<Rightarrow> ('r, 'q) tstate \<Rightarrow> (bytes \<times> event) list \<Rightarrow> bytes list \<Rightarrow> bool" where
  "yields E z stop skip n f s out ack \<longleftrightarrow> (\<forall>e.
     (case out of
        [] \<Rightarrow> \<exists>e' s'. t_Next (conn E) (batch E) (readers E) skip f s e = Ret ((Some stop, e'), s') \<and> t_acks (snd s') = t_acks (snd s) @ ack \<and> idle (snd s')
      | (tag, ts, kvs) # out' \<Rightarrow> \<exists>e' s' a1 a2. t_Next (conn E) (batch E) (readers E) skip f s e = Ret ((None, e'), s') \<and>
          en_Tag e' = tag \<and> en_Timestamp e' = ts \<and> ack = a1 @ a2 \<and> t_acks (snd s') = t_acks (snd s) @ a1 \<and>
          reading E z skip n s' (en_Record e') kvs out' a2))"

lemma yields_step:
  assumes "\<And>e. \<exists>e2. t_Next (conn E) (batch E) (readers E) skip f s e = t_Next (conn E) (batch E) (readers E) skip f2 s2 e2"
    and "t_acks (snd s2) = t_acks (snd s) @ a" and "yields E z stop skip n f2 s2 out ack"
  shows "yields E z stop skip n f s out (a @ ack)"
proof (cases out)
  case Nil
  show ?thesis unfolding yields_def Nil list.case
  proof
    fix e
    obtain e2 where "t_Next (conn E) (batch E) (readers E) skip f s e = t_Next (conn E) (batch E) (readers E) skip f2 s2 e2" using assms(1) by blast
    then show "\<exists>e' s'. t_Next (conn E) (batch E) (readers E) skip f s e = Ret ((Some stop, e'), s') \<and> t_acks (snd s') = t_acks (snd s) @ a @ ack \<and> idle (snd s')"
      using assms(2,3) unfolding yields_def Nil list.case by (metis append.assoc)
  qed
next
  case (Cons x out')
  obtain tag ts kvs where x: "x = (tag, ts, kvs)" by (metis prod_cases3)
  show ?thesis unfolding yields_def Cons x list.case prod.case
  proof
    fix e
    obtain e2 where n: "t_Next (conn E) (batch E) (readers E) skip f s e = t_Next (conn E) (batch E) (readers E) skip f2 s2 e2" using assms(1) by blast
    from assms(3) obtain e' s' a1 a2 where y: "t_Next (conn E) (batch E) (readers E) skip f2 s2 e2 = Ret ((None, e'), s')"
      "en_Tag e' = tag" "en_Timestamp e' = ts" "ack = a1 @ a2" "t_acks (snd s') = t_acks (snd s2) @ a1" "reading E z skip n s' (en_Record e') kvs out' a2"
      unfolding yields_def Cons x list.case prod.case by blast
    show "\<exists>e' s' a1 a2. t_Next (conn E) (batch E) (readers E) skip f s e = Ret ((None, e'), s') \<and> en_Tag e' = tag \<and> en_Timestamp e' = ts \<and>
        a @ ack = a1 @ a2 \<and> t_acks (snd s') = t_acks (snd s) @ a1 \<and> reading E z skip n s' (en_Record e') kvs out' a2"
      by (rule exI [of _ e'], rule exI [of _ s'], rule exI [of _ "a @ a1"], rule exI [of _ a2]) (use n y assms(2) in simp)
  qed
qed

lemma NextExpectedType_EOF:
  assumes "ring_contract R rest limit" and "ends R rest" and "rest (it_r it) = []"
  obtains it' where "NextExpectedType R it ts = Ret (Some EOF, it')" "rest (it_r it') = []" "\<And>h. keeps R h \<Longrightarrow> h (it_r it') = h (it_r it)"
proof -
  obtain c r where r: "ReadByte R (it_r it) = ((c, Some EOF), r)" using assms(2,3) unfolding ends_def by (metis prod.collapse)
  from Next_error [OF this] have n: "Next R it = Ret (False, it\<lparr>it_err := Some EOF, it_byt := c, it_r := r\<rparr>)" .
  have "rest r = []" using ring_ReadByte [OF assms(1) r] assms(3) by simp
  moreover have "h r = h (it_r it)" if "keeps R h" for h using Next_keeps [OF that n] by simp
  ultimately show thesis using n by (intro that [of "it\<lparr>it_err := Some EOF, it_byt := c, it_r := r\<rparr>"]) (simp_all add: NextExpectedType_def)
qed

lemma stops_end:
  assumes E: "tenv_ok E"
  shows "stops E [] T_EOF"
  unfolding stops_def
proof (intro allI impI, elim conjE)
  fix skip f e and it :: "'a Iterator" and t :: "'b TransportPhase"
  assume r: "conn_rest E (it_r it) = []" and t: "t_mode t = MessageMode"
  obtain it' where "NextExpectedType (conn E) it [ArrayT] = Ret (Some EOF, it')"
    by (rule NextExpectedType_EOF [OF tenv_rings(1) [OF E] tenv_ends(1) [OF E] r])
  with t show "\<exists>e' it'. t_Next (conn E) (batch E) (readers E) skip (Suc f) (it, t) e = Ret ((Some T_EOF, e'), it', t)"
    by (simp add: message_Next_def message_head_def t_error_def)
qed

subsection \<open>The entries of a batch, one after the other\<close>

lemma expected_array:
  assumes R: "ring_contract R rest limit" and h: "keeps R h" and "header c lb ArrayT k k'" and "rest (it_r it) = c # lb @ xs"
  obtains it1 where "NextExpectedType R it [ArrayT] = Ret (None, it1)" "it_items it1 = k" "rest (it_r it1) = xs" "h (it_r it1) = h (it_r it)"
proof -
  obtain r where "NextExpectedType R it [ArrayT] = Ret (None, token it c ArrayT k r)" "rest r = xs" "h r = h (it_r it)"
    by (rule expected_token [OF R h assms(3,4), of "[ArrayT]"]) auto
  then show thesis by (intro that [of "token it c ArrayT k r"]) simp_all
qed

lemma read_event:
  assumes Q: "ring_contract Q restq limit" and h: "keeps Q h" and "event_wire ev eb" "restq (it_r iter) = eb @ xs"
  obtains i1 iter2 i0 rb where "NextExpectedType Q iter [ArrayT] = Ret (None, i1)"
    "\<And>tt tag src e. read_entry Q tt tag src i1 e = Ret ((None, e\<lparr>en_Tag := tag, en_Timestamp := fst ev, en_Record := src\<rparr>), iter2)"
    "Next Q i0 = Ret (True, iter2)" "wire (MMap (snd ev)) rb" "restq (it_r i0) = rb @ xs" "h (it_r iter2) = h (it_r iter)"
proof -
  from assms(3) obtain c lb k sb rb where b: "eb = c # lb @ sb @ rb" "header c lb ArrayT 2 k" "time_wire (fst ev) sb" "wire (MMap (snd ev)) rb"
    unfolding event_wire_def by blast
  with assms(4) have r0: "restq (it_r iter) = c # lb @ (sb @ rb @ xs)" by simp
  obtain i1 where 1: "NextExpectedType Q iter [ArrayT] = Ret (None, i1)" "it_items i1 = 2" "restq (it_r i1) = sb @ rb @ xs" "h (it_r i1) = h (it_r iter)"
    by (rule expected_array [OF Q h b(2) r0])
  obtain i2 i3 where 2: "Next Q i1 = Ret (True, i2)" "it_typ i2 \<in> {ExtT, IntT, UintT}" "iter_Time Q i2 = Ret (fst ev, i3)"
    "restq (it_r i3) = rb @ xs" "h (it_r i3) = h (it_r i1)"
    by (rule read_Time [OF Q h b(3) 1(3)])
  obtain c lb k body where m: "rb = c # lb @ body" "header c lb MapT (len (snd ev)) k" by (rule wire_MMap_head [OF b(4)])
  with 2(4) have r3: "restq (it_r i3) = c # lb @ (body @ xs)" by simp
  obtain r where 3: "Next Q i3 = Ret (True, token i3 c MapT (len (snd ev)) r)" "restq r = body @ xs" "h r = h (it_r i3)"
    by (rule Next_token [OF Q h m(2) r3])
  have "read_entry Q tt tag src i1 e = Ret ((None, e\<lparr>en_Tag := tag, en_Timestamp := fst ev, en_Record := src\<rparr>), token i3 c MapT (len (snd ev)) r)"
    for tt :: "'q TransportPhase" and tag src e
    using 2(1-3) 3(1) 1(2) by (simp add: read_entry_def NextExpectedType_def)
  from 1(1) this 3(1) b(4) 2(4) show thesis by (rule that) (use 3(3) 2(5) 1(4) in simp)
qed

text \<open>At the end of a batch the options are handled and the message mode goes on.\<close>

lemma options_then:
  assumes E: "tenv_ok E" and o: "options_wire (conn_limit E) opts ob" and r: "conn_rest E (it_r it) = ob @ bs"
    and l: "length (conn_rest E (it_r it)) \<le> skip" and a: "t_ack_results t = []"
  obtains it' where "(if opts \<noteq> None then handleOptions (conn E) skip (it, t) else Ret (None, it, t)) =
      Ret (None, it', t\<lparr>t_acks := t_acks t @ chunks_opt opts\<rparr>)" "conn_rest E (it_r it') = bs"
proof (cases opts)
  case None
  then show thesis using o r by (intro that [of it]) (simp_all add: options_wire_def chunks_opt_def)
next
  case (Some os)
  then have "wire (options_msg os) ob" "\<forall>kv \<in> set os. option_ok (conn_limit E) kv" using o by (simp_all add: options_wire_def)
  then obtain it' where "handleOptions (conn E) skip (it, t) = Ret (None, it', t\<lparr>t_acks := t_acks t @ chunks os\<rparr>)" "conn_rest E (it_r it') = bs"
    by (rule handleOptions_acks [OF tenv_rings(1) [OF E] _ _ r l a])
  then show thesis using Some by (intro that [of it']) (simp_all add: chunks_opt_def)
qed

lemma events_left_I:
  "list_all2 event_wire evs ebss \<Longrightarrow> ho = (opts \<noteq> None) \<Longrightarrow> options_wire (conn_limit E) opts ob \<Longrightarrow> messages_left E z n bs out ack \<Longrightarrow>
    events_left E z n tag ho evs (concat ebss) (ob @ bs) (map (Pair tag) evs @ out) (chunks_opt opts @ ack)"
  unfolding events_left_def tail_left_def by blast

lemma forward_yields:
  assumes E: "tenv_ok E" and t: "t_mode t = ForwardMode" "t_ack_results t = []" "fm_items t = len evs" "fm_hasOptions t = (opts \<noteq> None)"
    and r: "conn_rest E (it_r it) = concat ebss @ ob @ bs" and l: "length (conn_rest E (it_r it)) \<le> skip"
    and w: "list_all2 event_wire evs ebss" "options_wire (conn_limit E) opts ob"
    and next_msg: "\<And>it' t'. t_mode t' = MessageMode \<Longrightarrow> t_ack_results t' = [] \<Longrightarrow> conn_rest E (it_r it') = bs \<Longrightarrow> yields E z stop skip n f (it', t') out ack"
    and m: "messages_left E z n bs out ack"
  shows "yields E z stop skip n (Suc f) (it, t) (map (Pair (fm_tag t)) evs @ out) (chunks_opt opts @ ack)"
proof (cases evs)
  case Nil
  with r w have r': "conn_rest E (it_r it) = ob @ bs" by simp
  obtain it' where o: "(if opts \<noteq> None then handleOptions (conn E) skip (it, t) else Ret (None, it, t)) =
      Ret (None, it', t\<lparr>t_acks := t_acks t @ chunks_opt opts\<rparr>)" "conn_rest E (it_r it') = bs"
    by (rule options_then [OF E w(2) r' l t(2)])
  let ?s2 = "(it', t\<lparr>t_acks := t_acks t @ chunks_opt opts, t_mode := MessageMode\<rparr>)"
  have "yields E z stop skip n f ?s2 out ack" using t(2) o(2) by (intro next_msg) simp_all
  moreover have "t_Next (conn E) (batch E) (readers E) skip (Suc f) (it, t) e = t_Next (conn E) (batch E) (readers E) skip f ?s2 e" for e
    using t Nil o(1) by (auto simp: forward_Next_def changeMode_def Leave_def)
  ultimately have "yields E z stop skip n (Suc f) (it, t) out (chunks_opt opts @ ack)"
    by (intro yields_step [where ?s2.0 = ?s2 and ?f2.0 = f]) (auto intro: exI)
  with Nil show ?thesis by simp
next
  case (Cons ev evs')
  then obtain eb ebss' where b: "ebss = eb # ebss'" "event_wire ev eb" "list_all2 event_wire evs' ebss'" using w(1) by (auto simp: list_all2_Cons1)
  let ?xs = "concat ebss' @ ob @ bs"
  have r': "conn_rest E (it_r it) = eb @ ?xs" using r b(1) by simp
  obtain i1 iter2 i0 rb where e: "NextExpectedType (conn E) it [ArrayT] = Ret (None, i1)"
    "\<And>(tt :: 'b TransportPhase) tag src e. read_entry (conn E) tt tag src i1 e = Ret ((None, e\<lparr>en_Tag := tag, en_Timestamp := fst ev, en_Record := src\<rparr>), iter2)"
    "Next (conn E) i0 = Ret (True, iter2)" "wire (MMap (snd ev)) rb" "conn_rest E (it_r i0) = rb @ ?xs"
    by (rule read_event [OF tenv_rings(1) [OF E] keeps_unit b(2) r']) (rule that)
  have "length ?xs \<le> skip" using l r' by simp
  then have "standing E z skip n (it', t\<lparr>fm_items := fm_items t - 1\<rparr>) (map (Pair (fm_tag t)) evs' @ out) (chunks_opt opts @ ack)"
    if "conn_rest E (it_r it') = ?xs" for it'
    using that t Cons events_left_I [OF b(3) t(4) w(2) m] unfolding standing_def by auto
  then have "reading E z skip n (iter2, t\<lparr>fm_items := fm_items t - 1\<rparr>) MainIter (snd ev) (map (Pair (fm_tag t)) evs' @ out) (chunks_opt opts @ ack)"
    using e(3-5) unfolding reading_def at_record_def by auto
  moreover have "t_Next (conn E) (batch E) (readers E) skip (Suc f) (it, t) e =
      Ret ((None, e\<lparr>en_Tag := fm_tag t, en_Timestamp := fst ev, en_Record := MainIter\<rparr>), iter2, t\<lparr>fm_items := fm_items t - 1\<rparr>)" for e
    using t Cons e(1,2) by (simp add: forward_Next_def)
  ultimately show ?thesis using Cons unfolding yields_def by (cases ev) (fastforce intro: exI [of _ "[]"])
qed

lemma packed_yields:
  assumes E: "tenv_ok E" and t: "t_mode t = PackedForwardMode" "t_ack_results t = []" "pm_iter t = Some i" "pm_hasOptions t = (opts \<noteq> None)"
    and r: "batch_rest E (it_r i) = concat ebss" "after E (it_r i) = ob @ bs" and l: "length (ob @ bs) \<le> skip"
    and w: "list_all2 event_wire evs ebss" "options_wire (conn_limit E) opts ob"
    and next_msg: "\<And>it' t'. t_mode t' = MessageMode \<Longrightarrow> t_ack_results t' = [] \<Longrightarrow> conn_rest E (it_r it') = bs \<Longrightarrow> yields E z stop skip n f (it', t') out ack"
    and m: "messages_left E z n bs out ack"
  shows "yields E z stop skip n (Suc f) (it, t) (map (Pair (pm_tag t)) evs @ out) (chunks_opt opts @ ack)"
proof (cases evs)
  case Nil
  with r w have r0: "batch_rest E (it_r i) = []" by simp
  obtain i1 where i1: "NextExpectedType (batch E) i [ArrayT] = Ret (Some EOF, i1)" "batch_rest E (it_r i1) = []"
    "\<And>h :: 'b \<Rightarrow> bytes. keeps (batch E) h \<Longrightarrow> h (it_r i1) = h (it_r i)"
    by (rule NextExpectedType_EOF [OF tenv_rings(2) [OF E] tenv_ends(2) [OF E] r0]) (rule that)
  let ?it = "it\<lparr>it_r := Underlying (readers E) (it_r i1)\<rparr>" and ?t = "t\<lparr>pm_iter := None\<rparr>"
  have "conn_rest E (it_r ?it) = ob @ bs" using tenv_Underlying [OF E i1(2)] i1(3) [OF tenv_rings(3) [OF E]] r(2) by simp
  with l t(2) obtain it' where o: "(if opts \<noteq> None then handleOptions (conn E) skip (?it, ?t) else Ret (None, ?it, ?t)) =
      Ret (None, it', ?t\<lparr>t_acks := t_acks t @ chunks_opt opts\<rparr>)" "conn_rest E (it_r it') = bs"
    by (rule_tac options_then [OF E w(2), of ?it bs skip ?t]) auto
  let ?s2 = "(it', ?t\<lparr>t_acks := t_acks t @ chunks_opt opts, t_mode := MessageMode\<rparr>)"
  have "yields E z stop skip n f ?s2 out ack" using t(2) o(2) by (intro next_msg) simp_all
  moreover have "t_Next (conn E) (batch E) (readers E) skip (Suc f) (it, t) e = t_Next (conn E) (batch E) (readers E) skip f ?s2 e" for e
    using t o(1) i1(1) by (auto simp: packed_Next_def changeMode_def Leave_def batch_Leave_def Let_def)
  ultimately have "yields E z stop skip n (Suc f) (it, t) out (chunks_opt opts @ ack)"
    by (intro yields_step [where ?s2.0 = ?s2 and ?f2.0 = f]) (auto intro: exI)
  with Nil show ?thesis by simp
next
  case (Cons ev evs')
  then obtain eb ebss' where b: "ebss = eb # ebss'" "event_wire ev eb" "list_all2 event_wire evs' ebss'" using w(1) by (auto simp: list_all2_Cons1)
  have r': "batch_rest E (it_r i) = eb @ concat ebss'" using r b(1) by simp
  obtain i1 iter2 i0 rb where e: "NextExpectedType (batch E) i [ArrayT] = Ret (None, i1)"
    "\<And>(tt :: 'b TransportPhase) tag src e. read_entry (batch E) tt tag src i1 e = Ret ((None, e\<lparr>en_Tag := tag, en_Timestamp := fst ev, en_Record := src\<rparr>), iter2)"
    "Next (batch E) i0 = Ret (True, iter2)" "wire (MMap (snd ev)) rb" "batch_rest E (it_r i0) = rb @ concat ebss'" "after E (it_r iter2) = after E (it_r i)"
    by (rule read_event [OF tenv_rings(2) [OF E] tenv_rings(3) [OF E] b(2) r']) (rule that)
  have "standing E z skip n (it, t\<lparr>pm_iter := Some i'\<rparr>) (map (Pair (pm_tag t)) evs' @ out) (chunks_opt opts @ ack)"
    if "batch_rest E (it_r i') = concat ebss'" "after E (it_r i') = after E (it_r i)" for i'
    using that t l r(2) events_left_I [OF b(3) t(4) w(2) m] unfolding standing_def by auto
  then have "reading E z skip n (it, t\<lparr>pm_iter := Some iter2\<rparr>) BatchIter (snd ev) (map (Pair (pm_tag t)) evs' @ out) (chunks_opt opts @ ack)"
    using e(3-6) t(1) unfolding reading_def at_record_def by auto
  moreover have "t_Next (conn E) (batch E) (readers E) skip (Suc f) (it, t) e =
      Ret ((None, e\<lparr>en_Tag := pm_tag t, en_Timestamp := fst ev, en_Record := BatchIter\<rparr>), it, t\<lparr>pm_iter := Some iter2\<rparr>)" for e
    using t e(1,2) by (simp add: packed_Next_def Let_def)
  ultimately show ?thesis using Cons unfolding yields_def by (cases ev) (fastforce intro: exI [of _ "[]"])
qed

lemma compressed_yields:
  assumes E: "tenv_ok E" and t: "t_mode t = CompressedPackedForwardMode" "t_ack_results t = []" "cm_iter t = Some i" "cm_hasOptions t = (opts \<noteq> None)"
    and r: "batch_rest E (it_r i) = concat ebss" "after E (it_r i) = ob @ bs" and l: "length (ob @ bs) \<le> skip"
    and w: "list_all2 event_wire evs ebss" "options_wire (conn_limit E) opts ob"
    and next_msg: "\<And>it' t'. t_mode t' = MessageMode \<Longrightarrow> t_ack_results t' = [] \<Longrightarrow> conn_rest E (it_r it') = bs \<Longrightarrow> yields E z stop skip n f (it', t') out ack"
    and m: "messages_left E z n bs out ack"
  shows "yields E z stop skip n (Suc f) (it, t) (map (Pair (cm_tag t)) evs @ out) (chunks_opt opts @ ack)"
proof (cases evs)
  case Nil
  with r w have r0: "batch_rest E (it_r i) = []" by simp
  obtain i1 where i1: "NextExpectedType (batch E) i [ArrayT] = Ret (Some EOF, i1)" "batch_rest E (it_r i1) = []"
    "\<And>h :: 'b \<Rightarrow> bytes. keeps (batch E) h \<Longrightarrow> h (it_r i1) = h (it_r i)"
    by (rule NextExpectedType_EOF [OF tenv_rings(2) [OF E] tenv_ends(2) [OF E] r0]) (rule that)
  let ?it = "it\<lparr>it_r := Underlying (readers E) (it_r i1)\<rparr>" and ?t = "t\<lparr>cm_iter := None\<rparr>"
  have "conn_rest E (it_r ?it) = ob @ bs" using tenv_Underlying [OF E i1(2)] i1(3) [OF tenv_rings(3) [OF E]] r(2) by simp
  with l t(2) obtain it' where o: "(if opts \<noteq> None then handleOptions (conn E) skip (?it, ?t) else Ret (None, ?it, ?t)) =
      Ret (None, it', ?t\<lparr>t_acks := t_acks t @ chunks_opt opts\<rparr>)" "conn_rest E (it_r it') = bs"
    by (rule_tac options_then [OF E w(2), of ?it bs skip ?t]) auto
  let ?s2 = "(it', ?t\<lparr>t_acks := t_acks t @ chunks_opt opts, t_mode := MessageMode\<rparr>)"
  have "yields E z stop skip n f ?s2 out ack" using t(2) o(2) by (intro next_msg) simp_all
  moreover have "t_Next (conn E) (batch E) (readers E) skip (Suc f) (it, t) e = t_Next (conn E) (batch E) (readers E) skip f ?s2 e" for e
    using t o(1) i1(1) by (auto simp: compressed_Next_def changeMode_def Leave_def batch_Leave_def Let_def)
  ultimately have "yields E z stop skip n (Suc f) (it, t) out (chunks_opt opts @ ack)"
    by (intro yields_step [where ?s2.0 = ?s2 and ?f2.0 = f]) (auto intro: exI)
  with Nil show ?thesis by simp
next
  case (Cons ev evs')
  then obtain eb ebss' where b: "ebss = eb # ebss'" "event_wire ev eb" "list_all2 event_wire evs' ebss'" using w(1) by (auto simp: list_all2_Cons1)
  have r': "batch_rest E (it_r i) = eb @ concat ebss'" using r b(1) by simp
  obtain i1 iter2 i0 rb where e: "NextExpectedType (batch E) i [ArrayT] = Ret (None, i1)"
    "\<And>(tt :: 'b TransportPhase) tag src e. read_entry (batch E) tt tag src i1 e = Ret ((None, e\<lparr>en_Tag := tag, en_Timestamp := fst ev, en_Record := src\<rparr>), iter2)"
    "Next (batch E) i0 = Ret (True, iter2)" "wire (MMap (snd ev)) rb" "batch_rest E (it_r i0) = rb @ concat ebss'" "after E (it_r iter2) = after E (it_r i)"
    by (rule read_event [OF tenv_rings(2) [OF E] tenv_rings(3) [OF E] b(2) r']) (rule that)
  have "standing E z skip n (it, t\<lparr>cm_iter := Some i'\<rparr>) (map (Pair (cm_tag t)) evs' @ out) (chunks_opt opts @ ack)"
    if "batch_rest E (it_r i') = concat ebss'" "after E (it_r i') = after E (it_r i)" for i'
    using that t l r(2) events_left_I [OF b(3) t(4) w(2) m] unfolding standing_def by auto
  then have "reading E z skip n (it, t\<lparr>cm_iter := Some iter2\<rparr>) BatchIter (snd ev) (map (Pair (cm_tag t)) evs' @ out) (chunks_opt opts @ ack)"
    using e(3-6) t(1) unfolding reading_def at_record_def by auto
  moreover have "t_Next (conn E) (batch E) (readers E) skip (Suc f) (it, t) e =
      Ret ((None, e\<lparr>en_Tag := cm_tag t, en_Timestamp := fst ev, en_Record := BatchIter\<rparr>), it, t\<lparr>cm_iter := Some iter2\<rparr>)" for e
    using t e(1,2) by (simp add: compressed_Next_def Let_def)
  ultimately show ?thesis using Cons unfolding yields_def by (cases ev) (fastforce intro: exI [of _ "[]"])
qed

subsection \<open>The head of a message\<close>

lemma read_head:
  assumes R: "ring_contract R rest limit" and "head_wire limit n tag hb" "rest (it_r it) = hb @ xs" and n: "2 \<le> n" "n \<le> 4"
  obtains it1 where "message_head R (it, t) = Ret (Inr (n, tag), it1)" "rest (it_r it1) = xs"
proof -
  from assms(2) obtain c lb k tb where b: "hb = c # lb @ tb" "header c lb ArrayT n k" "wire (MStr tag) tb" "1 \<le> len tag" "len tag \<le> 64" "len tag \<le> limit"
    unfolding head_wire_def by blast
  with assms(3) have r0: "rest (it_r it) = c # lb @ (tb @ xs)" by simp
  obtain i1 where 1: "NextExpectedType R it [ArrayT] = Ret (None, i1)" "it_items i1 = n" "rest (it_r i1) = tb @ xs"
    by (rule expected_array [OF R keeps_unit b(2) r0]) (rule that)
  obtain i2 i3 where 2: "NextExpectedType R i1 [StrT] = Ret (None, i2)" "it_length i2 = len tag" "iter_Str R i2 = (tag, i3)" "rest (it_r i3) = xs"
    by (rule read_Str [OF R keeps_unit b(3) 1(3) b(6)]) (rule that)
  show thesis by (rule that [of i3]) (use 1(1,2) 2 b(4,5) n in \<open>auto simp: message_head_def\<close>)
qed

lemma event_wire_start:
  assumes "event_wire ev eb"
  shows "3 \<le> length eb" and "hd eb \<noteq> 0x1f"
proof -
  from assms obtain c lb k sb rb where b: "eb = c # lb @ sb @ rb" "header c lb ArrayT 2 k" "time_wire (fst ev) sb" "wire (MMap (snd ev)) rb"
    unfolding event_wire_def by blast
  have "sb \<noteq> []" "rb \<noteq> []" using b(3,4) wire_not_Nil by (auto simp: time_wire_def)
  then show "3 \<le> length eb" using b(1) by (cases sb; cases rb) auto
  have "Get 0x1f = (UintT, 0, True)" by simp
  then show "hd eb \<noteq> 0x1f" using b(1,2) by (auto simp: header_def)
qed

lemma packed_start:
  assumes "list_all2 event_wire evs ebss" "evs \<noteq> []"
  shows "3 \<le> length (concat ebss)" and "take 3 (concat ebss) \<noteq> [0x1f, 0x8b, 8]"
proof -
  obtain ev evs' eb ebss' where e: "evs = ev # evs'" "ebss = eb # ebss'" "event_wire ev eb" using assms by (cases evs) (auto simp: list_all2_Cons1)
  note s = event_wire_start [OF e(3)]
  show "3 \<le> length (concat ebss)" using s(1) e(2) by simp
  show "take 3 (concat ebss) \<noteq> [0x1f, 0x8b, 8]" using s e(2) by (cases eb) auto
qed

text \<open>The first three bytes tell a compressed batch from a packed one.\<close>

lemma isGzip_magic:
  assumes E: "tenv_ok E" and "it_length it = len z" "3 \<le> length z" "conn_rest E (it_r it) = z @ xs"
  obtains it' where "isGzip (readers E) it = Ret ((gzip_magic z, None), it')" "it_length it' = len z" "conn_rest E (it_r it') = z @ xs"
proof -
  have "3 \<le> len z" "len z \<le> len (conn_rest E (it_r it))" using assms(3,4) by simp_all
  then obtain r' where p: "Peek3 (readers E) (it_r it) (len z) = ((take 3 (conn_rest E (it_r it)), None), r')" "conn_rest E r' = conn_rest E (it_r it)"
    using E unfolding tenv_ok_def by blast
  obtain a b c z' where z: "z = a # b # c # z'" using assms(3) by (auto simp: numeral_3_eq_3 Suc_le_length_iff)
  show thesis
    by (rule that [of "it\<lparr>it_r := r'\<rparr>"])
      (use p assms(2,4) z in \<open>simp_all add: isGzip_def gzip_magic_def go_index_def numeral_2_eq_2 numeral_3_eq_3\<close>)
qed

lemma read_Bin_head:
  assumes R: "ring_contract R rest limit" and "wire (MBin z) zb" "rest (it_r it) = zb @ xs"
  obtains it1 where "Next R it = Ret (True, it1)" "it_typ it1 = BinT" "it_length it1 = len z" "rest (it_r it1) = z @ xs"
proof -
  obtain c lb k where b: "zb = c # lb @ z" "header c lb BinT (len z) k" using assms(2) by (auto elim: wire_E)
  with assms(3) have r0: "rest (it_r it) = c # lb @ (z @ xs)" by simp
  obtain r where "Next R it = Ret (True, token it c BinT (len z) r)" "rest r = z @ xs" by (rule Next_header [OF R r0 b(2)])
  then show thesis by (intro that [of "token it c BinT (len z) r"]) simp_all
qed

subsection \<open>Messages, one after the other\<close>

lemma message_yields:
  assumes E: "tenv_ok E" and z: "stops E z stop"
  shows "list_all2 (fmsg_wire (conn_limit E) (unzip E)) ms bss \<Longrightarrow> t_mode t = MessageMode \<Longrightarrow> t_ack_results t = [] \<Longrightarrow>
    conn_rest E (it_r it) = concat bss @ z \<Longrightarrow> length (concat bss @ z) \<le> skip \<Longrightarrow> length ms \<le> n \<Longrightarrow> 2 * length ms + 1 \<le> f \<Longrightarrow>
    yields E z stop skip n f (it, t) (concat (map entries_of ms)) (concat (map acks_of ms))"
proof (induction ms bss arbitrary: it t f rule: list_all2_induct)
  case Nil
  obtain f' where f: "f = Suc f'" using Nil by (cases f) auto
  from Nil have "conn_rest E (it_r it) = z" by simp
  then have "\<exists>e' it'. t_Next (conn E) (batch E) (readers E) skip f (it, t) e = Ret ((Some stop, e'), it', t)" for e
    using z Nil.prems(1) unfolding stops_def f by blast
  then show ?case using Nil.prems unfolding yields_def idle_def by fastforce
next
  case (Cons m ms b bss)
  note R = tenv_rings(1) [OF E]
  obtain f1 f' where f: "f = Suc f1" "f1 = Suc f'" using Cons.prems(6) by (cases f; cases "f - 1") auto
  have left: "messages_left E z n (concat bss @ z) (concat (map entries_of ms)) (concat (map acks_of ms))"
    unfolding messages_left_def using Cons.hyps Cons.prems(5) by (intro exI [of _ ms] exI [of _ bss]) simp
  have next_msg: "yields E z stop skip n f' (it', t') (concat (map entries_of ms)) (concat (map acks_of ms))"
    if "t_mode t' = MessageMode" "t_ack_results t' = []" "conn_rest E (it_r it') = concat bss @ z" for it' t'
    by (rule Cons.IH) (use that Cons.prems f in simp_all)
  let ?xs = "concat bss @ z" and ?out = "concat (map entries_of ms)" and ?ack = "concat (map acks_of ms)"
  have r: "conn_rest E (it_r it) = b @ ?xs" and l: "length (b @ ?xs) \<le> skip" using Cons.prems by simp_all
  have i: "2 \<le> items_of opts" "items_of opts \<le> 4" "(items_of opts = 3) = (opts \<noteq> None)" for opts :: "(bytes \<times> msg) list option" by simp_all
  show ?case
  proof (cases m)
    case (Single tag ev)
    with Cons.hyps(1) obtain hb sb rb where w: "b = hb @ sb @ rb" "head_wire (conn_limit E) 3 tag hb" "time_wire (fst ev) sb" "wire (MMap (snd ev)) rb"
      by auto
    from r w(1) have r1: "conn_rest E (it_r it) = hb @ (sb @ rb @ ?xs)" by simp
    obtain i1 where 1: "message_head (conn E) (it, t) = Ret (Inr (3, tag), i1)" "conn_rest E (it_r i1) = sb @ rb @ ?xs"
      by (rule read_head [OF R w(2) r1, of t]) simp_all
    obtain i2 i3 where 2: "Next (conn E) i1 = Ret (True, i2)" "it_typ i2 \<in> {ExtT, IntT, UintT}" "iter_Time (conn E) i2 = Ret (fst ev, i3)"
      "conn_rest E (it_r i3) = rb @ ?xs" by (rule read_Time [OF R keeps_unit w(3) 1(2)])
    obtain c lb k body where h: "rb = c # lb @ body" "header c lb MapT (len (snd ev)) k" by (rule wire_MMap_head [OF w(4)])
    with 2(4) have r3: "conn_rest E (it_r i3) = c # lb @ (body @ ?xs)" by simp
    obtain q where 3: "Next (conn E) i3 = Ret (True, token i3 c MapT (len (snd ev)) q)" by (rule Next_header [OF R r3 h(2)])
    let ?i4 = "token i3 c MapT (len (snd ev)) q"
    have "t_Next (conn E) (batch E) (readers E) skip f (it, t) e = Ret ((None, e\<lparr>en_Tag := tag, en_Timestamp := fst ev, en_Record := MainIter\<rparr>), ?i4, t)" for e
      using Cons.prems(1) 1(1) 2(1-3) 3 f(1) by (auto simp: message_Next_def NextExpectedType_token Let_def)
    moreover have "reading E z skip n (?i4, t) MainIter (snd ev) ?out ?ack"
      unfolding reading_def at_record_def standing_def prod.case record_iter.case
      by (rule exI [of _ i3], rule exI [of _ rb], rule exI [of _ ?xs]) (use 3 w(4) 2(4) Cons.prems(1,2) left l in auto)
    ultimately show ?thesis using Single unfolding yields_def by (cases ev) (fastforce intro: exI [of _ "[]"])
  next
    case (Forwarded tag evs opts)
    with Cons.hyps(1) obtain hb c lb k ebs ob where w: "b = hb @ (c # lb @ concat ebs) @ ob" "head_wire (conn_limit E) (items_of opts) tag hb"
      "header c lb ArrayT (len evs) k" "list_all2 event_wire evs ebs" "options_wire (conn_limit E) opts ob" by auto
    from r w(1) have r1: "conn_rest E (it_r it) = hb @ (c # lb @ concat ebs @ ob @ ?xs)" by simp
    obtain i1 where 1: "message_head (conn E) (it, t) = Ret (Inr (items_of opts, tag), i1)" "conn_rest E (it_r i1) = c # lb @ (concat ebs @ ob @ ?xs)"
      by (rule read_head [OF R w(2) r1 i(1,2), of t]) simp_all
    obtain q where 2: "Next (conn E) i1 = Ret (True, token i1 c ArrayT (len evs) q)" "conn_rest E q = concat ebs @ ob @ ?xs"
      by (rule Next_header [OF R 1(2) w(3)])
    let ?s2 = "(token i1 c ArrayT (len evs) q, t\<lparr>fm_tag := tag, fm_items := len evs, fm_hasOptions := (opts \<noteq> None), t_mode := ForwardMode\<rparr>)"
    have "\<exists>e2. t_Next (conn E) (batch E) (readers E) skip f (it, t) e = t_Next (conn E) (batch E) (readers E) skip f1 ?s2 e2" for e
      by (rule exI [of _ "e\<lparr>en_Tag := tag\<rparr>"])
        (use Cons.prems(1) 1(1) 2(1) f(1) in \<open>simp add: message_Next_def forward_Enter_def changeMode_def Leave_def\<close>)
    moreover have "yields E z stop skip n f1 ?s2 (map (Pair (fm_tag (snd ?s2))) evs @ ?out) (chunks_opt opts @ ?ack)"
      unfolding f(2) snd_conv by (rule forward_yields [OF E _ _ _ _ _ _ w(4,5) next_msg left]) (use Cons.prems(2) 2(2) l w(1) in simp_all)
    ultimately have "yields E z stop skip n f (it, t) (map (Pair tag) evs @ ?out) ([] @ (chunks_opt opts @ ?ack))"
      by - (rule yields_step [where ?s2.0 = ?s2 and ?f2.0 = f1], simp_all)
    with Forwarded show ?thesis by simp
  next
    case (Packed tag evs opts)
    with Cons.hyps(1) obtain hb zb ebs ob where w: "b = hb @ zb @ ob" "head_wire (conn_limit E) (items_of opts) tag hb" "wire (MBin (concat ebs)) zb" "evs \<noteq> []"
      "list_all2 event_wire evs ebs" "options_wire (conn_limit E) opts ob" by auto
    note z = packed_start [OF w(5,4)]
    from r w(1) have r1: "conn_rest E (it_r it) = hb @ (zb @ ob @ ?xs)" by simp
    obtain i1 where 1: "message_head (conn E) (it, t) = Ret (Inr (items_of opts, tag), i1)" "conn_rest E (it_r i1) = zb @ (ob @ ?xs)"
      by (rule read_head [OF R w(2) r1 i(1,2), of t]) simp_all
    obtain i2 where 2: "Next (conn E) i1 = Ret (True, i2)" "it_typ i2 = BinT" "it_length i2 = len (concat ebs)" "conn_rest E (it_r i2) = concat ebs @ ob @ ?xs"
      by (rule read_Bin_head [OF R w(3) 1(2)])
    obtain i3 where 3: "isGzip (readers E) i2 = Ret ((gzip_magic (concat ebs), None), i3)" "it_length i3 = len (concat ebs)"
      "conn_rest E (it_r i3) = concat ebs @ ob @ ?xs" by (rule isGzip_magic [OF E 2(3) z(1) 2(4)])
    let ?q = "Limited (readers E) (it_r i3) (len (concat ebs))"
    have q: "batch_rest E ?q = concat ebs" "after E ?q = ob @ ?xs" using E 3(3) unfolding tenv_ok_def by simp_all
    let ?s2 = "(i3, t\<lparr>pm_iter := Some (NewIterator ?q), pm_tag := tag, pm_hasOptions := (opts \<noteq> None), t_mode := PackedForwardMode\<rparr>)"
    have "\<exists>e2. t_Next (conn E) (batch E) (readers E) skip f (it, t) e = t_Next (conn E) (batch E) (readers E) skip f1 ?s2 e2" for e
      by (rule exI [of _ "e\<lparr>en_Tag := tag\<rparr>"])
        (use Cons.prems(1) 1(1) 2(1,2) 3(1,2) z(2) f(1) in \<open>simp add: message_Next_def packed_Enter_def changeMode_def Leave_def gzip_magic_def\<close>)
    moreover have "yields E z stop skip n f1 ?s2 (map (Pair (pm_tag (snd ?s2))) evs @ ?out) (chunks_opt opts @ ?ack)"
      unfolding f(2) snd_conv
      by (rule packed_yields [OF E _ _ _ _ _ _ _ w(5,6) next_msg left, where i = "NewIterator ?q"]) (use Cons.prems(2) q l w(1) in simp_all)
    ultimately have "yields E z stop skip n f (it, t) (map (Pair tag) evs @ ?out) ([] @ (chunks_opt opts @ ?ack))"
      by - (rule yields_step [where ?s2.0 = ?s2 and ?f2.0 = f1], simp_all)
    with Packed show ?thesis by simp
  next
    case (Compressed tag evs opts)
    with Cons.hyps(1) obtain hb zs zb ebs ob where w: "b = hb @ zb @ ob" "head_wire (conn_limit E) (items_of opts) tag hb" "wire (MBin zs) zb" "gzip_magic zs"
      "unzip E zs = Some (concat ebs)" "list_all2 event_wire evs ebs" "options_wire (conn_limit E) opts ob" by auto
    have z: "3 \<le> length zs" using w(4) unfolding gzip_magic_def by (metis length_Cons length_take list.size(3) min.cobounded1 numeral_3_eq_3)
    from r w(1) have r1: "conn_rest E (it_r it) = hb @ (zb @ ob @ ?xs)" by simp
    obtain i1 where 1: "message_head (conn E) (it, t) = Ret (Inr (items_of opts, tag), i1)" "conn_rest E (it_r i1) = zb @ (ob @ ?xs)"
      by (rule read_head [OF R w(2) r1 i(1,2), of t]) simp_all
    obtain i2 where 2: "Next (conn E) i1 = Ret (True, i2)" "it_typ i2 = BinT" "it_length i2 = len zs" "conn_rest E (it_r i2) = zs @ ob @ ?xs"
      by (rule read_Bin_head [OF R w(3) 1(2)])
    obtain i3 where 3: "isGzip (readers E) i2 = Ret ((gzip_magic zs, None), i3)" "it_length i3 = len zs" "conn_rest E (it_r i3) = zs @ ob @ ?xs"
      by (rule isGzip_magic [OF E 2(3) z 2(4)])
    have "0 \<le> len zs" "len zs \<le> len (conn_rest E (it_r i3))" "unzip E (take (nat (len zs)) (conn_rest E (it_r i3))) = Some (concat ebs)" using 3(3) w(5) by simp_all
    then obtain q r' where q: "Gunzip (readers E) (it_r i3) (len zs) = (Inr q, r')" "batch_rest E q = concat ebs"
      "after E q = drop (nat (len zs)) (conn_rest E (it_r i3))" using E unfolding tenv_ok_def by blast
    then have q': "after E q = ob @ ?xs" using 3(3) by simp
    let ?s2 = "(i3\<lparr>it_r := r'\<rparr>, t\<lparr>cm_iter := Some (NewIterator q), cm_tag := tag, cm_hasOptions := (opts \<noteq> None), t_mode := CompressedPackedForwardMode\<rparr>)"
    have "\<exists>e2. t_Next (conn E) (batch E) (readers E) skip f (it, t) e = t_Next (conn E) (batch E) (readers E) skip f1 ?s2 e2" for e
      by (rule exI [of _ "e\<lparr>en_Tag := tag\<rparr>"])
        (use Cons.prems(1) 1(1) 2(1,2) 3(1,2) q(1) w(4) f(1) in \<open>simp add: message_Next_def compressed_Enter_def changeMode_def Leave_def\<close>)
    moreover have "yields E z stop skip n f1 ?s2 (map (Pair (cm_tag (snd ?s2))) evs @ ?out) (chunks_opt opts @ ?ack)"
      unfolding f(2) snd_conv
      by (rule compressed_yields [OF E _ _ _ _ _ _ _ w(6,7) next_msg left, where i = "NewIterator q"]) (use Cons.prems(2) q(2) q' l w(1) in simp_all)
    ultimately have "yields E z stop skip n f (it, t) (map (Pair tag) evs @ ?out) ([] @ (chunks_opt opts @ ?ack))"
      by - (rule yields_step [where ?s2.0 = ?s2 and ?f2.0 = f1], simp_all)
    with Compressed show ?thesis by simp
  qed
qed

lemma standing_yields:
  assumes E: "tenv_ok E" and z: "stops E z stop" and "standing E z skip n s out ack" and f: "2 * n + 2 \<le> f"
  shows "yields E z stop skip n f s out ack"
proof -
  obtain it t where s: "s = (it, t)" by (cases s)
  obtain f' where f': "f = Suc f'" "2 * n + 1 \<le> f'" using f by (cases f) auto
  have msgs: "yields E z stop skip n k (it', t') out' ack'"
    if "messages_left E z n bs out' ack'" "t_mode t' = MessageMode" "t_ack_results t' = []" "conn_rest E (it_r it') = bs" "length bs \<le> skip"
      "2 * n + 1 \<le> k" for it' t' bs out' ack' k
  proof -
    from that(1) obtain ms bss where m: "bs = concat bss @ z" "length ms \<le> n" "list_all2 (fmsg_wire (conn_limit E) (unzip E)) ms bss"
      "out' = concat (map entries_of ms)" "ack' = concat (map acks_of ms)" unfolding messages_left_def by blast
    have "yields E z stop skip n k (it', t') (concat (map entries_of ms)) (concat (map acks_of ms))"
      by (rule message_yields [OF E z m(3) that(2,3)]) (use that m in auto)
    with m show ?thesis by simp
  qed
  have tail: "\<exists>ebss opts ob bs out' ack'. ebs = concat ebss \<and> list_all2 event_wire evs ebss \<and> ho = (opts \<noteq> None) \<and> bs0 = ob @ bs \<and>
      options_wire (conn_limit E) opts ob \<and> messages_left E z n bs out' ack' \<and> ack = chunks_opt opts @ ack' \<and> out = map (Pair tag) evs @ out'"
    if "events_left E z n tag ho evs ebs bs0 out ack" for tag ho evs ebs bs0
    using that unfolding events_left_def tail_left_def by blast
  show ?thesis
  proof (cases "t_mode t")
    case MessageMode
    with assms(3) s show ?thesis using msgs [of "conn_rest E (it_r it)" out ack t it f] f by (simp add: standing_def)
  next
    case ForwardMode
    with assms(3) s obtain evs ebs bs0 where a: "t_ack_results t = []" "length (conn_rest E (it_r it)) \<le> skip" "conn_rest E (it_r it) = ebs @ bs0"
      "fm_items t = len evs" "events_left E z n (fm_tag t) (fm_hasOptions t) evs ebs bs0 out ack" by (auto simp: standing_def)
    from tail [OF a(5)] obtain ebss opts ob bs out' ack' where b: "ebs = concat ebss" "list_all2 event_wire evs ebss" "fm_hasOptions t = (opts \<noteq> None)"
      "bs0 = ob @ bs" "options_wire (conn_limit E) opts ob" "messages_left E z n bs out' ack'" "ack = chunks_opt opts @ ack'"
      "out = map (Pair (fm_tag t)) evs @ out'" by blast
    show ?thesis unfolding s f'(1) b(7,8)
      by (rule forward_yields [OF E ForwardMode a(1,4) b(3) _ a(2) b(2,5) msgs [OF b(6)] b(6)]) (use a b f' in auto)
  next
    case PackedForwardMode
    with assms(3) s obtain i evs where a: "t_ack_results t = []" "pm_iter t = Some i" "length (after E (it_r i)) \<le> skip"
      "events_left E z n (pm_tag t) (pm_hasOptions t) evs (batch_rest E (it_r i)) (after E (it_r i)) out ack" by (auto simp: standing_def split: option.splits)
    from tail [OF a(4)] obtain ebss opts ob bs out' ack' where b: "batch_rest E (it_r i) = concat ebss" "list_all2 event_wire evs ebss"
      "pm_hasOptions t = (opts \<noteq> None)" "after E (it_r i) = ob @ bs" "options_wire (conn_limit E) opts ob" "messages_left E z n bs out' ack'"
      "ack = chunks_opt opts @ ack'" "out = map (Pair (pm_tag t)) evs @ out'" by blast
    show ?thesis unfolding s f'(1) b(7,8)
      by (rule packed_yields [OF E PackedForwardMode a(1,2) b(3,1,4) _ b(2,5) msgs [OF b(6)] b(6)]) (use a b f' in auto)
  next
    case CompressedPackedForwardMode
    with assms(3) s obtain i evs where a: "t_ack_results t = []" "cm_iter t = Some i" "length (after E (it_r i)) \<le> skip"
      "events_left E z n (cm_tag t) (cm_hasOptions t) evs (batch_rest E (it_r i)) (after E (it_r i)) out ack" by (auto simp: standing_def split: option.splits)
    from tail [OF a(4)] obtain ebss opts ob bs out' ack' where b: "batch_rest E (it_r i) = concat ebss" "list_all2 event_wire evs ebss"
      "cm_hasOptions t = (opts \<noteq> None)" "after E (it_r i) = ob @ bs" "options_wire (conn_limit E) opts ob" "messages_left E z n bs out' ack'"
      "ack = chunks_opt opts @ ack'" "out = map (Pair (cm_tag t)) evs @ out'" by blast
    show ?thesis unfolding s f'(1) b(7,8)
      by (rule compressed_yields [OF E CompressedPackedForwardMode a(1,2) b(3,1,4) _ b(2,5) msgs [OF b(6)] b(6)]) (use a b f' in auto)
  qed
qed

subsection \<open>The owner of the session\<close>

text \<open>
  A server reads entry after entry and consumes each record with the iterator that \<open>Entry.Record\<close>
  points to: \<open>cR\<close> and \<open>cQ\<close> are what it does with the record on the main iterator and on that of a batch.
\<close>

definition consume_record :: "('r Iterator \<Rightarrow> ('v \<times> 'r Iterator) go) \<Rightarrow> ('q Iterator \<Rightarrow> ('v \<times> 'q Iterator) go) \<Rightarrow> record_iter \<Rightarrow>
    ('r, 'q) tstate \<Rightarrow> ('v \<times> ('r, 'q) tstate) go" where
  "consume_record cR cQ src s = (case s of (it, t) \<Rightarrow>
     (case src of
        MainIter \<Rightarrow> do { (v, it) \<leftarrow> cR it; Ret (v, it, t) }
      | BatchIter \<Rightarrow>
          (case (t_mode t, pm_iter t, cm_iter t) of
             (PackedForwardMode, Some i, _) \<Rightarrow> do { (v, i) \<leftarrow> cQ i; Ret (v, it, t\<lparr>pm_iter := Some i\<rparr>) }
           | (CompressedPackedForwardMode, _, Some i) \<Rightarrow> do { (v, i) \<leftarrow> cQ i; Ret (v, it, t\<lparr>cm_iter := Some i\<rparr>) }
           | _ \<Rightarrow> Panic)))"

fun read_entries :: "('r, 'q) next_fn \<Rightarrow> ('r Iterator \<Rightarrow> ('v \<times> 'r Iterator) go) \<Rightarrow> ('q Iterator \<Rightarrow> ('v \<times> 'q Iterator) go) \<Rightarrow> nat \<Rightarrow>
    ('r, 'q) tstate \<Rightarrow> Entry \<Rightarrow> ((bytes \<times> go_time \<times> 'v) list \<times> transport_err option \<times> ('r, 'q) tstate) go" where
  "read_entries next_entry cR cQ 0 s e = Ret ([], None, s)"
| "read_entries next_entry cR cQ (Suc n) s e = do {
     ((err, e), s) \<leftarrow> next_entry s e;
     case err of
       Some x \<Rightarrow> Ret ([], Some x, s)
     | None \<Rightarrow> do {
         (v, s) \<leftarrow> consume_record cR cQ (en_Record e) s;
         (vs, x, s) \<leftarrow> read_entries next_entry cR cQ n s e;
         Ret ((en_Tag e, en_Timestamp e, v) # vs, x, s) } }"

text \<open>
  \<open>f\<close> consumes exactly one record and returns \<open>g\<close> of it, whenever the record satisfies \<open>ok\<close>; \<open>consumes\<close> is
  the case without a condition.
\<close>

definition consumes_on :: "'i ring \<Rightarrow> ('i \<Rightarrow> bytes) \<Rightarrow> ('i \<Rightarrow> 'h) \<Rightarrow> ((msg \<times> msg) list \<Rightarrow> bool) \<Rightarrow> ('i Iterator \<Rightarrow> ('v \<times> 'i Iterator) go) \<Rightarrow>
    ((msg \<times> msg) list \<Rightarrow> 'v) \<Rightarrow> bool" where
  "consumes_on R rest h ok f g \<longleftrightarrow> (\<forall>i0 it kvs rb xs. ok kvs \<and> Next R i0 = Ret (True, it) \<and> wire (MMap kvs) rb \<and> rest (it_r i0) = rb @ xs \<longrightarrow>
     (\<exists>it'. f it = Ret (g kvs, it') \<and> rest (it_r it') = xs \<and> h (it_r it') = h (it_r it)))"

abbreviation consumes :: "'i ring \<Rightarrow> ('i \<Rightarrow> bytes) \<Rightarrow> ('i \<Rightarrow> 'h) \<Rightarrow> ('i Iterator \<Rightarrow> ('v \<times> 'i Iterator) go) \<Rightarrow> ((msg \<times> msg) list \<Rightarrow> 'v) \<Rightarrow> bool" where
  "consumes R rest h f g \<equiv> consumes_on R rest h (\<lambda>_. True) f g"

lemma consumes_record:
  assumes "consumes_on R rest h ok f g" and "at_record R rest h it kvs P" and "ok kvs"
  obtains it' where "f it = Ret (g kvs, it')" "P it'"
  using assms unfolding consumes_on_def at_record_def by metis

lemma consume_reading:
  assumes "consumes_on (conn E) (conn_rest E) (\<lambda>_. ()) ok cR g" and "consumes_on (batch E) (batch_rest E) (after E) ok cQ g"
    and "reading E z skip n s src kvs out ack" and "ok kvs"
  obtains s' where "consume_record cR cQ src s = Ret (g kvs, s')" "standing E z skip n s' out ack" "t_acks (snd s') = t_acks (snd s)"
proof (cases src)
  case MainIter
  obtain it t where s: "s = (it, t)" by (cases s)
  with MainIter assms(3) have a: "at_record (conn E) (conn_rest E) (\<lambda>_. ()) it kvs (\<lambda>it'. standing E z skip n (it', t) out ack)"
    by (simp add: reading_def)
  obtain it' where "cR it = Ret (g kvs, it')" "standing E z skip n (it', t) out ack" by (rule consumes_record [OF assms(1) a assms(4)])
  with MainIter s show thesis by (intro that [of "(it', t)"]) (simp_all add: consume_record_def)
next
  case BatchIter
  obtain it t where s: "s = (it, t)" by (cases s)
  from BatchIter assms(3) s consider
    i where "t_mode t = PackedForwardMode" "pm_iter t = Some i" "at_record (batch E) (batch_rest E) (after E) i kvs (\<lambda>i'. standing E z skip n (it, t\<lparr>pm_iter := Some i'\<rparr>) out ack)"
  | i where "t_mode t = CompressedPackedForwardMode" "cm_iter t = Some i"
      "at_record (batch E) (batch_rest E) (after E) i kvs (\<lambda>i'. standing E z skip n (it, t\<lparr>cm_iter := Some i'\<rparr>) out ack)"
    by (auto simp: reading_def split: mode.splits option.splits)
  then show thesis
  proof cases
    case 1
    obtain i' where "cQ i = Ret (g kvs, i')" "standing E z skip n (it, t\<lparr>pm_iter := Some i'\<rparr>) out ack" by (rule consumes_record [OF assms(2) 1(3) assms(4)])
    with 1 BatchIter s show thesis by (intro that [of "(it, t\<lparr>pm_iter := Some i'\<rparr>)"]) (simp_all add: consume_record_def split: option.split)
  next
    case 2
    obtain i' where "cQ i = Ret (g kvs, i')" "standing E z skip n (it, t\<lparr>cm_iter := Some i'\<rparr>) out ack" by (rule consumes_record [OF assms(2) 2(3) assms(4)])
    with 2 BatchIter s show thesis by (intro that [of "(it, t\<lparr>cm_iter := Some i'\<rparr>)"]) (simp_all add: consume_record_def split: option.split)
  qed
qed

lemma read_entries_all:
  assumes E: "tenv_ok E" and c: "consumes (conn E) (conn_rest E) (\<lambda>_. ()) cR g" "consumes (batch E) (batch_rest E) (after E) cQ g"
    and z: "stops E z stop" and f: "2 * n + 2 \<le> f"
  shows "standing E z skip n s out ack \<Longrightarrow> length out < k \<Longrightarrow>
    \<exists>s'. read_entries (t_Next (conn E) (batch E) (readers E) skip f) cR cQ k s e =
      Ret (map (\<lambda>(tag, ts, kvs). (tag, ts, g kvs)) out, Some stop, s') \<and> t_acks (snd s') = t_acks (snd s) @ ack"
proof (induction k arbitrary: s out ack e)
  case (Suc k)
  let ?next = "t_Next (conn E) (batch E) (readers E) skip f"
  have y: "yields E z stop skip n f s out ack" by (rule standing_yields [OF E z Suc.prems(1) f])
  show ?case
  proof (cases out)
    case Nil
    with y obtain e' s' where "?next s e = Ret ((Some stop, e'), s')" "t_acks (snd s') = t_acks (snd s) @ ack"
      unfolding yields_def Nil list.case by blast
    with Nil show ?thesis by simp
  next
    case (Cons x out')
    obtain tag ts kvs where x: "x = (tag, ts, kvs)" by (metis prod_cases3)
    from y obtain e' s' a1 a2 where n: "?next s e = Ret ((None, e'), s')" "en_Tag e' = tag" "en_Timestamp e' = ts" "ack = a1 @ a2"
      "t_acks (snd s') = t_acks (snd s) @ a1" "reading E z skip n s' (en_Record e') kvs out' a2"
      unfolding yields_def Cons x list.case prod.case by blast
    obtain s2 where s2: "consume_record cR cQ (en_Record e') s' = Ret (g kvs, s2)" "standing E z skip n s2 out' a2" "t_acks (snd s2) = t_acks (snd s')"
      by (rule consume_reading [OF c n(6) TrueI])
    with Suc.IH [of s2 out' a2 e'] Suc.prems(2) Cons obtain s3 where
      "read_entries ?next cR cQ k s2 e' = Ret (map (\<lambda>(tag, ts, kvs). (tag, ts, g kvs)) out', Some stop, s3)" "t_acks (snd s3) = t_acks (snd s2) @ a2" by auto
    with n s2 Cons x show ?thesis by auto
  qed
qed simp

subsection \<open>Skipping the records\<close>

text \<open>\<open>Skip\<close> with fuel for all that is to come; it consumes a record on any ring that keeps \<open>h\<close>.\<close>

definition skip_record :: "'i ring \<Rightarrow> ('i \<Rightarrow> bytes) \<Rightarrow> 'i Iterator \<Rightarrow> (unit \<times> 'i Iterator) go" where
  "skip_record R rest it = do { it' \<leftarrow> Skip R (length (rest (it_r it)) + 5) it; Ret ((), it') }"

definition nonneg_after :: "'i ring \<Rightarrow> bool" where
  "nonneg_after R \<longleftrightarrow> (\<forall>i i'. Next R i = Ret (True, i') \<longrightarrow> 0 \<le> it_length i')"

lemma Skip_keeps_aux:
  "keeps R h \<Longrightarrow> nonneg_after R \<Longrightarrow> 0 \<le> it_length it \<Longrightarrow> Skip R fuel it = Ret it' \<Longrightarrow> h (it_r it') = h (it_r it)"
  "keeps R h \<Longrightarrow> nonneg_after R \<Longrightarrow> Skip_items R fuel n it = Ret it' \<Longrightarrow> h (it_r it') = h (it_r it)"
proof (induction R fuel it and R fuel n it arbitrary: it' and it' rule: Skip_Skip_items.induct)
  case (2 R fuel it)
  have "h (Discard R (it_r it) (it_length it)) = h (it_r it)" using "2.prems"(1,3) by (simp add: keeps_def)
  then show ?case using "2.IH"(1) [OF refl _ "2.prems"(1,2)] "2.IH"(2) [OF refl _ _ "2.prems"(1,2)] "2.IH"(3) [OF refl _ _ "2.prems"(1,2)] "2.prems"(4)
    by (simp add: Let_def del: Skip_items.simps split: if_splits)
next
  case (4 R fuel n it)
  from "4.prems"(3) obtain b it1 where n: "Next R it = Ret (b, it1)" by (cases "Next R it") auto
  have k: "h (it_r it1) = h (it_r it)" by (rule Next_keeps [OF "4.prems"(1) n])
  show ?case
  proof (cases b)
    case True
    with n "4.prems"(3) obtain it2 where s: "Skip R fuel it1 = Ret it2" "Skip_items R fuel n it2 = Ret it'"
      by (cases "Skip R fuel it1") (simp_all del: Skip.simps)
    have l: "0 \<le> it_length it1" using "4.prems"(2) n True by (simp add: nonneg_after_def)
    have "h (it_r it2) = h (it_r it1)" by (rule "4.IH"(1) [OF n refl _ "4.prems"(1,2) l s(1)]) (use True in simp)
    moreover have "h (it_r it') = h (it_r it2)" by (rule "4.IH"(2) [OF n refl _ s(1) "4.prems"(1,2) s(2)]) (use True in simp)
    ultimately show ?thesis using k by simp
  next
    case False
    with n "4.prems"(3) k show ?thesis by auto
  qed
qed auto

lemma skip_record_consumes:
  assumes R: "ring_contract R rest limit" and h: "keeps R h" and "nonneg_after R"
  shows "consumes R rest h (skip_record R rest) (\<lambda>_. ())"
  unfolding consumes_on_def
proof (intro allI impI, elim conjE)
  fix i0 it kvs rb xs assume n: "Next R i0 = Ret (True, it)" "wire (MMap kvs) rb" "rest (it_r i0) = rb @ xs"
  obtain c lb k body where b: "rb = c # lb @ body" "header c lb MapT (len kvs) k" by (rule wire_MMap_head [OF n(2)])
  with n(3) have r0: "rest (it_r i0) = c # lb @ (body @ xs)" by simp
  obtain r where t: "Next R i0 = Ret (True, token i0 c MapT (len kvs) r)" "rest r = body @ xs" by (rule Next_header [OF R r0 b(2)])
  then have it: "it = token i0 c MapT (len kvs) r" using n(1) by simp
  have "length lb \<le> 4" using b(2) Get_len_le(2) by (fastforce simp: header_def split: prod.splits if_splits)
  then have l: "length (rest (it_r i0)) \<le> length (rest (it_r it)) + 5" using r0 it t(2) by simp
  obtain it1 it2 where s: "Next R i0 = Ret (True, it1)" "Skip R (length (rest (it_r it)) + 5) it1 = Ret it2" "rest (it_r it2) = xs"
    using wire_skips [OF R n(2)] n(3) l unfolding skips_def by blast
  then have "Skip R (length (rest (it_r it)) + 5) it = Ret it2" using n(1) by simp
  with Skip_keeps_aux(1) [OF h assms(3) _ this] s(3) it show "\<exists>it'. skip_record R rest it = Ret ((), it') \<and> rest (it_r it') = xs \<and> h (it_r it') = h (it_r it)"
    by (simp add: skip_record_def)
qed

lemma ring_nonneg_after: "ring_contract R rest limit \<Longrightarrow> nonneg_after R"
  unfolding nonneg_after_def
proof (intro allI impI)
  fix i i' assume R: "ring_contract R rest limit" and n: "Next R i = Ret (True, i')"
  let ?i = "i\<lparr>it_length := 0, it_items := 0\<rparr>"
  have "Next R ?i = Ret (True, i')"
    using n by (auto simp: Next_def Let_def split: prod.splits if_splits bind_split_asm)
  then show "0 \<le> it_length i'" using Next_total [OF R, of ?i] by (auto simp: iter_ok_def)
qed

subsection \<open>The environment on lists\<close>

definition list_env :: "int \<Rightarrow> (bytes \<Rightarrow> bytes option) \<Rightarrow> (bytes, bytes \<times> bytes) tenv" where
  "list_env limit uz =
     \<lparr> conn = list_ring limit, conn_rest = (\<lambda>r. r), conn_limit = limit, batch = pair_ring limit, batch_rest = fst,
       batch_limit = limit, after = snd, unzip = uz, readers = list_sub uz \<rparr>"

lemma list_env_sel [simp]:
  "conn (list_env limit uz) = list_ring limit" "conn_rest (list_env limit uz) = (\<lambda>r. r)" "conn_limit (list_env limit uz) = limit"
  "batch (list_env limit uz) = pair_ring limit" "batch_rest (list_env limit uz) = fst" "batch_limit (list_env limit uz) = limit"
  "after (list_env limit uz) = snd" "unzip (list_env limit uz) = uz" "readers (list_env limit uz) = list_sub uz"
  by (simp_all add: list_env_def)

lemma pair_ring_keeps: "keeps (pair_ring limit) snd"
  by (auto simp: keeps_def pair_ring_def split: prod.split)

lemma list_env_ok: "9 \<le> limit \<Longrightarrow> tenv_ok (list_env limit uz)"
  unfolding tenv_ok_def list_env_sel
  by (intro conjI list_ring_contract pair_ring_contract pair_ring_keeps)
    (auto simp: ends_def list_ring_def pair_ring_def list_sub_def)

lemma list_consumes:
  assumes "9 \<le> limit"
  shows "consumes (list_ring limit) (\<lambda>r. r) (\<lambda>_. ()) (skip_record (list_ring limit) (\<lambda>r. r)) (\<lambda>_. ())"
    and "consumes (pair_ring limit) fst snd (skip_record (pair_ring limit) fst) (\<lambda>_. ())"
  by (rule skip_record_consumes [OF list_ring_contract keeps_unit ring_nonneg_after [OF list_ring_contract]]; rule assms)
    (rule skip_record_consumes [OF pair_ring_contract pair_ring_keeps ring_nonneg_after [OF pair_ring_contract]]; rule assms)

lemma session_stops:
  assumes "tenv_ok E" and "consumes (conn E) (conn_rest E) (\<lambda>_. ()) cR g" and "consumes (batch E) (batch_rest E) (after E) cQ g"
    and "stops E z stop" and "list_all2 (fmsg_wire (conn_limit E) (unzip E)) ms bss" and "conn_rest E rd = concat bss @ z" and "length (concat bss @ z) \<le> skip"
    and "2 * length ms + 2 \<le> fuel" and "length (concat (map entries_of ms)) < k"
  shows "\<exists>s'. read_entries (t_Next (conn E) (batch E) (readers E) skip fuel) cR cQ k (NewIterator rd, Init []) e =
      Ret (map (\<lambda>(tag, ts, kvs). (tag, ts, g kvs)) (concat (map entries_of ms)), Some stop, s') \<and>
    t_acks (snd s') = concat (map acks_of ms)"
proof -
  have "standing E z skip (length ms) (NewIterator rd, Init []) (concat (map entries_of ms)) (concat (map acks_of ms))"
    using assms(5-7) unfolding standing_def messages_left_def by (auto simp: Init_def)
  from read_entries_all [OF assms(1-4,8) this assms(9), of e] show ?thesis by (simp add: Init_def)
qed

lemma session_delivers:
  assumes "tenv_ok E" and "consumes (conn E) (conn_rest E) (\<lambda>_. ()) cR g" and "consumes (batch E) (batch_rest E) (after E) cQ g"
    and "list_all2 (fmsg_wire (conn_limit E) (unzip E)) ms bss" and "conn_rest E rd = concat bss" and "length (concat bss) \<le> skip"
    and "2 * length ms + 2 \<le> fuel" and "length (concat (map entries_of ms)) < k"
  shows "\<exists>s'. read_entries (t_Next (conn E) (batch E) (readers E) skip fuel) cR cQ k (NewIterator rd, Init []) e =
      Ret (map (\<lambda>(tag, ts, kvs). (tag, ts, g kvs)) (concat (map entries_of ms)), Some T_EOF, s') \<and>
    t_acks (snd s') = concat (map acks_of ms)"
  using session_stops [OF assms(1-3) stops_end [OF assms(1)] assms(4), of rd skip fuel k e] assms(5-8) by simp

subsection \<open>Messages from their trees\<close>

lemma wire_time: "wire (MTime t f) bs \<Longrightarrow> time_wire t bs"
proof -
  assume "wire (MTime t f) bs"
  then obtain c lb body k where "bs = c # lb @ body" "header c lb ExtT (len body) k" "readTimeUnsafe c body = Ret t" "len body \<le> 9"
    by (auto elim!: wire_E)
  then show ?thesis unfolding time_wire_def by blast
qed

lemma wire_event:
  assumes "wire (MArray [MTime t f, MMap kvs]) bs"
  shows "event_wire (t, kvs) bs"
proof -
  from assms obtain c lb k sb rb where b: "bs = c # lb @ sb @ rb" "header c lb ArrayT 2 k" "wire (MTime t f) sb" "wire (MMap kvs) rb"
    by (auto elim!: wire_ArrayE simp: list_all2_Cons1)
  show ?thesis unfolding event_wire_def fst_conv snd_conv using b(1,2,4) wire_time [OF b(3)] by blast
qed

lemma wire_head:
  assumes "header c lb ArrayT n k" and "wire (MStr tag) tb" and "1 \<le> len tag" and "len tag \<le> 64" and "len tag \<le> limit"
  shows "head_wire limit n tag (c # lb @ tb)"
  using assms unfolding head_wire_def by blast

lemma wire_Single:
  assumes "wire (MArray [MStr tag, MTime t f, MMap kvs]) bs" and "1 \<le> len tag" and "len tag \<le> 64" and "len tag \<le> limit"
  shows "fmsg_wire limit uz (Single tag (t, kvs)) bs"
proof -
  from assms(1) obtain c lb k tb sb rb where b: "bs = c # lb @ tb @ sb @ rb" "header c lb ArrayT 3 k"
    "wire (MStr tag) tb" "wire (MTime t f) sb" "wire (MMap kvs) rb"
    by (auto elim!: wire_ArrayE simp: list_all2_Cons1)
  note h = wire_head [OF b(2,3) assms(2-4)]
  show ?thesis unfolding fmsg_wire.simps fst_conv snd_conv
    by (rule exI [of _ "c # lb @ tb"], rule exI [of _ sb], rule exI [of _ rb]) (use b h wire_time in simp)
qed

lemma wire_batch:
  assumes "wire (MArray [MStr tag, MBin z, options_msg opts]) bs" and "1 \<le> len tag" and "len tag \<le> 64" and "len tag \<le> limit"
    and "\<forall>kv \<in> set opts. option_ok limit kv"
  obtains hb zb ob where "bs = hb @ zb @ ob" "head_wire limit 3 tag hb" "wire (MBin z) zb" "options_wire limit (Some opts) ob"
proof -
  from assms(1) obtain c lb k tb zb ob where b: "bs = c # lb @ tb @ zb @ ob" "header c lb ArrayT 3 k"
    "wire (MStr tag) tb" "wire (MBin z) zb" "wire (options_msg opts) ob"
    by (auto elim!: wire_ArrayE simp: list_all2_Cons1)
  note h = wire_head [OF b(2,3) assms(2-4)]
  show thesis by (rule that [of "c # lb @ tb" zb ob]) (use b h assms(5) in \<open>simp_all add: options_wire_def\<close>)
qed

lemma wire_Packed:
  assumes "wire (MArray [MStr tag, MBin (concat ebs), options_msg opts]) bs" and "1 \<le> len tag" and "len tag \<le> 64" and "len tag \<le> limit"
    and "\<forall>kv \<in> set opts. option_ok limit kv" and "evs \<noteq> []" and "list_all2 event_wire evs ebs"
  shows "fmsg_wire limit uz (Packed tag evs (Some opts)) bs"
proof -
  obtain hb zb ob where b: "bs = hb @ zb @ ob" "head_wire limit 3 tag hb" "wire (MBin (concat ebs)) zb" "options_wire limit (Some opts) ob"
    by (rule wire_batch [OF assms(1-5)])
  show ?thesis unfolding fmsg_wire.simps
    by (rule exI [of _ hb], rule exI [of _ zb], rule exI [of _ ebs], rule exI [of _ ob]) (use b assms(6,7) in simp)
qed

lemma wire_Compressed:
  assumes "wire (MArray [MStr tag, MBin z, options_msg opts]) bs" and "1 \<le> len tag" and "len tag \<le> 64" and "len tag \<le> limit"
    and "\<forall>kv \<in> set opts. option_ok limit kv" and "gzip_magic z" and "uz z = Some (concat ebs)" and "list_all2 event_wire evs ebs"
  shows "fmsg_wire limit uz (Compressed tag evs (Some opts)) bs"
proof -
  obtain hb zb ob where b: "bs = hb @ zb @ ob" "head_wire limit 3 tag hb" "wire (MBin z) zb" "options_wire limit (Some opts) ob"
    by (rule wire_batch [OF assms(1-5)])
  show ?thesis unfolding fmsg_wire.simps
    by (rule exI [of _ hb], rule exI [of _ z], rule exI [of _ zb], rule exI [of _ ebs], rule exI [of _ ob]) (use b assms(6-8) in simp)
qed

text \<open>Two messages: a single entry, and a compressed batch of two with a chunk.\<close>

definition sample_event :: event where
  "sample_event = (time_Unix 7 0, [(MStr [0x6b], MInt 3)])"

definition sample_bytes :: bytes where
  "sample_bytes = encode (MArray [MTime (time_Unix 7 0) [TsFluentd], MMap [(MStr [0x6b], MInt 3)]])"

definition sample_stream :: "bytes list" where
  "sample_stream =
     [encode (MArray [MStr [0x74], MTime (time_Unix 7 0) [TsFluentd], MMap [(MStr [0x6b], MInt 3)]]),
      encode (MArray [MStr [0x75], MBin ([0x1f, 0x8b, 8] @ sample_bytes @ sample_bytes), options_msg [(chunk_key, MStr [1, 2])]])]"

lemma sample_time: "ts_valid [TsFluentd] (time_Unix 7 0)" "ts_format (time_Unix 7 0) [TsFluentd] = TsFluentd"
  by (simp_all add: ts_valid_def ts_format_def time_Unix_def time_ok_def)

lemma sample_event: "event_wire sample_event sample_bytes"
  unfolding sample_event_def sample_bytes_def
  by (rule wire_event [of _ "[TsFluentd]"], rule encode_wire) (simp add: sample_time)

lemma sample_length: "length sample_bytes = 15"
  by (simp add: sample_bytes_def AppendTimestamp_def ts_format_def AppendArrayHeader_def AppendMapHeader_def AppendString_def AppendInt_def AppendUint_def Let_def)

subsection \<open>Properties\<close>


lemma sample_messages:
  assumes "9 \<le> limit"
  shows "list_all2 (fmsg_wire limit list_unzip)
    [Single [0x74] sample_event, Compressed [0x75] [sample_event, sample_event] (Some [(chunk_key, MStr [1, 2])])] sample_stream"
proof -
  let ?z = "[0x1f, 0x8b, 8] @ sample_bytes @ sample_bytes" and ?opts = "[(chunk_key, MStr [1, 2])]"
  have 1: "fmsg_wire limit list_unzip (Single [0x74] sample_event) (sample_stream ! 0)"
    unfolding sample_event_def sample_stream_def using assms by (simp del: encode.simps fmsg_wire.simps)
      (rule wire_Single [of _ _ "[TsFluentd]"], rule encode_wire, simp_all add: sample_time)
  have 2: "fmsg_wire limit list_unzip (Compressed [0x75] [sample_event, sample_event] (Some ?opts)) (sample_stream ! 1)"
    by (rule wire_Compressed [where z = ?z and ebs = "[sample_bytes, sample_bytes]"])
      (use assms in \<open>simp_all add: encode_wire sample_stream_def sample_length sample_event option_ok_def list_unzip_def gzip_magic_def text_bytes_def del: encode.simps\<close>)
  show ?thesis using 1 2 by (simp add: sample_stream_def del: encode.simps fmsg_wire.simps)
qed


text \<open>
  C36. A single entry with options is refused: a well-formed message [tag, time, record, options] makes
  \<open>Next\<close> return an error, unless its record is empty or starts with a key that is a map, because the options
  are read before the record is consumed (the error is that of the family of the record's first key).
\<close>

theorem message_options_before_record:
  assumes R: "ring_contract R rest limit" and "head_wire limit 4 tag hb" and "time_wire ts sb" and "wire (MMap ((key, v) # kvs)) rb"
    and "msg_type key \<noteq> MapT" and "rest (it_r it) = hb @ sb @ rb @ xs" and "t_mode t = MessageMode"
  shows "\<exists>c e' it'. t_Next R Q S skip (Suc fuel) (it, t) e =
    Ret ((Some (ModeErr MessageMode ''ack'' (IterErr (ExpectedAnyOf [MapT] (msg_type key) c))), e'), it', t)"
proof -
  obtain i1 where 1: "message_head R (it, t) = Ret (Inr (4, tag), i1)" "rest (it_r i1) = sb @ rb @ xs"
    by (rule read_head [OF R assms(2,6), of t]) simp_all
  obtain i2 i3 where 2: "Next R i1 = Ret (True, i2)" "it_typ i2 \<in> {ExtT, IntT, UintT}" "iter_Time R i2 = Ret (ts, i3)" "rest (it_r i3) = rb @ xs"
    by (rule read_Time [OF R keeps_unit assms(3) 1(2)])
  from assms(4) obtain c lb k kb ys where b: "rb = c # lb @ kb @ ys" "header c lb MapT (len ((key, v) # kvs)) k" "wire key kb"
    by (auto elim!: wire_MapE simp: list_all2_Cons1)
  with 2(4) have r3: "rest (it_r i3) = c # lb @ (kb @ ys @ xs)" by simp
  obtain q where 3: "Next R i3 = Ret (True, token i3 c MapT (len ((key, v) # kvs)) q)" "rest q = kb @ ys @ xs" by (rule Next_header [OF R r3 b(2)])
  let ?i4 = "token i3 c MapT (len ((key, v) # kvs)) q"
  have "rest (it_r ?i4) = kb @ (ys @ xs)" using 3(2) by simp
  from Next_wire [OF R b(3) this] obtain c' l q' where 4: "Next R ?i4 = Ret (True, token ?i4 c' (msg_type key) l q')" by metis
  have "handleOptions R skip (?i4, t) = Ret (Some (ModeErr MessageMode ''ack'' (IterErr (ExpectedAnyOf [MapT] (msg_type key) c'))), token ?i4 c' (msg_type key) l q', t)"
    using NextExpectedType_token [OF 4, of "[MapT]"] assms(5,7) by (simp add: handleOptions_def errorNoEof_def)
  then show ?thesis using assms(7) 1(1) 2(1-3) NextExpectedType_token [OF 3(1), of "[MapT]"]
    by (auto simp: message_Next_def Let_def)
qed

lemma message_options_before_record_witness:
  "\<exists>c e' it'. t_Next (list_ring 64) (pair_ring 64) (list_sub list_unzip) 64 1
    (NewIterator (encode (MArray [MStr [0x74], MTime (time_Unix 7 0) [TsFluentd], MMap [(MStr [0x6b], MInt 3)], options_msg [(chunk_key, MStr [1])]])), Init []) empty_Entry =
    Ret ((Some (ModeErr MessageMode ''ack'' (IterErr (ExpectedAnyOf [MapT] StrT c))), e'), it', Init [])"
proof -
  let ?t = "encode (MTime (time_Unix 7 0) [TsFluentd])" and ?r = "encode (MMap [(MStr [0x6b], MInt 3)])"
  obtain c lb where h: "AppendArrayHeader [] 4 = c # lb" "header c lb ArrayT 4 (header_count 4)" by (rule header_array [of 4]) simp_all
  have "wire (MStr [0x74]) (encode (MStr [0x74]))" by (rule encode_wire) simp
  from wire_head [OF h(2) this] have h4: "head_wire 64 4 [0x74] (AppendArrayHeader [] 4 @ encode (MStr [0x74]))" using h(1) by simp
  have w: "time_wire (time_Unix 7 0) ?t" by (rule wire_time, rule encode_wire) (simp add: sample_time)
  have r: "wire (MMap [(MStr [0x6b], MInt 3)]) ?r" by (rule encode_wire) simp
  show ?thesis
    using message_options_before_record [OF list_ring_contract h4 w r, of "NewIterator (encode (MArray [MStr [0x74], MTime (time_Unix 7 0) [TsFluentd],
        MMap [(MStr [0x6b], MInt 3)], options_msg [(chunk_key, MStr [1])]]))" "encode (options_msg [(chunk_key, MStr [1])])" "Init []" "pair_ring 64" "list_sub list_unzip" 64 0 empty_Entry]
    by (simp add: Init_def)
qed

end
