(* ===== verification/EndToEnd.thy ===== *)
theory EndToEnd
  imports Instance Queue Client Delivery
begin

text \<open>
  The parts together: a log call, the client, the fallback buffer and the transport phase of the server at
  the other end of the connection.
\<close>

subsection \<open>A connected client\<close>

lemma Client_Write_sends:
  assumes "c_conn c = Some i" and "i < length (sent n)" and "set (writes n) \<subseteq> {None}"
  obtains n' where "Client_Write kept R sha opt b c n = Ret ((len b, None), c, n')" "sent n' = (sent n)[i := sent n ! i @ b]"
proof -
  obtain k err n' where w: "conn_Write i b n = ((k, err), n')" by (metis prod.exhaust)
  have "err = None \<and> k = len b" using w assms(3) by (cases "writes n") (auto simp: conn_Write_def split: option.splits)
  with w conn_Write_delivers [OF w] show thesis
    by (intro that [of n']) (auto simp: Client_Write_def ensureConnection_def assms(1) delivers_def)
qed

text \<open>\<open>arrived i n n'\<close>: what the peer of the connection \<open>i\<close> has to read that was sent between two states of the net.\<close>

definition arrived :: "nat \<Rightarrow> 'r net \<Rightarrow> 'r net \<Rightarrow> bytes" where
  "arrived i n n' = drop (length (sent n ! i)) (sent n' ! i)"

lemma arrived_sent: "i < length (sent n) \<Longrightarrow> sent n' = (sent n)[i := sent n ! i @ b] \<Longrightarrow> arrived i n n' = b"
  by (simp add: arrived_def)

text \<open>What a session reads of a stream that starts with the message \<open>m\<close>.\<close>

lemma message_arrives:
  assumes "tenv_ok E" and "consumes (conn E) (conn_rest E) (\<lambda>_. ()) cR g" and "consumes (batch E) (batch_rest E) (after E) cQ g"
    and "fmsg_wire (conn_limit E) (unzip E) m b" and "list_all2 (fmsg_wire (conn_limit E) (unzip E)) ms bss"
    and "conn_rest E rd = b @ concat bss" and "length (b @ concat bss) \<le> skip" and "2 * length ms + 4 \<le> fuel"
    and "length (entries_of m @ concat (map entries_of ms)) < k"
  shows "\<exists>s'. read_entries (t_Next (conn E) (batch E) (readers E) skip fuel) cR cQ k (NewIterator rd, Init []) e =
      Ret (map (\<lambda>(tag, ts, kvs). (tag, ts, g kvs)) (entries_of m @ concat (map entries_of ms)), Some T_EOF, s')"
  using session_delivers [OF assms(1-3), where ms = "m # ms" and bss = "b # bss" and rd = rd and skip = skip and fuel = fuel and k = k and e = e]
    assms(4-9) by (simp del: fmsg_wire.simps) blast

subsection \<open>Properties\<close>

text \<open>
  From the log call to the server. What \<open>log\<close> queues for a call, sent by a connected client, arrives as one entry of the
  transport phase with exactly the tag of the logger, the time of the id, and the fields that the call means, in order;
  the messages that follow it on the connection are read after it.
\<close>

theorem logged_entry_arrives:
  assumes "(if sprintf then countFmtArgs msg else Ret 0) = Ret n" and "0 \<le> n" and "n \<le> len args"
    and "message_text F msg n args str" and "len str < 2 ^ 32"
    and "ts_valid [TsFluentd] (id_Time i)"
    and "pairs_wire extra extraData" and "extraCount = of_nat (length extra)"
    and "args_add (env_json F) [] (drop (nat n) args) kvs" and "length (env_frames F) \<le> 15"
    and "all = base_fields (id_Uint64 i) sev str @ extra @ kvs @ stack_fields opt sev (env_frames F)"
    and "length all < 256"
    and "1 \<le> len (opt_Tag opt)" "len (opt_Tag opt) \<le> 64" "len (opt_Tag opt) \<le> conn_limit E"
    and "c_conn c = Some j" "j < length (sent net)" "set (writes net) \<subseteq> {None}"
    and "tenv_ok E" and "consumes (conn E) (conn_rest E) (\<lambda>_. ()) cR g" and "consumes (batch E) (batch_rest E) (after E) cQ g"
  shows "\<exists>b net'. log F opt False i sev msg args sprintf extraData extraCount = Ret (Some b) \<and>
    Client_Write kept R sha copt b c net = Ret ((len b, None), c, net') \<and>
    (\<forall>rd ms bss. list_all2 (fmsg_wire (conn_limit E) (unzip E)) ms bss \<and> conn_rest E rd = arrived j net net' @ concat bss \<longrightarrow>
      (\<forall>k > 1 + length (concat (map entries_of ms)). \<exists>s'.
        read_entries (t_Next (conn E) (batch E) (readers E) (length (conn_rest E rd)) (2 * length ms + 4)) cR cQ k (NewIterator rd, Init []) e =
        Ret ((opt_Tag opt, id_Time i, g all) # map (\<lambda>(tag, ts, kvs). (tag, ts, g kvs)) (concat (map entries_of ms)), Some T_EOF, s')))"
proof -
  have "len (opt_Tag opt) < 2 ^ 32" using assms(14) by simp
  from log_wire [OF assms(1-5) this assms(6-12)] obtain b where b: "log F opt False i sev msg args sprintf extraData extraCount = Ret (Some b)"
    "wire (MArray [MStr (opt_Tag opt), MTime (id_Time i) [TsFluentd], MMap all]) b" by blast
  obtain net' where w: "Client_Write kept R sha copt b c net = Ret ((len b, None), c, net')" "sent net' = (sent net)[j := sent net ! j @ b]"
    by (rule Client_Write_sends [OF assms(16-18)])
  note m = wire_Single [OF b(2) assms(13-15)]
  show ?thesis
    by (rule exI [of _ b], rule exI [of _ net'])
      (use b w message_arrives [OF assms(19-21) m] arrived_sent [OF assms(17) w(2)] in auto)
qed

text \<open>
  C10. From the fallback buffer to the server. When the entries \<open>evs\<close> are what the buffer holds for reading, flushing
  it through a connected client whose connection works empties it, and the compressed batch that the connection
  carries arrives as exactly those entries under the tag, in order, then the end of the stream; gzip is
  assumed to decompress what it compressed.
\<close>

theorem flushed_batch_arrives:
  assumes "holds gz d rs ws" and "files (d_os d) (wName d) \<noteq> None" and "concat ws = concat ebs" and "list_all2 event_wire evs ebs"
    and "\<forall>z. gz_file gz ws z \<longrightarrow> gzip_magic z \<and> unzip E z = Some (concat ws)"
    and "c_conn c = Some j" "wr_w (c_w c) = Some j" "buf_B (c_w c) = []" "j < length (sent net)" "set (writes net) \<subseteq> {None}"
    and "1 \<le> len tag" "len tag \<le> 64" "10 \<le> conn_limit E" "len tag \<le> conn_limit E"
    and "tenv_ok E" and "consumes (conn E) (conn_rest E) (\<lambda>_. ()) cR g" and "consumes (batch E) (batch_rest E) (after E) cQ g"
    and "length evs < k"
  shows "\<exists>z d' c' net'. DirBuffer_Reader gz (client_batch kept spare R sha opt tag) d (c, net) = (None, d', (c', net')) \<and>
    holds gz d' [] rs \<and> gz_file gz ws z \<and>
    (len z < 2 ^ 32 \<longrightarrow> (\<forall>rd. conn_rest E rd = arrived j net net' \<longrightarrow> (\<exists>s'.
      read_entries (t_Next (conn E) (batch E) (readers E) (length (conn_rest E rd)) 4) cR cQ k (NewIterator rd, Init []) e =
      Ret (map (\<lambda>(ts, kvs). (tag, ts, g kvs)) evs, Some T_EOF, s'))))"
proof -
  obtain z x d' err c' net' where r: "gz_file gz ws z"
    "DirBuffer_Reader gz (client_batch kept spare R sha opt tag) d (c, net) = (x, d', (c', net'))"
    "delivers j (encode (batch_msg tag z)) net err net'" "(x = None) = (err = None)" "holds gz d' (if x = None then [] else ws) rs"
    by (rule flush_delivers [OF assms(1,2,6-9)])
  from r(3) assms(10) have s: "err = None" "sent net' = (sent net)[j := sent net ! j @ encode (batch_msg tag z)]"
    unfolding delivers_def by auto
  let ?opts = "[(text_bytes ''compressed'', MStr (text_bytes ''gzip''))]"
  have m: "fmsg_wire (conn_limit E) (unzip E) (Compressed tag evs (Some ?opts)) (encode (batch_msg tag z))" if "len z < 2 ^ 32"
  proof (rule wire_Compressed [OF _ assms(11,12,14) _ _ _ assms(4)])
    show "wire (MArray [MStr tag, MBin z, options_msg ?opts]) (encode (batch_msg tag z))"
      using batch_msg_wire [OF _ that, of tag] assms(12) by (simp add: batch_msg_def)
    show "\<forall>kv \<in> set ?opts. option_ok (conn_limit E) kv" using assms(13) by (simp add: option_ok_def text_bytes_def)
    show "gzip_magic z" "unzip E z = Some (concat ebs)" using assms(3,5) r(1) by simp_all
  qed
  have "\<exists>s'. read_entries (t_Next (conn E) (batch E) (readers E) (length (conn_rest E rd)) 4) cR cQ k (NewIterator rd, Init []) e =
      Ret (map (\<lambda>(ts, kvs). (tag, ts, g kvs)) evs, Some T_EOF, s')"
    if "len z < 2 ^ 32" "conn_rest E rd = encode (batch_msg tag z)" for rd
    using message_arrives [OF assms(15-17) m [OF that(1)], of "[]" "[]" rd "length (conn_rest E rd)" 4 k e] that(2) assms(18)
    by (simp add: comp_def case_prod_beta')
  with r s arrived_sent [OF assms(9) s(2)] show ?thesis by auto
qed

lemma logged_entry_arrives_witness:
  "\<exists>b net' s'. log \<lparr>env_Appendf = \<lambda>dst _ _. dst, env_json = \<lambda>_ _. None, env_frames = []\<rparr>
      \<lparr>opt_Tag = [0x74], opt_BufferSize = 1, opt_WriteBehavior = Block, opt_StackTraceThreshold = CRIT\<rparr> False
      \<lparr>id_Time = time_Unix 1000 5, id_Uint64 = 77\<rparr> ERR [0x68, 0x69] [] False [] 0 = Ret (Some b) \<and>
    Client_Write (\<lambda>b k. b) (list_ring 9) (\<lambda>b. b) \<lparr>o_Hostname = [], o_Auth = Inl []\<rparr> b
      ((NewClient [])\<lparr>c_conn := Some 0, c_w := NewWriter (Some 0)\<rparr>) \<lparr>dials = [], writes = [], closes = [], salts = [], sent = [[1]]\<rparr> =
      Ret ((len b, None), (NewClient [])\<lparr>c_conn := Some 0, c_w := NewWriter (Some 0)\<rparr>, net') \<and>
    read_entries (t_Next (list_ring 64) (pair_ring 64) (list_sub list_unzip)
        (length (arrived 0 \<lparr>dials = [] :: bytes option list, writes = [], closes = [], salts = [], sent = [[1]]\<rparr> net')) 4)
      (skip_record (list_ring 64) (\<lambda>r. r)) (skip_record (pair_ring 64) fst) 2
      (NewIterator (arrived 0 \<lparr>dials = [], writes = [], closes = [], salts = [], sent = [[1]]\<rparr> net'), Init []) empty_Entry =
      Ret ([([0x74], time_Unix 1000 5, ())], Some T_EOF, s')"
proof -
  let ?F = "\<lparr>env_Appendf = \<lambda>dst _ _. dst, env_json = \<lambda>_ _. None, env_frames = []\<rparr>"
  let ?opt = "\<lparr>opt_Tag = [0x74], opt_BufferSize = 1, opt_WriteBehavior = Block, opt_StackTraceThreshold = CRIT\<rparr>"
  let ?i = "\<lparr>id_Time = time_Unix 1000 5, id_Uint64 = 77\<rparr>"
  let ?c = "(NewClient [])\<lparr>c_conn := Some 0, c_w := NewWriter (Some 0)\<rparr> :: bytes Client"
  let ?net = "\<lparr>dials = [], writes = [], closes = [], salts = [], sent = [[1]]\<rparr> :: bytes net"
  let ?all = "base_fields (id_Uint64 ?i) ERR [0x68, 0x69] @ [] @ [] @ stack_fields ?opt ERR (env_frames ?F)"
  have a: "args_add (env_json ?F) [] (drop (nat 0) []) []" by (simp add: args_add_def)
  have x: "pairs_wire [] []" by (simp add: pairs_wire_def)
  have t: "ts_valid [TsFluentd] (id_Time ?i)" by (simp add: ts_valid_def ts_format_def time_Unix_def time_ok_def)
  have m: "message_text ?F [0x68, 0x69] 0 [] [0x68, 0x69]" by (simp add: message_text_def)
  have s: "length ?all < 256" by (simp add: stack_fields_def less_eq_Severity_def)
  obtain b net' where b: "log ?F ?opt False ?i ERR [0x68, 0x69] [] False [] 0 = Ret (Some b)"
    "Client_Write (\<lambda>b k. b) (list_ring 9) (\<lambda>b. b) \<lparr>o_Hostname = [], o_Auth = Inl []\<rparr> b ?c ?net = Ret ((len b, None), ?c, net')"
    "\<And>rd ms bss. list_all2 (fmsg_wire 64 list_unzip) ms bss \<and> rd = arrived 0 ?net net' @ concat bss \<Longrightarrow>
      \<forall>k > 1 + length (concat (map entries_of ms)). \<exists>s'.
        read_entries (t_Next (list_ring 64) (pair_ring 64) (list_sub list_unzip) (length rd) (2 * length ms + 4))
          (skip_record (list_ring 64) (\<lambda>r. r)) (skip_record (pair_ring 64) fst) k (NewIterator rd, Init []) empty_Entry =
        Ret (([0x74], time_Unix 1000 5, ()) # map (\<lambda>(tag, ts, kvs). (tag, ts, ())) (concat (map entries_of ms)), Some T_EOF, s')"
    using logged_entry_arrives [where F = ?F and opt = ?opt and i = ?i and sev = ERR and sprintf = False and msg = "[0x68, 0x69]" and n = 0 and args = "[]"
        and extra = "[]" and extraData = "[]" and extraCount = 0 and kvs = "[]" and str = "[0x68, 0x69]" and c = ?c and j = 0 and net = ?net
        and E = "list_env 64 list_unzip" and cR = "skip_record (list_ring 64) (\<lambda>r. r)" and cQ = "skip_record (pair_ring 64) fst" and g = "\<lambda>_. ()"
        and kept = "\<lambda>b k. b" and R = "list_ring 9" and sha = "\<lambda>b. b" and copt = "\<lparr>o_Hostname = [], o_Auth = Inl []\<rparr>" and e = empty_Entry,
        OF _ _ _ m _ t x _ a _ refl s _ _ _ _ _ _ list_env_ok] list_consumes [of 64]
    by (simp add: NewClient_def) blast
  from b(3) [of "[]" "[]" "arrived 0 ?net net'"] have "\<exists>s'. read_entries (t_Next (list_ring 64) (pair_ring 64) (list_sub list_unzip) (length (arrived 0 ?net net')) 4)
      (skip_record (list_ring 64) (\<lambda>r. r)) (skip_record (pair_ring 64) fst) 2 (NewIterator (arrived 0 ?net net'), Init []) empty_Entry =
      Ret ([([0x74], time_Unix 1000 5, ())], Some T_EOF, s')" by simp
  with b(1,2) show ?thesis by blast
qed

text \<open>A compressor whose files can be decompressed: every byte and the end of a member carry the magic number.\<close>

definition esc_gz :: "unit gzip" where
  "esc_gz = \<lparr> gz_New = (), gz_Write = (\<lambda>g c. (concat (map (\<lambda>b. [0x1f, 0x8b, 8, 1, b]) c), g)), gz_Close = (\<lambda>g. ([0x1f, 0x8b, 8, 0], g)) \<rparr>"

fun esc_unzip :: "bytes \<Rightarrow> bytes" where
  "esc_unzip (a # b # c # d # x # r) = (if d = 0 then esc_unzip (x # r) else x # esc_unzip r)"
| "esc_unzip r = []"

lemma esc_unzip_end: "esc_unzip (0x1f # 0x8b # 8 # 0 # r) = esc_unzip r"
  by (cases r) simp_all

lemma esc_unzip_bytes: "esc_unzip (concat (map (\<lambda>b. [0x1f, 0x8b, 8, 1, b]) c) @ r) = c @ esc_unzip r"
  by (induction c) simp_all

lemma esc_run: "fst (gz_run esc_gz g cs) = concat (map (\<lambda>b. [0x1f, 0x8b, 8, 1, b]) (concat cs))"
  by (induction cs arbitrary: g) (simp_all add: esc_gz_def Let_def case_prod_beta')

lemma esc_member: "gz_member esc_gz cs = concat (map (\<lambda>b. [0x1f, 0x8b, 8, 1, b]) (concat cs)) @ [0x1f, 0x8b, 8, 0]"
  unfolding gz_member_def case_prod_beta' Let_def esc_run by (simp add: esc_gz_def)

lemma esc_file: "gz_file esc_gz cs z \<Longrightarrow> esc_unzip (z @ r) = concat cs @ esc_unzip r"
  by (induction arbitrary: r rule: gz_file.induct) (simp_all add: esc_member esc_unzip_bytes esc_unzip_end)

lemma esc_start: "gz_file esc_gz cs z \<Longrightarrow> z \<noteq> [] \<Longrightarrow> gzip_magic z"
proof (induction rule: gz_file.induct)
  case (gz_file_member cs z ds)
  have "\<exists>t. concat (map (\<lambda>b. [0x1f, 0x8b, 8, 1, b]) c) @ [0x1f, 0x8b, 8, 0 :: byte] = 0x1f # 0x8b # 8 # t" for c :: bytes by (cases c) simp_all
  then have m: "\<exists>t. gz_member esc_gz ds = 0x1f # 0x8b # 8 # t" unfolding esc_member by blast
  show ?case
  proof (cases z)
    case Nil with m show ?thesis by (auto simp: gzip_magic_def)
  next
    case (Cons a z')
    with gz_file_member.IH have "take 3 z = [0x1f, 0x8b, 8]" by (simp add: gzip_magic_def)
    moreover from this have "3 \<le> length z" by (metis length_Cons length_take list.size(3) min.cobounded1 numeral_3_eq_3)
    ultimately show ?thesis by (simp add: gzip_magic_def)
  qed
qed simp

lemma esc_unzips: "gz_file esc_gz cs z \<Longrightarrow> concat cs \<noteq> [] \<Longrightarrow> gzip_magic z \<and> esc_unzip z = concat cs"
  using esc_start [of cs z] esc_file [of cs z "[]"] by (cases z) auto

lemma flushed_batch_arrives_witness:
  "\<exists>z d' c' net'. DirBuffer_Reader esc_gz (client_batch (\<lambda>b k. b) [] (list_ring 9) (\<lambda>b. b) \<lparr>o_Hostname = [], o_Auth = Inl []\<rparr> [0x74])
      (NewDirBuffer \<lparr>files = [[0x64, 0x2f, 0x70, 0x6f, 0x6e, 0x67, 0x2e, 0x62, 0x69, 0x6e] \<mapsto> gz_member esc_gz [[0x92], tl sample_bytes]], faults = []\<rparr> [0x64])
      ((NewClient [])\<lparr>c_conn := Some 0, c_w := NewWriter (Some 0)\<rparr>, \<lparr>dials = [], writes = [], closes = [], salts = [], sent = [[]]\<rparr>) =
      (None, d', (c', net')) \<and> gz_file esc_gz [[0x92], tl sample_bytes] z \<and>
    (len z < 2 ^ 32 \<longrightarrow> (\<exists>s'. read_entries (t_Next (list_ring 64) (pair_ring 64) (list_sub (\<lambda>z. Some (esc_unzip z)))
        (length (arrived 0 \<lparr>dials = [] :: bytes option list, writes = [], closes = [], salts = [], sent = [[]]\<rparr> net')) 4)
      (skip_record (list_ring 64) (\<lambda>r. r)) (skip_record (pair_ring 64) fst) 2
      (NewIterator (arrived 0 \<lparr>dials = [], writes = [], closes = [], salts = [], sent = [[]]\<rparr> net'), Init []) empty_Entry =
      Ret ([([0x74], time_Unix 7 0, ())], Some T_EOF, s')))"
proof -
  let ?ws = "[[0x92], tl sample_bytes]"
  let ?d = "NewDirBuffer \<lparr>files = [[0x64, 0x2f, 0x70, 0x6f, 0x6e, 0x67, 0x2e, 0x62, 0x69, 0x6e] \<mapsto> gz_member esc_gz ?ws], faults = []\<rparr> [0x64]"
  have "gz_file esc_gz ([] @ ?ws) ([] @ gz_member esc_gz ?ws)" by (rule gz_file_member) simp
  then have h: "holds esc_gz ?d [] ?ws" by (simp add: holds_def NewDirBuffer_def content_def)
  have s: "[0x92] @ tl sample_bytes = sample_bytes" by (simp add: sample_bytes_def AppendArrayHeader_def Let_def ibyte_at_def)
  then have c: "concat ?ws = concat [sample_bytes]" by simp
  have u: "\<forall>z. gz_file esc_gz ?ws z \<longrightarrow> gzip_magic z \<and> unzip (list_env 64 (\<lambda>z. Some (esc_unzip z))) z = Some (concat ?ws)"
    using esc_unzips [of ?ws] by simp
  have f: "files (d_os ?d) (wName ?d) \<noteq> None" by (simp add: NewDirBuffer_def)
  have ev: "list_all2 event_wire [sample_event] [sample_bytes]" by (simp add: sample_event)
  show ?thesis
    using flushed_batch_arrives [OF h f c ev u, where c = "(NewClient [])\<lparr>c_conn := Some 0, c_w := NewWriter (Some 0)\<rparr>" and j = 0
      and net = "\<lparr>dials = [], writes = [], closes = [], salts = [], sent = [[]]\<rparr>" and tag = "[0x74]" and kept = "\<lambda>b k. b" and spare = "[]"
      and R = "list_ring 9" and sha = "\<lambda>b. b" and opt = "\<lparr>o_Hostname = [], o_Auth = Inl []\<rparr>" and k = 2 and e = empty_Entry
      and cR = "skip_record (list_ring 64) (\<lambda>r. r)" and cQ = "skip_record (pair_ring 64) fst" and g = "\<lambda>_. ()", OF _ _ _ _ _ _ _ _ _ list_env_ok]
      list_consumes [of 64]
    by (fastforce simp: NewClient_def NewWriter_def sample_event_def)
qed

end
