(* ===== verification/Gunzip.thy ===== *)
theory Gunzip
  imports Types
begin

text \<open>
  \<open>internal/gzip\<close>: the lazy gzip reader of the server. It skips the header of each member, hands the
  rest to a DEFLATE decompressor that reads the same ring buffer, skips the trailer without looking at
  it, and goes on with the next member. The ring buffer and the decompressor are the parameter
  \<open>gzlib\<close>; what is proved assumes of them what \<open>lib_ok\<close> says.
\<close>

datatype gzerr = GzIo err | GzHeader | GzInit | GzFlate bytes

abbreviation gzEOF :: gzerr where
  "gzEOF \<equiv> GzIo EOF"

record ('b, 'z) gzlib =
  rb_ReadBytes :: "'b \<Rightarrow> int \<Rightarrow> (bytes \<times> gzerr option) \<times> 'b"
  rb_Discard :: "'b \<Rightarrow> int \<Rightarrow> gzerr option \<times> 'b"
  rb_DiscardUntil :: "'b \<Rightarrow> byte \<Rightarrow> gzerr option \<times> 'b"
  fl_New :: "'b \<Rightarrow> 'z option"
  fl_Reset :: "'z \<Rightarrow> 'b \<Rightarrow> gzerr option \<times> 'z"
  fl_Read :: "'z \<Rightarrow> 'b \<Rightarrow> nat \<Rightarrow> (bytes \<times> gzerr option) \<times> 'z \<times> 'b"
  fl_Close :: "'z \<Rightarrow> gzerr option \<times> 'z"

text \<open>A nil ring or decompressor is \<open>None\<close>; \<open>fl_New\<close> is \<open>None\<close> when the new reader is no \<open>inflate\<close>.\<close>

record ('b, 'z) zReader =
  br :: "'b option"
  decompressor :: "'z option"

type_synonym ('b, 'z) zstep = "('b, 'z) zReader \<Rightarrow> (gzerr option \<times> ('b, 'z) zReader) go"

subsection \<open>Calls of the ring\<close>

definition z_ReadBytes :: "('b, 'z) gzlib \<Rightarrow> int \<Rightarrow> ('b, 'z) zReader \<Rightarrow> ((bytes \<times> gzerr option) \<times> ('b, 'z) zReader) go" where
  "z_ReadBytes L n z = (case br z of None \<Rightarrow> Panic | Some b \<Rightarrow> let (res, b) = rb_ReadBytes L b n in Ret (res, z\<lparr>br := Some b\<rparr>))"

definition z_Discard :: "('b, 'z) gzlib \<Rightarrow> int \<Rightarrow> ('b, 'z) zstep" where
  "z_Discard L n z = (case br z of None \<Rightarrow> Panic | Some b \<Rightarrow> let (err, b) = rb_Discard L b n in Ret (err, z\<lparr>br := Some b\<rparr>))"

definition z_DiscardUntil :: "('b, 'z) gzlib \<Rightarrow> byte \<Rightarrow> ('b, 'z) zstep" where
  "z_DiscardUntil L c z = (case br z of None \<Rightarrow> Panic | Some b \<Rightarrow> let (err, b) = rb_DiscardUntil L b c in Ret (err, z\<lparr>br := Some b\<rparr>))"

text \<open>\<open>if err = f(); err != nil { return }\<close>, then \<open>g\<close>; and a step that only some flag asks for.\<close>

definition check :: "('b, 'z) zstep \<Rightarrow> ('b, 'z) zstep \<Rightarrow> ('b, 'z) zstep" where
  "check f g z = do { (err, z) \<leftarrow> f z; case err of Some e \<Rightarrow> Ret (Some e, z) | None \<Rightarrow> g z }"

definition only_if :: "bool \<Rightarrow> ('b, 'z) zstep \<Rightarrow> ('b, 'z) zstep" where
  "only_if c f z = (if c then f z else Ret (None, z))"

subsection \<open>gunzip.go\<close>

definition skipBytes :: "('b, 'z) gzlib \<Rightarrow> int \<Rightarrow> ('b, 'z) zstep" where
  "skipBytes L n = z_Discard L n"

definition skipNullTerminated :: "('b, 'z) gzlib \<Rightarrow> ('b, 'z) zstep" where
  "skipNullTerminated L = check (z_DiscardUntil L 0) (z_Discard L 1)"

definition le_Uint16 :: "bytes \<Rightarrow> int go" where
  "le_Uint16 buf = do { a \<leftarrow> go_index buf 0; b \<leftarrow> go_index buf 1; Ret (uint a + 256 * uint b) }"

definition skipExtra :: "('b, 'z) gzlib \<Rightarrow> ('b, 'z) zstep" where
  "skipExtra L z = do {
     ((buf, err), z) \<leftarrow> z_ReadBytes L 2 z;
     case err of Some e \<Rightarrow> Ret (Some e, z) | None \<Rightarrow> do { extraLen \<leftarrow> le_Uint16 buf; skipBytes L extraLen z } }"

definition initDecompressor :: "('b, 'z) gzlib \<Rightarrow> ('b, 'z) zstep" where
  "initDecompressor L z =
     (case br z of None \<Rightarrow> Panic | Some b \<Rightarrow>
        (case decompressor z of
           None \<Rightarrow> (case fl_New L b of Some d \<Rightarrow> Ret (None, z\<lparr>decompressor := Some d\<rparr>) | None \<Rightarrow> Ret (Some GzInit, z))
         | Some d \<Rightarrow> let (err, d) = fl_Reset L d b in Ret (err, z\<lparr>decompressor := Some d\<rparr>)))"

definition skipHeader :: "('b, 'z) gzlib \<Rightarrow> ('b, 'z) zstep" where
  "skipHeader L z = do {
     ((buf, err), z) \<leftarrow> z_ReadBytes L 10 z;
     case err of Some e \<Rightarrow> Ret (Some e, z) | None \<Rightarrow> do {
     id1 \<leftarrow> go_index buf 0;
     id2 \<leftarrow> go_index buf 1;
     m \<leftarrow> go_index buf 2;
     if id1 \<noteq> 0x1f \<or> id2 \<noteq> 0x8b \<or> m \<noteq> 8 then Ret (Some GzHeader, z)
     else do {
       flg \<leftarrow> go_index buf 3;
       check (only_if (bit flg 2) (skipExtra L)) (check (only_if (bit flg 3) (skipNullTerminated L))
         (check (only_if (bit flg 4) (skipNullTerminated L)) (check (only_if (bit flg 1) (skipBytes L 2)) (initDecompressor L)))) z } } }"

definition zReset :: "('b, 'z) gzlib \<Rightarrow> 'b option \<Rightarrow> ('b, 'z) zstep" where
  "zReset L b z = (let z = z\<lparr>br := b\<rparr> in if b \<noteq> None then skipHeader L z else Ret (None, z))"

definition zNewReader :: "('b, 'z) gzlib \<Rightarrow> 'b \<Rightarrow> (gzerr option \<times> ('b, 'z) zReader) go" where
  "zNewReader L b = zReset L (Some b) \<lparr> br = None, decompressor = None \<rparr>"

text \<open>The loop goes round only over members without data; its rounds are bounded by the fuel. \<open>n\<close> is \<open>len(p)\<close>.\<close>

primrec zRead :: "('b, 'z) gzlib \<Rightarrow> nat \<Rightarrow> nat \<Rightarrow> ('b, 'z) zReader \<Rightarrow> ((bytes \<times> gzerr option) \<times> ('b, 'z) zReader) go" where
  "zRead L 0 n z = None"
| "zRead L (Suc fuel) n z =
     (case (decompressor z, br z) of
        (Some d, Some b) \<Rightarrow>
          let ((out, err), d, b) = fl_Read L d b n; z = z\<lparr>decompressor := Some d, br := Some b\<rparr> in
          if err \<noteq> Some gzEOF then Ret ((out, err), z)
          else do {
            (err, z) \<leftarrow> check (z_Discard L 8) (skipHeader L) z;
            if err \<noteq> None then Ret ((out, err), z)
            else if out = [] then zRead L fuel n z else Ret ((out, None), z) }
      | _ \<Rightarrow> Panic)"

definition zClose :: "('b, 'z) gzlib \<Rightarrow> ('b, 'z) zstep" where
  "zClose L z = (case decompressor z of None \<Rightarrow> Panic | Some d \<Rightarrow> let (err, d) = fl_Close L d in Ret (err, z\<lparr>decompressor := Some d\<rparr>))"

subsection \<open>pool.go\<close>

text \<open>\<open>pooled\<close> is what \<open>sync.Pool\<close> gives: a reader that was put back, or nothing.\<close>

definition Pool_Get :: "('b, 'z) gzlib \<Rightarrow> ('b, 'z) zReader option \<Rightarrow> 'b \<Rightarrow> (gzerr option \<times> ('b, 'z) zReader) go" where
  "Pool_Get L pooled b = (case pooled of Some z \<Rightarrow> zReset L (Some b) z | None \<Rightarrow> zNewReader L b)"

definition Pool_Put :: "('b, 'z) gzlib \<Rightarrow> ('b, 'z) zReader \<Rightarrow> ('b, 'z) zReader list \<Rightarrow> ('b, 'z) zReader list go" where
  "Pool_Put L z pool = do { (err, z) \<leftarrow> zReset L None z; Ret (z # pool) }"

subsection \<open>What the ring and the decompressor promise\<close>

text \<open>
  \<open>deflate data db\<close>: the bytes \<open>db\<close> are a DEFLATE stream of \<open>data\<close>. \<open>inflating d b data xs\<close>: the
  decompressor \<open>d\<close> over the ring \<open>b\<close> has \<open>data\<close> still to give, after which \<open>xs\<close> is left on the
  ring, for it reads byte by byte; its last bytes may come with EOF or before it.
\<close>

definition lib_ok :: "('b, 'z) gzlib \<Rightarrow> ('b \<Rightarrow> bytes) \<Rightarrow> (bytes \<Rightarrow> bytes \<Rightarrow> bool) \<Rightarrow> ('z \<Rightarrow> 'b \<Rightarrow> bytes \<Rightarrow> bytes \<Rightarrow> bool) \<Rightarrow> bool" where
  "lib_ok L rest deflate inflating \<longleftrightarrow>
     (\<forall>b n. n \<in> {2, 10} \<longrightarrow>
        (if n \<le> len (rest b) then \<exists>b'. rb_ReadBytes L b n = ((take (nat n) (rest b), None), b') \<and> rest b' = drop (nat n) (rest b)
         else \<exists>buf e b'. rb_ReadBytes L b n = ((buf, Some e), b') \<and> (rest b = [] \<longrightarrow> e = gzEOF))) \<and>
     (\<forall>b n. 0 \<le> n \<longrightarrow> n \<le> len (rest b) \<longrightarrow> (\<exists>b'. rb_Discard L b n = (None, b') \<and> rest b' = drop (nat n) (rest b))) \<and>
     (\<forall>b s c xs. rest b = s @ c # xs \<longrightarrow> c \<notin> set s \<longrightarrow> (\<exists>b'. rb_DiscardUntil L b c = (None, b') \<and> rest b' = c # xs)) \<and>
     (\<forall>b data db xs. deflate data db \<longrightarrow> rest b = db @ xs \<longrightarrow>
        (\<exists>d. fl_New L b = Some d \<and> inflating d b data xs) \<and> (\<forall>d. \<exists>d'. fl_Reset L d b = (None, d') \<and> inflating d' b data xs)) \<and>
     (\<forall>d b data xs n. inflating d b data xs \<longrightarrow> 0 < n \<longrightarrow>
        (\<exists>out err d' b'. fl_Read L d b n = ((out, err), d', b') \<and>
          (if err = None then \<exists>data'. out \<noteq> [] \<and> data = out @ data' \<and> inflating d' b' data' xs
           else err = Some gzEOF \<and> out = data \<and> rest b' = xs)))"

lemma lib_okD:
  assumes "lib_ok L rest deflate inflating"
  shows "\<forall>b s c xs. rest b = s @ c # xs \<longrightarrow> c \<notin> set s \<longrightarrow> (\<exists>b'. rb_DiscardUntil L b c = (None, b') \<and> rest b' = c # xs)"
    and "\<forall>b data db xs. deflate data db \<longrightarrow> rest b = db @ xs \<longrightarrow>
        (\<exists>d. fl_New L b = Some d \<and> inflating d b data xs) \<and> (\<forall>d. \<exists>d'. fl_Reset L d b = (None, d') \<and> inflating d' b data xs)"
    and "\<forall>b n. 0 \<le> n \<longrightarrow> n \<le> len (rest b) \<longrightarrow> (\<exists>b'. rb_Discard L b n = (None, b') \<and> rest b' = drop (nat n) (rest b))"
  subgoal using assms unfolding lib_ok_def by (elim conjE)
  subgoal using assms unfolding lib_ok_def by (elim conjE)
  subgoal using assms unfolding lib_ok_def by (elim conjE)
  done

lemma lib_ReadBytes:
  assumes "lib_ok L rest deflate inflating" and "br z = Some b" and "n \<in> {2, 10}" and "rest b = buf @ xs" and "len buf = n"
  obtains b' where "z_ReadBytes L n z = Ret ((buf, None), z\<lparr>br := Some b'\<rparr>)" "rest b' = xs"
proof -
  have "n \<le> len (rest b)" using assms(4,5) by simp
  then obtain b' where "rb_ReadBytes L b n = ((take (nat n) (rest b), None), b')" "rest b' = drop (nat n) (rest b)"
    using assms(1,3) unfolding lib_ok_def by metis
  with assms show thesis by (intro that [of b']) (auto simp: z_ReadBytes_def)
qed

lemma lib_end:
  assumes "lib_ok L rest deflate inflating" and "br z = Some b" and "rest b = []"
  obtains buf b' where "z_ReadBytes L 10 z = Ret ((buf, Some gzEOF), z\<lparr>br := Some b'\<rparr>)"
proof -
  have "\<not> 10 \<le> len (rest b)" "(10 :: int) \<in> {2, 10}" using assms(3) by simp_all
  then obtain buf e b' where "rb_ReadBytes L b 10 = ((buf, Some e), b')" "rest b = [] \<longrightarrow> e = gzEOF"
    using assms(1) unfolding lib_ok_def by metis
  with assms show thesis by (intro that [of buf b']) (simp add: z_ReadBytes_def)
qed

lemma lib_Discard:
  assumes "lib_ok L rest deflate inflating" and "br z = Some b" and "rest b = buf @ xs" and "len buf = n"
  obtains b' where "z_Discard L n z = Ret (None, z\<lparr>br := Some b'\<rparr>)" "rest b' = xs"
proof -
  have "0 \<le> n" "n \<le> len (rest b)" using assms(3,4) by auto
  then obtain b' where "rb_Discard L b n = (None, b')" "rest b' = drop (nat n) (rest b)"
    using lib_okD(3) [OF assms(1), rule_format, of n b] by blast
  with assms show thesis by (intro that [of b']) (auto simp: z_Discard_def)
qed

lemma lib_DiscardUntil:
  assumes "lib_ok L rest deflate inflating" and "br z = Some b" and "rest b = s @ c # xs" and "c \<notin> set s"
  obtains b' where "z_DiscardUntil L c z = Ret (None, z\<lparr>br := Some b'\<rparr>)" "rest b' = c # xs"
proof -
  obtain b' where "rb_DiscardUntil L b c = (None, b')" "rest b' = c # xs"
    using lib_okD(1) [OF assms(1), rule_format, OF assms(3,4)] by blast
  with assms show thesis by (intro that [of b']) (simp_all add: z_DiscardUntil_def)
qed

lemma lib_init:
  assumes "lib_ok L rest deflate inflating" and "br z = Some b" and "rest b = db @ xs" and "deflate data db"
  obtains d where "initDecompressor L z = Ret (None, z\<lparr>decompressor := Some d\<rparr>)" "inflating d b data xs"
proof -
  have new: "\<exists>d. fl_New L b = Some d \<and> inflating d b data xs" and reset: "\<exists>d'. fl_Reset L d b = (None, d') \<and> inflating d' b data xs" for d
    using lib_okD(2) [OF assms(1), rule_format, OF assms(4,3)] by blast+
  show thesis
  proof (cases "decompressor z")
    case None
    with new assms(2) show thesis by (auto simp: initDecompressor_def intro: that)
  next
    case (Some d)
    with reset [of d] assms(2) show thesis by (auto simp: initDecompressor_def intro: that)
  qed
qed

lemma lib_Read:
  assumes "lib_ok L rest deflate inflating" and "inflating d b data xs" and "0 < n"
  obtains (more) out d' b' data' where "fl_Read L d b n = ((out, None), d', b')" "out \<noteq> []" "data = out @ data'" "inflating d' b' data' xs"
  | (last) d' b' where "fl_Read L d b n = ((data, Some gzEOF), d', b')" "rest b' = xs"
proof -
  obtain out err d' b' where r: "fl_Read L d b n = ((out, err), d', b')"
    "if err = None then \<exists>data'. out \<noteq> [] \<and> data = out @ data' \<and> inflating d' b' data' xs else err = Some gzEOF \<and> out = data \<and> rest b' = xs"
    using assms unfolding lib_ok_def by meson
  then show thesis using more last by (cases err) auto
qed

subsection \<open>Gzip files\<close>

definition terminated :: "bool \<Rightarrow> bytes \<Rightarrow> bool" where
  "terminated c bs \<longleftrightarrow> (if c then \<exists>s. 0 \<notin> set s \<and> bs = s @ [0] else bs = [])"

text \<open>The header of a member (RFC 1952): the optional parts that its flags announce, in their order.\<close>

definition gz_header :: "bytes \<Rightarrow> bool" where
  "gz_header hb \<longleftrightarrow> (\<exists>flg mtime extra name comment crc. hb = 0x1f # 0x8b # 8 # flg # mtime @ extra @ name @ comment @ crc \<and> length mtime = 6 \<and>
     (if bit flg 2 then \<exists>a b x. extra = a # b # x \<and> len x = uint a + 256 * uint b else extra = []) \<and>
     terminated (bit flg 3) name \<and> terminated (bit flg 4) comment \<and> (if bit flg 1 then length crc = 2 else crc = []))"

record member =
  m_header :: bytes
  m_data :: bytes
  m_deflated :: bytes
  m_trailer :: bytes

definition member_ok :: "(bytes \<Rightarrow> bytes \<Rightarrow> bool) \<Rightarrow> member \<Rightarrow> bool" where
  "member_ok deflate m \<longleftrightarrow> gz_header (m_header m) \<and> deflate (m_data m) (m_deflated m) \<and> length (m_trailer m) = 8"

definition member_bytes :: "member \<Rightarrow> bytes" where
  "member_bytes m = m_header m @ m_deflated m @ m_trailer m"

subsection \<open>Skipping a header\<close>

text \<open>A step that succeeds and takes \<open>bs\<close> off the ring.\<close>

definition takes :: "('b \<Rightarrow> bytes) \<Rightarrow> ('b, 'z) zstep \<Rightarrow> bytes \<Rightarrow> bool" where
  "takes rest f bs \<longleftrightarrow> (\<forall>z b xs. br z = Some b \<longrightarrow> rest b = bs @ xs \<longrightarrow> (\<exists>b'. f z = Ret (None, z\<lparr>br := Some b'\<rparr>) \<and> rest b' = xs))"

lemma takes_check:
  assumes "takes rest f bs" and "br z = Some b" and "rest b = bs @ xs"
  obtains b' where "\<And>g. check f g z = g (z\<lparr>br := Some b'\<rparr>)" "rest b' = xs"
proof -
  obtain b' where "f z = Ret (None, z\<lparr>br := Some b'\<rparr>)" "rest b' = xs" using assms unfolding takes_def by blast
  then show thesis by (intro that [of b']) (simp_all add: check_def)
qed

lemma takes_only_if:
  assumes "c \<Longrightarrow> takes rest f bs" and "\<not> c \<Longrightarrow> bs = []"
  shows "takes rest (only_if c f) bs"
proof (cases c)
  case True
  with assms(1) show ?thesis by (simp add: takes_def only_if_def)
next
  case False
  then have "bs = []" using assms(2) by simp
  moreover have "only_if c f z = Ret (None, z\<lparr>br := Some b\<rparr>)" if "br z = Some b" for z b using that False by (cases z) (simp add: only_if_def)
  ultimately show ?thesis unfolding takes_def by auto
qed

lemma takes_skipBytes:
  assumes "lib_ok L rest deflate inflating" and "len bs = n"
  shows "takes rest (skipBytes L n) bs"
  unfolding takes_def
proof (intro allI impI)
  fix z :: "('a, 'b) zReader" and b xs assume z: "br z = Some b" "rest b = bs @ xs"
  obtain b' where "z_Discard L n z = Ret (None, z\<lparr>br := Some b'\<rparr>)" "rest b' = xs" by (rule lib_Discard [OF assms(1) z assms(2)])
  then show "\<exists>b'. skipBytes L n z = Ret (None, z\<lparr>br := Some b'\<rparr>) \<and> rest b' = xs" unfolding skipBytes_def by blast
qed

lemma takes_skipNullTerminated:
  assumes "lib_ok L rest deflate inflating" and "0 \<notin> set s"
  shows "takes rest (skipNullTerminated L) (s @ [0])"
  unfolding takes_def
proof (intro allI impI)
  fix z :: "('a, 'b) zReader" and b xs assume z: "br z = Some b" "rest b = (s @ [0]) @ xs"
  obtain b1 where 1: "z_DiscardUntil L 0 z = Ret (None, z\<lparr>br := Some b1\<rparr>)" "rest b1 = 0 # xs"
    by (rule lib_DiscardUntil [OF assms(1) z(1), of s 0 xs]) (use z assms(2) in simp_all)
  obtain b2 where "z_Discard L 1 (z\<lparr>br := Some b1\<rparr>) = Ret (None, z\<lparr>br := Some b1\<rparr>\<lparr>br := Some b2\<rparr>)" "rest b2 = xs"
    by (rule lib_Discard [OF assms(1), of "z\<lparr>br := Some b1\<rparr>" b1 "[0]" xs 1]) (use 1 in simp_all)
  with 1 show "\<exists>b'. skipNullTerminated L z = Ret (None, z\<lparr>br := Some b'\<rparr>) \<and> rest b' = xs"
    by (intro exI [of _ b2]) (simp add: skipNullTerminated_def check_def)
qed

lemma takes_terminated: "lib_ok L rest deflate inflating \<Longrightarrow> terminated c bs \<Longrightarrow> takes rest (only_if c (skipNullTerminated L)) bs"
  by (rule takes_only_if) (auto simp: terminated_def intro: takes_skipNullTerminated)

lemma takes_skipExtra:
  assumes "lib_ok L rest deflate inflating" and "len x = uint a + 256 * uint b"
  shows "takes rest (skipExtra L) (a # b # x)"
  unfolding takes_def
proof (intro allI impI)
  fix z :: "('a, 'b) zReader" and r xs assume z: "br z = Some r" "rest r = (a # b # x) @ xs"
  obtain b1 where 1: "z_ReadBytes L 2 z = Ret (([a, b], None), z\<lparr>br := Some b1\<rparr>)" "rest b1 = x @ xs"
    by (rule lib_ReadBytes [OF assms(1) z(1), of 2 "[a, b]" "x @ xs"]) (use z in simp_all)
  obtain b2 where "z_Discard L (len x) (z\<lparr>br := Some b1\<rparr>) = Ret (None, z\<lparr>br := Some b1\<rparr>\<lparr>br := Some b2\<rparr>)" "rest b2 = xs"
    by (rule lib_Discard [OF assms(1), of "z\<lparr>br := Some b1\<rparr>" b1 x xs "len x"]) (use 1 in simp_all)
  with 1 assms(2) show "\<exists>b'. skipExtra L z = Ret (None, z\<lparr>br := Some b'\<rparr>) \<and> rest b' = xs"
    by (intro exI [of _ b2]) (simp add: skipExtra_def skipBytes_def le_Uint16_def go_index_def)
qed

lemma skipHeader_member:
  assumes L: "lib_ok L rest deflate inflating" and z: "br z = Some b" "rest b = hb @ db @ xs" and "gz_header hb" and "deflate data db"
  obtains d b' where "skipHeader L z = Ret (None, z\<lparr>br := Some b', decompressor := Some d\<rparr>)" "inflating d b' data xs"
proof -
  from assms(4) obtain flg mtime extra name comment crc where h: "hb = 0x1f # 0x8b # 8 # flg # mtime @ extra @ name @ comment @ crc" "length mtime = 6"
    "if bit flg 2 then \<exists>a b x. extra = a # b # x \<and> len x = uint a + 256 * uint b else extra = []"
    "terminated (bit flg 3) name" "terminated (bit flg 4) comment" "if bit flg 1 then length crc = 2 else crc = []"
    unfolding gz_header_def by blast
  let ?buf = "0x1f # 0x8b # 8 # flg # mtime"
  obtain b1 where 1: "z_ReadBytes L 10 z = Ret ((?buf, None), z\<lparr>br := Some b1\<rparr>)" "rest b1 = extra @ name @ comment @ crc @ db @ xs"
    by (rule lib_ReadBytes [OF L z(1), of 10 ?buf "extra @ name @ comment @ crc @ db @ xs"]) (use h z in simp_all)
  have t2: "takes rest (only_if (bit flg 2) (skipExtra L)) extra"
    by (rule takes_only_if) (use h(3) in \<open>auto intro: takes_skipExtra [OF L]\<close>)
  have t5: "takes rest (only_if (bit flg 1) (skipBytes L 2)) crc"
    by (rule takes_only_if) (use h(6) in \<open>auto intro: takes_skipBytes [OF L]\<close>)
  obtain b2 where 2: "\<And>g. check (only_if (bit flg 2) (skipExtra L)) g (z\<lparr>br := Some b1\<rparr>) = g (z\<lparr>br := Some b1\<rparr>\<lparr>br := Some b2\<rparr>)"
    "rest b2 = name @ comment @ crc @ db @ xs" by (rule takes_check [OF t2 _ 1(2), where z = "z\<lparr>br := Some b1\<rparr>"]) simp_all
  obtain b3 where 3: "\<And>g. check (only_if (bit flg 3) (skipNullTerminated L)) g (z\<lparr>br := Some b2\<rparr>) = g (z\<lparr>br := Some b2\<rparr>\<lparr>br := Some b3\<rparr>)"
    "rest b3 = comment @ crc @ db @ xs" by (rule takes_check [OF takes_terminated [OF L h(4)] _ 2(2), where z = "z\<lparr>br := Some b2\<rparr>"]) simp_all
  obtain b4 where 4: "\<And>g. check (only_if (bit flg 4) (skipNullTerminated L)) g (z\<lparr>br := Some b3\<rparr>) = g (z\<lparr>br := Some b3\<rparr>\<lparr>br := Some b4\<rparr>)"
    "rest b4 = crc @ db @ xs" by (rule takes_check [OF takes_terminated [OF L h(5)] _ 3(2), where z = "z\<lparr>br := Some b3\<rparr>"]) simp_all
  obtain b5 where 5: "\<And>g. check (only_if (bit flg 1) (skipBytes L 2)) g (z\<lparr>br := Some b4\<rparr>) = g (z\<lparr>br := Some b4\<rparr>\<lparr>br := Some b5\<rparr>)"
    "rest b5 = db @ xs" by (rule takes_check [OF t5 _ 4(2), where z = "z\<lparr>br := Some b4\<rparr>"]) simp_all
  obtain d where 6: "initDecompressor L (z\<lparr>br := Some b5\<rparr>) = Ret (None, z\<lparr>br := Some b5\<rparr>\<lparr>decompressor := Some d\<rparr>)" "inflating d b5 data xs"
    by (rule lib_init [OF L _ 5(2) assms(5), where z = "z\<lparr>br := Some b5\<rparr>"]) simp_all
  show thesis by (rule that [of d b5]) (use 1(1) 2(1) 3(1) 4(1) 5(1) 6 h(2) in \<open>simp_all add: skipHeader_def go_index_def\<close>)
qed

subsection \<open>Reading the members\<close>

text \<open>What is left of the members after the data of the current one: its trailer and the rest of the file.\<close>

definition members_left :: "(bytes \<Rightarrow> bytes \<Rightarrow> bool) \<Rightarrow> bytes \<Rightarrow> member list \<Rightarrow> bool" where
  "members_left deflate xs ms \<longleftrightarrow> (\<forall>m \<in> set ms. member_ok deflate m) \<and> (\<exists>t. length t = 8 \<and> xs = t @ concat (map member_bytes ms))"

definition reading_members :: "(bytes \<Rightarrow> bytes \<Rightarrow> bool) \<Rightarrow> ('z \<Rightarrow> 'b \<Rightarrow> bytes \<Rightarrow> bytes \<Rightarrow> bool) \<Rightarrow> nat \<Rightarrow> ('b, 'z) zReader \<Rightarrow> bytes \<Rightarrow> bool" where
  "reading_members deflate inflating k z out \<longleftrightarrow> (\<exists>d b data xs ms. decompressor z = Some d \<and> br z = Some b \<and> inflating d b data xs \<and>
     members_left deflate xs ms \<and> length ms \<le> k \<and> out = data @ concat (map m_data ms))"

lemma reading_start:
  assumes L: "lib_ok L rest deflate inflating" and "member_ok deflate m" "\<forall>m \<in> set ms. member_ok deflate m" "br z = Some b"
    and "rest b = concat (map member_bytes (m # ms))" and "length ms \<le> k"
  obtains z' where "skipHeader L z = Ret (None, z')" "reading_members deflate inflating k z' (concat (map m_data (m # ms)))"
proof -
  have h: "gz_header (m_header m)" "deflate (m_data m) (m_deflated m)" "length (m_trailer m) = 8" using assms(2) by (simp_all add: member_ok_def)
  have r: "rest b = m_header m @ m_deflated m @ (m_trailer m @ concat (map member_bytes ms))" using assms(5) by (simp add: member_bytes_def)
  obtain d b' where "skipHeader L z = Ret (None, z\<lparr>br := Some b', decompressor := Some d\<rparr>)"
    "inflating d b' (m_data m) (m_trailer m @ concat (map member_bytes ms))"
    by (rule skipHeader_member [OF L assms(4) r h(1,2)])
  moreover have "members_left deflate (m_trailer m @ concat (map member_bytes ms)) ms"
    unfolding members_left_def using assms(3) h(3) by blast
  ultimately show thesis using assms(6)
    by (intro that [of "z\<lparr>br := Some b', decompressor := Some d\<rparr>"]) (auto simp: reading_members_def)
qed

lemma trailer_step:
  assumes L: "lib_ok L rest deflate inflating" and "br z = Some b" "rest b = xs" "members_left deflate xs ms" "length ms \<le> k"
  shows "if ms = [] then \<exists>z'. check (z_Discard L 8) (skipHeader L) z = Ret (Some gzEOF, z')
    else \<exists>z'. check (z_Discard L 8) (skipHeader L) z = Ret (None, z') \<and> reading_members deflate inflating (k - 1) z' (concat (map m_data ms))"
proof -
  from assms(4) obtain t where t: "length t = 8" "xs = t @ concat (map member_bytes ms)" "\<forall>m \<in> set ms. member_ok deflate m"
    unfolding members_left_def by blast
  obtain b1 where 1: "z_Discard L 8 z = Ret (None, z\<lparr>br := Some b1\<rparr>)" "rest b1 = concat (map member_bytes ms)"
    by (rule lib_Discard [OF L assms(2), of t "concat (map member_bytes ms)" 8]) (use assms(3) t in simp_all)
  show ?thesis
  proof (cases ms)
    case Nil
    obtain buf b' where "z_ReadBytes L 10 (z\<lparr>br := Some b1\<rparr>) = Ret ((buf, Some gzEOF), z\<lparr>br := Some b1\<rparr>\<lparr>br := Some b'\<rparr>)"
      by (rule lib_end [OF L, of "z\<lparr>br := Some b1\<rparr>" b1]) (use 1 Nil in simp_all)
    with 1 Nil show ?thesis by (simp add: check_def skipHeader_def)
  next
    case (Cons m ms')
    obtain z' where "skipHeader L (z\<lparr>br := Some b1\<rparr>) = Ret (None, z')" "reading_members deflate inflating (k - 1) z' (concat (map m_data (m # ms')))"
      by (rule reading_start [OF L, of m ms' "z\<lparr>br := Some b1\<rparr>" b1 "k - 1"]) (use 1 Cons t(3) assms(5) in simp_all)
    with 1 Cons show ?thesis by (auto simp: check_def)
  qed
qed

lemma zRead_step:
  assumes L: "lib_ok L rest deflate inflating" and "0 < n"
  shows "reading_members deflate inflating k z out \<Longrightarrow> k < fuel \<Longrightarrow>
    (\<exists>c out' z'. zRead L fuel n z = Ret ((c, None), z') \<and> c \<noteq> [] \<and> out = c @ out' \<and> reading_members deflate inflating k z' out') \<or>
    (\<exists>z'. zRead L fuel n z = Ret ((out, Some gzEOF), z'))"
proof (induction fuel arbitrary: k z out)
  case (Suc fuel)
  from Suc.prems(1) obtain d b data xs ms where s: "decompressor z = Some d" "br z = Some b" "inflating d b data xs"
    "members_left deflate xs ms" "length ms \<le> k" "out = data @ concat (map m_data ms)" unfolding reading_members_def by blast
  from L s(3) assms(2) show ?case
  proof (cases rule: lib_Read)
    case (more c d' b' data')
    with s have "reading_members deflate inflating k (z\<lparr>decompressor := Some d', br := Some b'\<rparr>) (data' @ concat (map m_data ms))"
      unfolding reading_members_def by auto
    with more s show ?thesis by simp
  next
    case (last d' b')
    let ?z = "z\<lparr>decompressor := Some d', br := Some b'\<rparr>"
    have t: "if ms = [] then \<exists>z'. check (z_Discard L 8) (skipHeader L) ?z = Ret (Some gzEOF, z')
      else \<exists>z'. check (z_Discard L 8) (skipHeader L) ?z = Ret (None, z') \<and> reading_members deflate inflating (k - 1) z' (concat (map m_data ms))"
      by (rule trailer_step [OF L, of ?z b' xs ms k]) (use last s in simp_all)
    show ?thesis
    proof (cases "ms = []")
      case True
      with t obtain z' where "check (z_Discard L 8) (skipHeader L) ?z = Ret (Some gzEOF, z')" by auto
      with True last s show ?thesis by simp
    next
      case False
      with t obtain z' where z': "check (z_Discard L 8) (skipHeader L) ?z = Ret (None, z')"
        "reading_members deflate inflating (k - 1) z' (concat (map m_data ms))" by auto
      have k: "k - 1 < fuel" using Suc.prems(2) False s(5) by (cases ms) auto
      have weak: "reading_members deflate inflating k z2 o2" if "reading_members deflate inflating (k - 1) z2 o2" for z2 o2
        using that unfolding reading_members_def by fastforce
      show ?thesis
      proof (cases "data = []")
        case True
        have "zRead L (Suc fuel) n z = zRead L fuel n z'" using last z'(1) s(1,2) True by simp
        with Suc.IH [OF z'(2) k] True s(6) weak show ?thesis by auto
      next
        case False
        with last z' s weak [OF z'(2)] show ?thesis by auto
      qed
    qed
  qed
qed simp

text \<open>A caller that reads with buffers of any sizes until an error.\<close>

fun read_all :: "('b, 'z) gzlib \<Rightarrow> nat \<Rightarrow> nat list \<Rightarrow> ('b, 'z) zReader \<Rightarrow> (bytes \<times> gzerr option) go" where
  "read_all L fuel [] z = Ret ([], None)"
| "read_all L fuel (n # ns) z = do {
     ((c, err), z) \<leftarrow> zRead L fuel n z;
     case err of Some e \<Rightarrow> Ret (c, Some e) | None \<Rightarrow> do { (out, err) \<leftarrow> read_all L fuel ns z; Ret (c @ out, err) } }"

lemma read_all_members:
  assumes L: "lib_ok L rest deflate inflating"
  shows "reading_members deflate inflating k z out \<Longrightarrow> k < fuel \<Longrightarrow> \<forall>n \<in> set ns. 0 < n \<Longrightarrow> length out < length ns \<Longrightarrow>
    read_all L fuel ns z = Ret (out, Some gzEOF)"
proof (induction ns arbitrary: z out)
  case (Cons n ns)
  have "0 < n" using Cons.prems(3) by simp
  from zRead_step [OF L this Cons.prems(1,2)] show ?case
  proof (elim disjE exE conjE)
    fix c out' z' assume r: "zRead L fuel n z = Ret ((c, None), z')" "c \<noteq> []" "out = c @ out'" "reading_members deflate inflating k z' out'"
    have "length out' < length ns" using Cons.prems(4) r(2,3) by (cases c) auto
    with Cons.IH [OF r(4)] Cons.prems r show ?case by simp
  qed simp
qed simp

subsection \<open>A ring and a decompressor on lists\<close>

text \<open>A toy format: a DEFLATE stream is its length in one byte and the bytes; the state is how many are to come.\<close>

definition toy_lib :: "(bytes, nat) gzlib" where
  "toy_lib =
     \<lparr> rb_ReadBytes = (\<lambda>b n. if n \<le> len b then ((take (nat n) b, None), drop (nat n) b) else (([], Some gzEOF), [])),
       rb_Discard = (\<lambda>b n. if n \<le> len b then (None, drop (nat n) b) else (Some gzEOF, [])),
       rb_DiscardUntil = (\<lambda>b c. if c \<in> set b then (None, dropWhile (\<lambda>x. x \<noteq> c) b) else (Some gzEOF, [])),
       fl_New = (\<lambda>b. Some 0), fl_Reset = (\<lambda>d b. (None, 0)),
       fl_Read = (\<lambda>d b n. (case d of
          0 \<Rightarrow> (let k = unat (hd b) in
             if k \<le> n then ((take k (tl b), Some gzEOF), 0, drop k (tl b)) else ((take n (tl b), None), k - n, drop n (tl b)))
        | _ \<Rightarrow> if d \<le> n then ((take d b, Some gzEOF), 0, drop d b) else ((take n b, None), d - n, drop n b))),
       fl_Close = (\<lambda>d. (None, d)) \<rparr>"

definition toy_deflate :: "bytes \<Rightarrow> bytes \<Rightarrow> bool" where
  "toy_deflate data db \<longleftrightarrow> length data < 256 \<and> db = of_nat (length data) # data"

definition toy_inflating :: "nat \<Rightarrow> bytes \<Rightarrow> bytes \<Rightarrow> bytes \<Rightarrow> bool" where
  "toy_inflating d b data xs \<longleftrightarrow> (d = 0 \<and> length data < 256 \<and> b = of_nat (length data) # data @ xs) \<or> (d = length data \<and> 0 < d \<and> b = data @ xs)"

lemma toy_Read:
  assumes "toy_inflating d b data xs" and "0 < n"
  shows "\<exists>out err d' b'. fl_Read toy_lib d b n = ((out, err), d', b') \<and>
    (if err = None then \<exists>data'. out \<noteq> [] \<and> data = out @ data' \<and> toy_inflating d' b' data' xs else err = Some gzEOF \<and> out = data \<and> b' = xs)"
proof -
  have u: "unat (of_nat (length data) :: byte) = length data" if "length data < 256" using that by (simp add: unat_of_nat)
  have m: "take n data \<noteq> [] \<and> data = take n data @ drop n data \<and> toy_inflating (length data - n) (drop n (data @ xs)) (drop n data) xs"
    if "n < length data" using that assms(2) by (auto simp: toy_inflating_def)
  from assms(1) consider "d = 0" "length data < 256" "b = of_nat (length data) # data @ xs" | d' where "d = Suc d'" "d = length data" "b = data @ xs"
    unfolding toy_inflating_def by (cases d) auto
  then show ?thesis
  proof cases
    case 1 with m u show ?thesis
      by (cases "length data \<le> n") (auto simp: toy_lib_def Let_def intro!: exI [of _ "drop n data"])
  next
    case 2 with m show ?thesis by (cases "length data \<le> n") (auto simp: toy_lib_def intro!: exI [of _ "drop n data"])
  qed
qed

lemma toy_lib_ok: "lib_ok toy_lib (\<lambda>b. b) toy_deflate toy_inflating"
  unfolding lib_ok_def
proof (intro conjI)
  show "\<forall>d b data xs n. toy_inflating d b data xs \<longrightarrow> 0 < n \<longrightarrow>
    (\<exists>out err d' b'. fl_Read toy_lib d b n = ((out, err), d', b') \<and>
      (if err = None then \<exists>data'. out \<noteq> [] \<and> data = out @ data' \<and> toy_inflating d' b' data' xs else err = Some gzEOF \<and> out = data \<and> b' = xs))"
    using toy_Read by blast
qed (auto simp: toy_lib_def toy_deflate_def toy_inflating_def dropWhile_append)

subsection \<open>Properties\<close>

text \<open>
  C14. The gzip reader of the server gives the concatenation of the members. Whatever optional parts the
  headers have, with a new or a pooled reader and buffers of any sizes, reading the file gives the data of
  all members in order, members without data among them, and then EOF: no read hangs, fails or panics. The
  fuel, the rounds of one read, needs to be no more than the number of members.
\<close>

theorem gunzip_concatenates:
  assumes "lib_ok L rest deflate inflating" and "ms \<noteq> []" and "\<forall>m \<in> set ms. member_ok deflate m"
    and "rest b = concat (map member_bytes ms)" and "length ms \<le> fuel"
    and "\<forall>n \<in> set ns. 0 < n" and "length (concat (map m_data ms)) < length ns"
  shows "\<exists>z. Pool_Get L pooled b = Ret (None, z) \<and> read_all L fuel ns z = Ret (concat (map m_data ms), Some gzEOF)"
proof -
  obtain m ms' where m: "ms = m # ms'" using assms(2) by (cases ms) auto
  let ?z = "(case pooled of Some z \<Rightarrow> z | None \<Rightarrow> \<lparr>br = None, decompressor = None\<rparr>)\<lparr>br := Some b\<rparr>"
  obtain z' where z': "skipHeader L ?z = Ret (None, z')"
    "reading_members deflate inflating (length ms') z' (concat (map m_data (m # ms')))"
    by (rule reading_start [OF assms(1), of m ms' ?z b "length ms'"]) (use assms(3,4) m in simp_all)
  have "Pool_Get L pooled b = Ret (None, z')" using z'(1) by (simp add: Pool_Get_def zNewReader_def zReset_def split: option.splits)
  moreover have "read_all L fuel ns z' = Ret (concat (map m_data (m # ms')), Some gzEOF)"
    by (rule read_all_members [OF assms(1) z'(2)]) (use assms(5-7) m in simp_all)
  ultimately show ?thesis using m by simp
qed

lemma gunzip_concatenates_witness:
  "\<exists>z. Pool_Get toy_lib None ([0x1f, 0x8b, 8, 12, 1, 2, 3, 4, 5, 6] @ [1, 0, 9] @ [0x61, 0] @ [2, 7, 8] @ replicate 8 0 @
      [0x1f, 0x8b, 8, 0, 1, 2, 3, 4, 5, 6] @ [0] @ replicate 8 0 @ [0x1f, 0x8b, 8, 2, 1, 2, 3, 4, 5, 6] @ [9, 9] @ [1, 5] @ replicate 8 0) = Ret (None, z) \<and>
    read_all toy_lib 3 [1, 1, 1, 1] z = Ret ([7, 8, 5], Some gzEOF)"
proof -
  let ?ms = "[\<lparr>m_header = [0x1f, 0x8b, 8, 12, 1, 2, 3, 4, 5, 6] @ [1, 0, 9] @ [0x61, 0], m_data = [7, 8], m_deflated = [2, 7, 8], m_trailer = replicate 8 0\<rparr>,
    \<lparr>m_header = [0x1f, 0x8b, 8, 0, 1, 2, 3, 4, 5, 6], m_data = [], m_deflated = [0], m_trailer = replicate 8 0\<rparr>,
    \<lparr>m_header = [0x1f, 0x8b, 8, 2, 1, 2, 3, 4, 5, 6] @ [9, 9], m_data = [5], m_deflated = [1, 5], m_trailer = replicate 8 0\<rparr>]"
  have 12: "bit (12 :: byte) 2" "bit (12 :: byte) 3" "\<not> bit (12 :: byte) 4" "\<not> bit (12 :: byte) 1" by (simp_all add: bit_iff_odd)
  have 2: "\<not> bit (2 :: byte) 2" "\<not> bit (2 :: byte) 3" "\<not> bit (2 :: byte) 4" "bit (2 :: byte) 1" by (simp_all add: bit_iff_odd)
  have h1: "gz_header ([0x1f, 0x8b, 8, 12, 1, 2, 3, 4, 5, 6] @ [1, 0, 9] @ [0x61, 0])"
    unfolding gz_header_def
    by (rule exI [of _ 12], rule exI [of _ "[1, 2, 3, 4, 5, 6]"], rule exI [of _ "[1, 0, 9]"], rule exI [of _ "[0x61, 0]"])
      (use 12 in \<open>auto simp: terminated_def intro: exI [of _ "[0x61]"]\<close>)
  have h2: "gz_header [0x1f, 0x8b, 8, 0, 1, 2, 3, 4, 5, 6]"
    unfolding gz_header_def by (rule exI [of _ 0], rule exI [of _ "[1, 2, 3, 4, 5, 6]"]) (auto simp: terminated_def)
  have h3: "gz_header ([0x1f, 0x8b, 8, 2, 1, 2, 3, 4, 5, 6] @ [9, 9])"
    unfolding gz_header_def by (rule exI [of _ 2], rule exI [of _ "[1, 2, 3, 4, 5, 6]"]) (use 2 in \<open>auto simp: terminated_def\<close>)
  have "\<forall>m \<in> set ?ms. member_ok toy_deflate m" using h1 h2 h3 by (simp add: member_ok_def toy_deflate_def)
  from gunzip_concatenates [OF toy_lib_ok _ this, of "concat (map member_bytes ?ms)" 3 "[1, 1, 1, 1]" None] show ?thesis
    by (simp add: member_bytes_def)
qed

text \<open>
  A file that does not start with the magic numbers is refused.
\<close>

lemma gunzip_refuses:
  assumes "lib_ok L rest deflate inflating" and "rest b = buf @ xs" and "length buf = 10" and "take 3 buf \<noteq> [0x1f, 0x8b, 8]"
  obtains z where "Pool_Get L pooled b = Ret (Some GzHeader, z)"
proof -
  let ?z = "(case pooled of Some z \<Rightarrow> z | None \<Rightarrow> \<lparr>br = None, decompressor = None\<rparr>)\<lparr>br := Some b\<rparr>"
  obtain a b' c buf' where q: "buf = a # b' # c # buf'" using assms(3) by (auto simp: eval_nat_numeral length_Suc_conv)
  obtain b1 where "z_ReadBytes L 10 ?z = Ret ((buf, None), ?z\<lparr>br := Some b1\<rparr>)"
    by (rule lib_ReadBytes [OF assms(1), of ?z b 10 buf xs]) (use assms in simp_all)
  then have "skipHeader L ?z = Ret (Some GzHeader, ?z\<lparr>br := Some b1\<rparr>)" using assms(4) q by (simp add: skipHeader_def go_index_def)
  then show thesis by (cases pooled) (auto simp: Pool_Get_def zNewReader_def zReset_def intro: that)
qed

end
