(* ===== verification/Session.thy ===== *)
theory Session
  imports Client Delivery
begin

text \<open>
  The server's side of a connection: \<open>server_session.go\<close>, the goroutine of \<open>Server.Listen\<close> for an
  accepted connection, and the pool of iterators. A session writes to the connection through the \<open>net\<close> of
  \<open>Client\<close> and reads it through its iterator.
\<close>

subsection \<open>iter_pool.go\<close>

text \<open>\<open>pooled\<close> is what \<open>sync.Pool\<close> gives: an iterator that was put back, or nothing; \<open>Put\<close> is what is put back.\<close>

definition IterPool_Get :: "'r Iterator option \<Rightarrow> 'r \<Rightarrow> 'r Iterator" where
  "IterPool_Get pooled rd = (case pooled of Some it \<Rightarrow> Reset rd it | None \<Rightarrow> NewIterator rd)"

definition IterPool_Put :: "'r \<Rightarrow> 'r Iterator \<Rightarrow> 'r Iterator" where
  "IterPool_Put nil it = Reset nil it"

subsection \<open>server_session.go\<close>

record ServerOptions =
  so_Hostname :: bytes
  so_Auth :: "bytes \<Rightarrow> bytes + Credentials"
  so_PasswordAuth :: bool

text \<open>The defaults of \<open>NewServer\<close>: without a callback every user has the empty credentials.\<close>

definition NewServer :: "bytes \<Rightarrow> (bytes \<Rightarrow> bytes + Credentials) option \<Rightarrow> bool \<Rightarrow> ServerOptions" where
  "NewServer hostname auth passwordAuth =
     \<lparr> so_Hostname = hostname, so_Auth = (case auth of Some f \<Rightarrow> f | None \<Rightarrow> \<lambda>username. Inr no_credentials), so_PasswordAuth = passwordAuth \<rparr>"

record ('r, 'q) ServerSession =
  ss_conn :: nat
  ss_iter :: "'r Iterator"
  ss_write :: bytes
  ss_user :: bytes
  ss_trans :: "'q TransportPhase"
  ss_id :: u64

definition newServerSession :: "'r Iterator option \<Rightarrow> nat \<Rightarrow> 'r \<Rightarrow> ('r, 'q) ServerSession" where
  "newServerSession pooled i rd =
     \<lparr> ss_conn = i, ss_iter = IterPool_Get pooled rd, ss_write = [], ss_user = [], ss_trans = Init [], ss_id = 0 \<rparr>"

text \<open>\<open>ss.write.WriteTo(ss.conn)\<close>\<close>

definition session_WriteTo :: "wkept \<Rightarrow> ('r, 'q) ServerSession \<Rightarrow> 'n net \<Rightarrow> net_err option \<times> ('r, 'q) ServerSession \<times> 'n net" where
  "session_WriteTo kept ss n =
     (let ((k, err), n) = conn_Write (ss_conn ss) (ss_write ss) n in (err, ss\<lparr>ss_write := kept (ss_write ss) k\<rparr>, n))"

definition authenticate :: "wkept \<Rightarrow> 'r ring \<Rightarrow> (bytes \<Rightarrow> bytes) \<Rightarrow> (herr \<Rightarrow> bytes) \<Rightarrow> ServerOptions \<Rightarrow> ('r, 'q) ServerSession \<Rightarrow> 'n net \<Rightarrow>
    (net_err option \<times> ('r, 'q) ServerSession \<times> 'n net) go" where
  "authenticate kept R sha err_text opt ss n =
     (case rand_Read n of
        (None, n) \<Rightarrow> Ret (Some RandFailed, ss, n)
      | (Some nonceAuth, n) \<Rightarrow>
          let nonce = take 24 nonceAuth;
              auth = (if \<not> so_PasswordAuth opt then [] else drop 24 nonceAuth);
              (err, ss, n) = session_WriteTo kept (ss\<lparr>ss_write := writeHelo (ss_write ss) nonce auth\<rparr>) n in
          if err \<noteq> None then Ret (err, ss, n)
          else do {
            ((err, salt, cred), it) \<leftarrow> readPing R sha (so_Auth opt) nonce auth (ss_iter ss);
            let ss = ss\<lparr>ss_iter := it\<rparr>;
            case err of
              Some e \<Rightarrow> do {
                b \<leftarrow> writePong sha (so_Hostname opt) (ss_write ss) nonce salt [] False (err_text e);
                let (_, ss, n) = session_WriteTo kept (ss\<lparr>ss_write := b\<rparr>) n;
                Ret (Some (PhaseFailed e), ss, n) }
            | None \<Rightarrow> do {
                b \<leftarrow> writePong sha (so_Hostname opt) (ss_write ss) salt nonce (SharedKey cred) True [];
                let (err, ss, n) = session_WriteTo kept (ss\<lparr>ss_write := b\<rparr>) n;
                if err \<noteq> None then Ret (err, ss, n) else Ret (None, ss\<lparr>ss_user := Username cred\<rparr>, n) } })"

text \<open>The callback that \<open>initTransportPhase\<close> gives to the transport phase.\<close>

definition ss_ack :: "wkept \<Rightarrow> bytes \<Rightarrow> ('r, 'q) ServerSession \<Rightarrow> 'n net \<Rightarrow> net_err option \<times> ('r, 'q) ServerSession \<times> 'n net" where
  "ss_ack kept chunk ss n =
     (let b = AppendMapHeader (ss_write ss) 1;
          b = AppendString b (text_bytes ''ack'');
          b = AppendString b chunk
      in session_WriteTo kept (ss\<lparr>ss_write := b\<rparr>) n)"

definition initTransportPhase :: "('r, 'q) ServerSession \<Rightarrow> ('r, 'q) ServerSession" where
  "initTransportPhase ss = ss\<lparr>ss_trans := Init []\<rparr>"

text \<open>
  The callback only writes, and whether the connection takes the write does not depend on what is
  written, so \<open>Next\<close> can run the transport phase with the results of the coming writes and then carry
  out the callbacks that it made, in order. Deadlines are left out.
\<close>

fun send_acks :: "wkept \<Rightarrow> bytes list \<Rightarrow> ('r, 'q) ServerSession \<Rightarrow> 'n net \<Rightarrow> ('r, 'q) ServerSession \<times> 'n net" where
  "send_acks kept [] ss n = (ss, n)"
| "send_acks kept (c # cs) ss n = (let (_, ss, n) = ss_ack kept c ss n in send_acks kept cs ss n)"

definition ack_results :: "'n net \<Rightarrow> bytes option list" where
  "ack_results n = map (map_option (\<lambda>_. [])) (writes n)"

definition session_Next :: "wkept \<Rightarrow> 'r ring \<Rightarrow> 'q ring \<Rightarrow> ('r, 'q) sub \<Rightarrow> nat \<Rightarrow> nat \<Rightarrow> ('r, 'q) ServerSession \<Rightarrow> Entry \<Rightarrow> 'n net \<Rightarrow>
    ((transport_err option \<times> Entry) \<times> ('r, 'q) ServerSession \<times> 'n net) go" where
  "session_Next kept R Q S skip fuel ss e n = do {
     let t0 = (ss_trans ss)\<lparr>t_ack_results := ack_results n\<rparr>;
     ((err, e), it, t) \<leftarrow> t_Next R Q S skip fuel (ss_iter ss, t0) e;
     let (ss, n) = send_acks kept (drop (length (t_acks t0)) (t_acks t)) (ss\<lparr>ss_iter := it, ss_trans := t\<rparr>) n;
     Ret ((err, e), ss, n) }"

text \<open>\<open>Close\<close> gives iterator and buffer back and closes the connection.\<close>

definition session_Close :: "'r \<Rightarrow> ('r, 'q) ServerSession \<Rightarrow> 'n net \<Rightarrow> net_err option \<times> ('r, 'q) ServerSession \<times> 'n net" where
  "session_Close nil ss n =
     (let (err, n) = conn_Close (ss_conn ss) n in (err, ss\<lparr>ss_iter := IterPool_Put nil (ss_iter ss), ss_write := []\<rparr>, n))"

subsection \<open>server.go\<close>

datatype serve_err = AuthErr net_err | HandlerErr transport_err

text \<open>
  What the goroutine of an accepted connection does: the handler's value if it ran, the errors that
  \<open>HandleError\<close> was called with, and the session at its end; the deferred \<open>Close\<close> runs on every path.
\<close>

type_synonym ('r, 'q, 'n, 'v) handler = "('r, 'q) ServerSession \<Rightarrow> 'n net \<Rightarrow> (('v \<times> transport_err option) \<times> ('r, 'q) ServerSession \<times> 'n net) go"

definition serve :: "wkept \<Rightarrow> 'r ring \<Rightarrow> (bytes \<Rightarrow> bytes) \<Rightarrow> (herr \<Rightarrow> bytes) \<Rightarrow> ServerOptions \<Rightarrow> ('r, 'q, 'n, 'v) handler \<Rightarrow> u64 \<Rightarrow>
    'r Iterator option \<Rightarrow> 'r \<Rightarrow> nat \<Rightarrow> 'r \<Rightarrow> 'n net \<Rightarrow> ('v option \<times> serve_err list \<times> ('r, 'q) ServerSession \<times> 'n net) go" where
  "serve kept R sha err_text opt h sessId pooled nil i rd n = do {
     let ss = (newServerSession pooled i rd)\<lparr>ss_id := sessId + 1\<rparr>;
     (err, ss, n) \<leftarrow> authenticate kept R sha err_text opt ss n;
     case err of
       Some e \<Rightarrow> Ret (None, [AuthErr e], snd (session_Close nil ss n))
     | None \<Rightarrow> do {
         ((v, err), ss, n) \<leftarrow> h (initTransportPhase ss) n;
         Ret (Some v, (case err of Some e \<Rightarrow> if e = T_EOF then [] else [HandlerErr e] | None \<Rightarrow> []), snd (session_Close nil ss n)) } }"

text \<open>A handler that reads entries until \<open>Next\<close> fails, consuming each record.\<close>

fun session_entries :: "wkept \<Rightarrow> 'r ring \<Rightarrow> 'q ring \<Rightarrow> ('r, 'q) sub \<Rightarrow> nat \<Rightarrow> nat \<Rightarrow> ('r Iterator \<Rightarrow> ('v \<times> 'r Iterator) go) \<Rightarrow>
    ('q Iterator \<Rightarrow> ('v \<times> 'q Iterator) go) \<Rightarrow> nat \<Rightarrow> Entry \<Rightarrow> ('r, 'q, 'n, (bytes \<times> go_time \<times> 'v) list) handler" where
  "session_entries kept R Q S skip fuel cR cQ 0 e ss n = Ret (([], None), ss, n)"
| "session_entries kept R Q S skip fuel cR cQ (Suc k) e ss n = do {
     ((err, e), ss, n) \<leftarrow> session_Next kept R Q S skip fuel ss e n;
     case err of
       Some x \<Rightarrow> Ret (([], Some x), ss, n)
     | None \<Rightarrow> do {
         (v, it, t) \<leftarrow> consume_record cR cQ (en_Record e) (ss_iter ss, ss_trans ss);
         ((vs, x), ss, n) \<leftarrow> session_entries kept R Q S skip fuel cR cQ k e (ss\<lparr>ss_iter := it, ss_trans := t\<rparr>) n;
         Ret (((en_Tag e, en_Timestamp e, v) # vs, x), ss, n) } }"

subsection \<open>Writing to a connection that works\<close>

text \<open>\<open>drains kept\<close>: \<open>Buffer.WriteTo\<close> keeps nothing of a buffer that was written in full.\<close>

definition drains :: "wkept \<Rightarrow> bool" where
  "drains kept \<longleftrightarrow> (\<forall>b. kept b (len b) = [])"

lemma session_WriteTo_sends:
  assumes "drains kept" and "writes n = []"
  shows "session_WriteTo kept ss n = (None, ss\<lparr>ss_write := []\<rparr>, net_send (ss_conn ss) (ss_write ss) n)"
  using assms by (simp add: session_WriteTo_def conn_Write_def drains_def)

lemma net_send_send: "i < length (sent n) \<Longrightarrow> net_send i b (net_send i a n) = net_send i (a @ b) n"
  by (simp add: net_send_def)

lemma net_send_Nil: "net_send i [] n = n"
  by (simp add: net_send_def)

definition ack_msg :: "bytes \<Rightarrow> msg" where
  "ack_msg chunk = MMap [(MStr (text_bytes ''ack''), MStr chunk)]"

lemma encode_ack: "AppendString (AppendString (AppendMapHeader [] 1) (text_bytes ''ack'')) chunk = encode (ack_msg chunk)"
proof -
  have "AppendString (AppendString (AppendMapHeader [] 1) (text_bytes ''ack'')) chunk = AppendMapHeader [] 1 @ AppendString [] (text_bytes ''ack'') @ AppendString [] chunk"
    by (subst (1 2) AppendString_prefix) simp
  then show ?thesis by (simp add: ack_msg_def)
qed

lemma ss_ack_sends:
  assumes "drains kept" and "writes n = []" and "ss_write ss = []"
  shows "ss_ack kept chunk ss n = (None, ss, net_send (ss_conn ss) (encode (ack_msg chunk)) n)"
  using assms by (simp add: ss_ack_def session_WriteTo_sends encode_ack)

lemma send_acks_sends:
  assumes "drains kept" and "writes n = []" and "ss_write ss = []" and "ss_conn ss < length (sent n)"
  shows "send_acks kept cs ss n = (ss, net_send (ss_conn ss) (concat (map (\<lambda>c. encode (ack_msg c)) cs)) n)"
  using assms(2,4)
proof (induction cs arbitrary: n)
  case (Cons c cs)
  have "writes (net_send (ss_conn ss) (encode (ack_msg c)) n) = []" "ss_conn ss < length (sent (net_send (ss_conn ss) (encode (ack_msg c)) n))"
    using Cons.prems by (simp_all add: sent_net_send)
  from Cons.IH [OF this] ss_ack_sends [OF assms(1) Cons.prems(1) assms(3), of c] show ?case
    by (simp add: net_send_send [OF Cons.prems(2)] del: encode.simps)
qed (simp add: net_send_Nil)

subsection \<open>authenticate\<close>

text \<open>On a working connection \<open>authenticate\<close> is the two halves that \<open>Handshake\<close> studies.\<close>

lemma authenticate_halves:
  assumes "drains kept" and "writes n = []" and "salts n = Some rnd # rs" and "ss_write ss = []" and "ss_conn ss < length (sent n)"
    and "server_helo (so_PasswordAuth opt) rnd = (nonce, auth, helo)"
    and "server_answer R sha (so_Auth opt) err_text (so_Hostname opt) nonce auth (ss_iter ss) = Ret ((res, pong), it')"
  shows "authenticate kept R sha err_text opt ss n =
    Ret ((case res of Inl e \<Rightarrow> Some (PhaseFailed e) | Inr u \<Rightarrow> None),
      (case res of Inl e \<Rightarrow> ss\<lparr>ss_iter := it'\<rparr> | Inr u \<Rightarrow> ss\<lparr>ss_iter := it', ss_user := u\<rparr>),
      net_send (ss_conn ss) (helo @ pong) (n\<lparr>salts := rs\<rparr>))"
proof -
  have h: "nonce = take 24 rnd" "auth = (if so_PasswordAuth opt then drop 24 rnd else [])" "helo = writeHelo [] nonce auth"
    using assms(6) by (auto simp: server_helo_def Let_def)
  let ?n = "n\<lparr>salts := rs\<rparr>" and ?i = "ss_conn ss"
  have w: "writes (net_send ?i b ?n) = []" "ss_conn ss < length (sent ?n)" for b using assms(2,5) by (simp_all add: sent_net_send)
  obtain err salt cred it where r: "readPing R sha (so_Auth opt) nonce auth (ss_iter ss) = Ret ((err, salt, cred), it)"
    using assms(7) by (auto simp: server_answer_def split: bind_split_asm)
  show ?thesis
  proof (cases err)
    case None
    with assms(7) r obtain "writePong sha (so_Hostname opt) [] salt nonce (SharedKey cred) True [] = Ret pong" "res = Inr (Username cred)" "it' = it"
      by (auto simp: server_answer_def split: bind_split_asm)
    with None r assms(1-4) h w show ?thesis
      by (cases "so_PasswordAuth opt") (simp_all add: authenticate_def rand_Read_def session_WriteTo_sends net_send_send)
  next
    case (Some e)
    with assms(7) r obtain "writePong sha (so_Hostname opt) [] nonce salt [] False (err_text e) = Ret pong" "res = Inl e" "it' = it"
      by (auto simp: server_answer_def split: bind_split_asm)
    with Some r assms(1-4) h w show ?thesis
      by (cases "so_PasswordAuth opt") (simp_all add: authenticate_def rand_Read_def session_WriteTo_sends net_send_send)
  qed
qed

subsection \<open>The entries of a session\<close>

lemma session_Next_end:
  assumes E: "tenv_ok E" and f: "2 * m + 2 \<le> f" and kept: "drains kept" and "writes n = []" "ss_write ss = []" "ss_conn ss < length (sent n)"
    and s: "standing E [] skip m (ss_iter ss, ss_trans ss) [] ack"
  obtains e' ss' where "session_Next kept (conn E) (batch E) (readers E) skip f ss e n =
      Ret ((Some T_EOF, e'), ss', net_send (ss_conn ss) (concat (map (\<lambda>c. encode (ack_msg c)) ack)) n)"
    "ss_user ss' = ss_user ss" "ss_conn ss' = ss_conn ss"
proof -
  have "t_ack_results (ss_trans ss) = []" using s by (simp add: standing_def)
  then have t0: "(ss_trans ss)\<lparr>t_ack_results := ack_results n\<rparr> = ss_trans ss" using assms(4) by (simp add: ack_results_def)
  obtain e' it t where n: "t_Next (conn E) (batch E) (readers E) skip f (ss_iter ss, ss_trans ss) e = Ret ((Some T_EOF, e'), it, t)" "t_acks t = t_acks (ss_trans ss) @ ack"
    using standing_yields [OF E stops_end [OF E] s f] unfolding yields_def list.case by force
  with t0 send_acks_sends [OF kept assms(4), of "ss\<lparr>ss_iter := it, ss_trans := t\<rparr>"] assms(5,6) show thesis
    by (intro that [of e' "ss\<lparr>ss_iter := it, ss_trans := t\<rparr>"]) (simp_all add: session_Next_def del: encode.simps)
qed

lemma session_Next_entry:
  assumes E: "tenv_ok E" and f: "2 * m + 2 \<le> f" and kept: "drains kept" and "writes n = []" "ss_write ss = []" "ss_conn ss < length (sent n)"
    and s: "standing E [] skip m (ss_iter ss, ss_trans ss) ((tag, ts, kvs) # out) ack"
  obtains e' ss' a1 a2 where "session_Next kept (conn E) (batch E) (readers E) skip f ss e n =
      Ret ((None, e'), ss', net_send (ss_conn ss) (concat (map (\<lambda>c. encode (ack_msg c)) a1)) n)"
    "ack = a1 @ a2" "en_Tag e' = tag" "en_Timestamp e' = ts" "reading E [] skip m (ss_iter ss', ss_trans ss') (en_Record e') kvs out a2"
    "ss_user ss' = ss_user ss" "ss_conn ss' = ss_conn ss" "ss_write ss' = []"
proof -
  have "t_ack_results (ss_trans ss) = []" using s by (simp add: standing_def)
  then have t0: "(ss_trans ss)\<lparr>t_ack_results := ack_results n\<rparr> = ss_trans ss" using assms(4) by (simp add: ack_results_def)
  obtain e' it t a1 a2 where n: "t_Next (conn E) (batch E) (readers E) skip f (ss_iter ss, ss_trans ss) e = Ret ((None, e'), it, t)"
    "t_acks t = t_acks (ss_trans ss) @ a1" "ack = a1 @ a2" "en_Tag e' = tag" "en_Timestamp e' = ts" "reading E [] skip m (it, t) (en_Record e') kvs out a2"
    using standing_yields [OF E stops_end [OF E] s f] unfolding yields_def list.case prod.case by force
  with t0 send_acks_sends [OF kept assms(4), of "ss\<lparr>ss_iter := it, ss_trans := t\<rparr>"] assms(5,6) show thesis
    by (intro that [of e' "ss\<lparr>ss_iter := it, ss_trans := t\<rparr>" a1 a2]) (simp_all add: session_Next_def del: encode.simps)
qed

lemma session_entries_all:
  assumes E: "tenv_ok E" and c: "consumes_on (conn E) (conn_rest E) (\<lambda>_. ()) ok cR g" "consumes_on (batch E) (batch_rest E) (after E) ok cQ g"
    and f: "2 * m + 2 \<le> f" and kept: "drains kept"
  shows "standing E [] skip m (ss_iter ss, ss_trans ss) out ack \<Longrightarrow> length out < k \<Longrightarrow> writes n = [] \<Longrightarrow> ss_write ss = [] \<Longrightarrow> ss_conn ss < length (sent n) \<Longrightarrow>
    \<forall>(tag, ts, kvs) \<in> set out. ok kvs \<Longrightarrow>
    \<exists>ss'. session_entries kept (conn E) (batch E) (readers E) skip f cR cQ k e ss n =
      Ret ((map (\<lambda>(tag, ts, kvs). (tag, ts, g kvs)) out, Some T_EOF), ss', net_send (ss_conn ss) (concat (map (\<lambda>c. encode (ack_msg c)) ack)) n) \<and>
      ss_user ss' = ss_user ss \<and> ss_conn ss' = ss_conn ss"
proof (induction k arbitrary: ss n out ack e)
  case (Suc k)
  let ?enc = "\<lambda>cs. concat (map (\<lambda>c. encode (ack_msg c)) cs)"
  show ?case
  proof (cases out)
    case Nil
    obtain e' ss' where "session_Next kept (conn E) (batch E) (readers E) skip f ss e n = Ret ((Some T_EOF, e'), ss', net_send (ss_conn ss) (?enc ack) n)"
      "ss_user ss' = ss_user ss" "ss_conn ss' = ss_conn ss"
      by (rule session_Next_end [OF E f kept Suc.prems(3-5) Suc.prems(1) [unfolded Nil]])
    with Nil show ?thesis by simp
  next
    case (Cons x out')
    obtain tag ts kvs where x: "x = (tag, ts, kvs)" by (metis prod_cases3)
    obtain e' s1 a1 a2 where n: "session_Next kept (conn E) (batch E) (readers E) skip f ss e n = Ret ((None, e'), s1, net_send (ss_conn ss) (?enc a1) n)"
      "ack = a1 @ a2" "en_Tag e' = tag" "en_Timestamp e' = ts" "reading E [] skip m (ss_iter s1, ss_trans s1) (en_Record e') kvs out' a2"
      "ss_user s1 = ss_user ss" "ss_conn s1 = ss_conn ss" "ss_write s1 = []"
      by (rule session_Next_entry [OF E f kept Suc.prems(3-5) Suc.prems(1) [unfolded Cons x]])
    obtain it t where s2: "consume_record cR cQ (en_Record e') (ss_iter s1, ss_trans s1) = Ret (g kvs, it, t)" "standing E [] skip m (it, t) out' a2"
      by (rule consume_reading [OF c n(5)]) (use Suc.prems(6) Cons x in auto)
    let ?ss2 = "s1\<lparr>ss_iter := it, ss_trans := t\<rparr>" and ?n1 = "net_send (ss_conn ss) (?enc a1) n"
    have p: "writes ?n1 = []" "ss_conn ?ss2 < length (sent ?n1)" using Suc.prems(3,5) n(7) by (simp_all add: sent_net_send)
    from Suc.IH [of ?ss2 out' a2 ?n1 e'] s2(2) p n(7,8) Suc.prems(2,6) Cons obtain ss' where
      "session_entries kept (conn E) (batch E) (readers E) skip f cR cQ k e' ?ss2 ?n1 =
        Ret ((map (\<lambda>(tag, ts, kvs). (tag, ts, g kvs)) out', Some T_EOF), ss', net_send (ss_conn ss) (?enc a2) ?n1)"
      "ss_user ss' = ss_user s1" "ss_conn ss' = ss_conn s1" by (auto simp del: encode.simps)
    with n(1-4,6,7) s2(1) Cons x net_send_send [OF Suc.prems(5)] show ?thesis by (simp del: encode.simps)
  qed
qed simp

subsection \<open>Properties\<close>

lemma IterPool_Get_reads [simp]: "it_r (IterPool_Get pooled rd) = rd"
  by (cases pooled) (simp_all add: IterPool_Get_def Reset_def NewIterator_def)

lemma session_serves:
  fixes E :: "('r, 'q) tenv" and n :: "'n net"
  assumes "tenv_ok E" and "consumes (conn E) (conn_rest E) (\<lambda>_. ()) cR g" and "consumes (batch E) (batch_rest E) (after E) cQ g"
    and "drains kept" and "list_all2 (fmsg_wire (conn_limit E) (unzip E)) ms bss" and "2 * length ms + 2 \<le> fuel" and "length (concat (map entries_of ms)) < k"
    and "server_helo (so_PasswordAuth opt) rnd = (nonce, auth, helo)" and "length (concat bss) \<le> skip"
    and "server_answer (conn E) sha (so_Auth opt) err_text (so_Hostname opt) nonce auth (IterPool_Get pooled rd) = Ret ((Inr u, pong), it')"
    and "conn_rest E (it_r it') = concat bss" and "writes n = []" "salts n = Some rnd # rs" "i < length (sent n)"
  shows "\<exists>ss n'. serve kept (conn E) sha err_text opt (session_entries kept (conn E) (batch E) (readers E) skip fuel cR cQ k e) sid pooled nil i rd n =
      Ret (Some (map (\<lambda>(tag, ts, kvs). (tag, ts, g kvs)) (concat (map entries_of ms))), [], ss, n') \<and>
    sent n' = (sent n)[i := sent n ! i @ helo @ pong @ concat (map (\<lambda>c. encode (ack_msg c)) (concat (map acks_of ms)))] \<and> ss_user ss = u"
proof -
  let ?st = "(newServerSession pooled i rd)\<lparr>ss_id := sid + 1\<rparr> :: ('r, 'q) ServerSession" and ?n1 = "net_send i (helo @ pong) (n\<lparr>salts := rs\<rparr>)"
  let ?ss = "?st\<lparr>ss_iter := it', ss_user := u\<rparr>"
  let ?acks = "concat (map (\<lambda>c. encode (ack_msg c)) (concat (map acks_of ms)))"
  have s0: "ss_write ?st = []" "ss_conn ?st = i" "ss_iter ?st = IterPool_Get pooled rd" by (simp_all add: newServerSession_def)
  have a: "authenticate kept (conn E) sha err_text opt ?st n = Ret (None, ?ss, ?n1)"
  proof -
    have "ss_conn ?st < length (sent n)"
      "server_answer (conn E) sha (so_Auth opt) err_text (so_Hostname opt) nonce auth (ss_iter ?st) = Ret ((Inr u, pong), it')"
      using assms(10,14) s0(2,3) by simp_all
    from authenticate_halves [OF assms(4,12,13) s0(1) this(1) assms(8) this(2)] s0(2) show ?thesis by simp
  qed
  have st: "standing E [] skip (length ms) (ss_iter (initTransportPhase ?ss), ss_trans (initTransportPhase ?ss)) (concat (map entries_of ms)) (concat (map acks_of ms))"
    using assms(5,9,11) by (auto simp: initTransportPhase_def standing_def messages_left_def Init_def)
  have n1: "writes ?n1 = []" "i < length (sent ?n1)" using assms(12,14) by (simp_all add: sent_net_send)
  obtain ss' where r: "session_entries kept (conn E) (batch E) (readers E) skip fuel cR cQ k e (initTransportPhase ?ss) ?n1 =
      Ret ((map (\<lambda>(tag, ts, kvs). (tag, ts, g kvs)) (concat (map entries_of ms)), Some T_EOF), ss', net_send i ?acks ?n1)" "ss_user ss' = u"
    using session_entries_all [where ok = "\<lambda>_. True", OF assms(1-3,6,4) st assms(7) n1(1), of e] n1(2) s0(1,2)
    by (auto simp: initTransportPhase_def simp del: encode.simps)
  have c: "sent (snd (conn_Close j m)) = sent m" for j and m :: "'n net" by (simp add: conn_Close_def split: list.split)
  show ?thesis
    using a r c [of "ss_conn ss'" "net_send i ?acks ?n1"] assms(14)
    by (auto simp: serve_def session_Close_def sent_net_send split: prod.split simp del: encode.simps)
qed

text \<open>
  A whole session. For a client and a server with the same secrets, there are a PING and a PONG such that the client, reading HELO and
  PONG, writes that PING and accepts; and for every stream that carries the PING and then any sequence of Forward messages, the goroutine of
  the connection authenticates the user, hands the handler exactly the entries of all messages, in order, until the stream ends, reports no error, and has
  written to the connection nothing but HELO, PONG and the acknowledgement of every chunk, in order.
\<close>

theorem session_serves_client:
  assumes "tenv_ok E" and "consumes (conn E) (conn_rest E) (\<lambda>_. ()) cR g" and "consumes (batch E) (batch_rest E) (after E) cQ g"
    and "ring_contract Rc restc lc" and "128 \<le> conn_limit E" "128 \<le> lc" and "\<And>x. length (sha x) = 64"
    and "server_helo (so_PasswordAuth opt) rnd = (nonce, auth, helo)" "length rnd = 48" "length salt = 24"
    and "len chost \<le> conn_limit E" "len chost < 2 ^ 32" "len (Username cred) \<le> conn_limit E" "len (Username cred) < 2 ^ 32"
      "len (so_Hostname opt) \<le> lc" "len (so_Hostname opt) < 2 ^ 32" "\<And>e. len (err_text e) \<le> lc" "\<And>e. len (err_text e) < 2 ^ 32"
    and "so_Auth opt (if so_PasswordAuth opt then Username cred else []) = Inr scred"
    and "SharedKey scred = SharedKey cred" "so_PasswordAuth opt \<Longrightarrow> Password scred = Password cred"
    and "drains kept" and "list_all2 (fmsg_wire (conn_limit E) (unzip E)) ms bss" and "2 * length ms + 2 \<le> fuel" and "length (concat (map entries_of ms)) < k"
    and "length (concat bss) \<le> skip"
  shows "\<exists>ping pong.
    (\<forall>itc ys. restc (it_r itc) = helo @ pong @ ys \<longrightarrow>
       (\<exists>itc'. restc (it_r itc') = ys \<and> client_handshake Rc sha chost cred salt itc = Ret ((Inr (so_Hostname opt), ping), itc'))) \<and>
    (\<forall>rd n rs i pooled nil sid e. conn_rest E rd = ping @ concat bss \<and> writes n = [] \<and> salts n = Some rnd # rs \<and> i < length (sent n) \<longrightarrow>
       (\<exists>ss n'. serve kept (conn E) sha err_text opt (session_entries kept (conn E) (batch E) (readers E) skip fuel cR cQ k e) sid pooled nil i rd n =
           Ret (Some (map (\<lambda>(tag, ts, kvs). (tag, ts, g kvs)) (concat (map entries_of ms))), [], ss, n') \<and>
         sent n' = (sent n)[i := sent n ! i @ helo @ pong @ concat (map (\<lambda>c. encode (ack_msg c)) (concat (map acks_of ms)))] \<and>
         ss_user ss = Username scred))"
proof -
  let ?v = "verdict sha salt chost nonce auth cred scred"
  have "auth \<noteq> [] \<Longrightarrow> so_PasswordAuth opt" using assms(8) by (auto simp: server_helo_def Let_def split: if_splits)
  then have v: "?v = None" using assms(20,21) by (cases "so_PasswordAuth opt") (auto simp: verdict_def)
  obtain ping pong where
    s: "\<And>its xs. conn_rest E (it_r its) = ping @ xs \<Longrightarrow> \<exists>its'. conn_rest E (it_r its') = xs \<and>
       server_answer (conn E) sha (so_Auth opt) err_text (so_Hostname opt) nonce auth its =
         Ret ((case ?v of None \<Rightarrow> Inr (Username scred) | Some e \<Rightarrow> Inl (Const e), pong), its')" and
    c: "\<And>itc ys. restc (it_r itc) = helo @ pong @ ys \<Longrightarrow> \<exists>itc'. restc (it_r itc') = ys \<and>
       client_handshake Rc sha chost cred salt itc =
         Ret ((case ?v of
                 None \<Rightarrow> if hexdigest sha [salt, so_Hostname opt, nonce, SharedKey scred] \<noteq> hexdigest sha [salt, so_Hostname opt, nonce, SharedKey cred]
                   then Inl (Const ErrFailedAuth) else Inr (so_Hostname opt)
               | Some e \<Rightarrow> Inl (if err_text (Const e) \<noteq> [] then WithReason ErrFailedAuth (err_text (Const e)) else Const ErrFailedAuth),
               ping), itc')"
    by (rule handshake_outcome [where err_text = err_text and sha = sha and Auth = "so_Auth opt", OF tenv_rings(1) [OF assms(1)] assms(4-19)]) (rule that)
  have "\<exists>ss n'. serve kept (conn E) sha err_text opt (session_entries kept (conn E) (batch E) (readers E) skip fuel cR cQ k e) sid pooled nil i rd n =
           Ret (Some (map (\<lambda>(tag, ts, kvs). (tag, ts, g kvs)) (concat (map entries_of ms))), [], ss, n') \<and>
         sent n' = (sent n)[i := sent n ! i @ helo @ pong @ concat (map (\<lambda>c. encode (ack_msg c)) (concat (map acks_of ms)))] \<and> ss_user ss = Username scred"
    if "conn_rest E rd = ping @ concat bss" "writes n = []" "salts n = Some rnd # rs" "i < length (sent n)" for rd n rs i pooled nil sid e
  proof -
    have "conn_rest E (it_r (IterPool_Get pooled rd)) = ping @ concat bss" using that(1) by simp
    from s [OF this] v obtain it' where "conn_rest E (it_r it') = concat bss"
      "server_answer (conn E) sha (so_Auth opt) err_text (so_Hostname opt) nonce auth (IterPool_Get pooled rd) = Ret ((Inr (Username scred), pong), it')" by auto
    from session_serves [OF assms(1-3,22-25,8,26) this(2,1) that(2-4)] show ?thesis .
  qed
  moreover have "\<exists>itc'. restc (it_r itc') = ys \<and> client_handshake Rc sha chost cred salt itc = Ret ((Inr (so_Hostname opt), ping), itc')"
    if "restc (it_r itc) = helo @ pong @ ys" for itc ys using c [OF that] v assms(20) by simp
  ultimately show ?thesis by blast
qed

text \<open>
  C37. The handler of a connection runs only after its PING was accepted, on the session of the user that the callback named; otherwise \<open>HandleError\<close> gets
  exactly the error of the handshake.
\<close>

theorem serve_authenticates:
  fixes h :: "('r, 'q, 'n, 'v) handler"
  assumes "serve kept R sha err_text opt h sid pooled nil i rd n = Ret (v, errs, ss, n')"
  shows "case v of
      None \<Rightarrow> \<exists>x ss1 n1. authenticate kept R sha err_text opt ((newServerSession pooled i rd)\<lparr>ss_id := sid + 1\<rparr> :: ('r, 'q) ServerSession) n = Ret (Some x, ss1, n1) \<and> errs = [AuthErr x]
    | Some r \<Rightarrow> \<exists>nonce auth salt cred it ss1 n1 x ss2 n2.
        readPing R sha (so_Auth opt) nonce auth (IterPool_Get pooled rd) = Ret ((None, salt, cred), it) \<and>
        h ss1 n1 = Ret ((r, x), ss2, n2) \<and> ss_user ss1 = Username cred \<and> ss_iter ss1 = it \<and> ss_trans ss1 = Init [] \<and>
        errs = (if x = None \<or> x = Some T_EOF then [] else [HandlerErr (the x)])"
proof -
  let ?ss = "(newServerSession pooled i rd)\<lparr>ss_id := sid + 1\<rparr> :: ('r, 'q) ServerSession"
  obtain err ss1 n1 where a: "authenticate kept R sha err_text opt ?ss n = Ret (err, ss1, n1)"
    using assms by (cases "authenticate kept R sha err_text opt ?ss n") (auto simp: serve_def)
  show ?thesis
  proof (cases err)
    case (Some x)
    with a assms show ?thesis by (auto simp: serve_def)
  next
    case None
    with a assms obtain r x ss2 n2 where h: "h (initTransportPhase ss1) n1 = Ret ((r, x), ss2, n2)" "v = Some r"
      "errs = (case x of Some e \<Rightarrow> if e = T_EOF then [] else [HandlerErr e] | None \<Rightarrow> [])"
      by (auto simp: serve_def split: bind_split_asm)
    from None a obtain nonce auth salt cred it where r: "readPing R sha (so_Auth opt) nonce auth (IterPool_Get pooled rd) = Ret ((None, salt, cred), it)"
      "ss_user ss1 = Username cred" "ss_iter ss1 = it"
      by (auto simp: authenticate_def newServerSession_def session_WriteTo_def Let_def split: option.splits bind_split_asm prod.splits if_splits)
    have "errs = (if x = None \<or> x = Some T_EOF then [] else [HandlerErr (the x)])" using h(3) by (auto split: option.splits)
    then show ?thesis unfolding h(2) option.case
      by (rule_tac exI [of _ nonce], rule_tac exI [of _ auth], rule_tac exI [of _ salt], rule_tac exI [of _ cred], rule_tac exI [of _ it],
        rule_tac exI [of _ "initTransportPhase ss1"], rule_tac exI [of _ n1], rule_tac exI [of _ x], rule_tac exI [of _ ss2], rule_tac exI [of _ n2])
        (use h(1) r in \<open>simp add: initTransportPhase_def\<close>)
  qed
qed

text \<open>A client and a server with the same secrets, and the messages of a sample session.\<close>

definition sample_cred :: Credentials where
  "sample_cred = \<lparr>Username = [1], Password = [2], SharedKey = [3]\<rparr>"

definition sample_opt :: ServerOptions where
  "sample_opt = NewServer [8] (Some (StaticAuthServer sample_cred)) True"

definition sample_session :: "fmsg list" where
  "sample_session = [Single [0x74] sample_event, Compressed [0x75] [sample_event, sample_event] (Some [(chunk_key, MStr [1, 2])])]"

definition sample_net :: "bytes net" where
  "sample_net = \<lparr>dials = [], writes = [], closes = [], salts = [Some (replicate 48 5)], sent = [[]]\<rparr>"

lemma sample_contracts:
  "tenv_ok (list_env 128 list_unzip)"
  "consumes (conn (list_env 128 list_unzip)) (conn_rest (list_env 128 list_unzip)) (\<lambda>_. ()) (skip_record (list_ring 128) (\<lambda>r. r)) (\<lambda>_. ())"
  "consumes (batch (list_env 128 list_unzip)) (batch_rest (list_env 128 list_unzip)) (after (list_env 128 list_unzip)) (skip_record (pair_ring 128) fst) (\<lambda>_. ())"
  "ring_contract (list_ring 128) (\<lambda>r. r) 128" "drains (\<lambda>b k. [])"
  using list_consumes [of 128] list_ring_contract [of 128] list_env_ok [of 128 list_unzip] by (simp_all add: drains_def)

lemma sample_peers:
  "128 \<le> conn_limit (list_env 128 list_unzip)" "(128 :: int) \<le> 128" "\<And>x. length (toy_sha x) = 64"
  "server_helo (so_PasswordAuth sample_opt) (replicate 48 5) = (replicate 24 5, replicate 24 5, writeHelo [] (replicate 24 5) (replicate 24 5))"
  "length (replicate 48 5 :: bytes) = 48" "length (replicate 24 6 :: bytes) = 24"
  "len [4 :: byte] \<le> conn_limit (list_env 128 list_unzip)" "len [4 :: byte] < 2 ^ 32"
  "len (Username sample_cred) \<le> conn_limit (list_env 128 list_unzip)" "len (Username sample_cred) < 2 ^ 32"
  "len (so_Hostname sample_opt) \<le> 128" "len (so_Hostname sample_opt) < 2 ^ 32" "\<And>e. len ((\<lambda>_ :: herr. [9 :: byte]) e) \<le> 128" "\<And>e. len ((\<lambda>_ :: herr. [9 :: byte]) e) < 2 ^ 32"
  "so_Auth sample_opt (if so_PasswordAuth sample_opt then Username sample_cred else []) = Inr sample_cred"
  "SharedKey sample_cred = SharedKey sample_cred" "so_PasswordAuth sample_opt \<Longrightarrow> Password sample_cred = Password sample_cred"
  by (simp_all add: sample_opt_def sample_cred_def NewServer_def StaticAuthServer_def server_helo_def Let_def)

lemma sample_stream_wire:
  "list_all2 (fmsg_wire (conn_limit (list_env 128 list_unzip)) (unzip (list_env 128 list_unzip))) sample_session sample_stream"
  "2 * length sample_session + 2 \<le> (6 :: nat)" "length (concat (map entries_of sample_session)) < (4 :: nat)"
  "length (concat sample_stream) \<le> length (concat sample_stream)"
  using sample_messages [of 128] by (simp_all add: sample_session_def)

lemmas sample_session_facts = sample_contracts(1-4) sample_peers sample_contracts(5) sample_stream_wire

lemma sample_session_results:
  "map (\<lambda>(tag, ts, kvs). (tag, ts, ())) (concat (map entries_of sample_session)) = [([0x74], time_Unix 7 0, ()), ([0x75], time_Unix 7 0, ()), ([0x75], time_Unix 7 0, ())]"
  "concat (map (\<lambda>c. encode (ack_msg c)) (concat (map acks_of sample_session))) = encode (ack_msg [1, 2])"
  "writes sample_net = []" "salts sample_net = Some (replicate 48 5) # []" "0 < length (sent sample_net)" "sent sample_net = [[]]"
  by (simp_all add: sample_session_def sample_net_def sample_event_def chunks_opt_def del: encode.simps)

lemma session_serves_client_witness:
  "\<exists>ping pong ss n'. serve (\<lambda>b k. []) (list_ring 128) toy_sha (\<lambda>_. [9]) sample_opt
      (session_entries (\<lambda>b k. []) (list_ring 128) (pair_ring 128) (list_sub list_unzip) (length (concat sample_stream)) 6
         (skip_record (list_ring 128) (\<lambda>r. r)) (skip_record (pair_ring 128) fst) 4 empty_Entry) 0 None [] 0 (ping @ concat sample_stream) sample_net =
      Ret (Some [([0x74], time_Unix 7 0, ()), ([0x75], time_Unix 7 0, ()), ([0x75], time_Unix 7 0, ())], [], ss, n') \<and>
    sent n' = [writeHelo [] (replicate 24 5) (replicate 24 5) @ pong @ encode (ack_msg [1, 2])] \<and> ss_user ss = [1]"
proof -
  let ?E = "list_env 128 list_unzip" and ?n = "replicate 24 5 :: bytes"
  from session_serves_client [where sha = toy_sha and err_text = "\<lambda>_. [9]", OF sample_session_facts, OF asm_rl] obtain ping pong where
    r: "\<And>rd (n :: bytes net) rs i pooled nil sid e. conn_rest ?E rd = ping @ concat sample_stream \<and> writes n = [] \<and> salts n = Some (replicate 48 5) # rs \<and> i < length (sent n) \<Longrightarrow>
       (\<exists>ss n'. serve (\<lambda>b k. []) (conn ?E) toy_sha (\<lambda>_. [9]) sample_opt (session_entries (\<lambda>b k. []) (conn ?E) (batch ?E) (readers ?E) (length (concat sample_stream)) 6
           (skip_record (list_ring 128) (\<lambda>r. r)) (skip_record (pair_ring 128) fst) 4 e) sid pooled nil i rd n =
           Ret (Some (map (\<lambda>(tag, ts, kvs). (tag, ts, ())) (concat (map entries_of sample_session))), [], ss, n') \<and>
         sent n' = (sent n)[i := sent n ! i @ writeHelo [] ?n ?n @ pong @ concat (map (\<lambda>c. encode (ack_msg c)) (concat (map acks_of sample_session)))] \<and>
         ss_user ss = Username sample_cred)" by blast
  from r [of "ping @ concat sample_stream" sample_net "[]" 0 empty_Entry 0 None "[]"] show ?thesis
    by (auto simp: sample_session_results sample_cred_def simp del: encode.simps)
qed

lemma serve_authenticates_witness:
  "\<exists>errs ss n' x ss1 n1. serve (\<lambda>b k. []) (list_ring 9) toy_sha (\<lambda>_. []) (NewServer [8] None False) (\<lambda>(ss :: (bytes, bytes) ServerSession) n. Ret ((True, None), ss, n)) 0 None [] 0 [0xc0]
      \<lparr>dials = [] :: bytes option list, writes = [], closes = [], salts = [Some (replicate 48 5)], sent = [[]]\<rparr> = Ret (None, errs, ss, n') \<and>
    authenticate (\<lambda>b k. []) (list_ring 9) toy_sha (\<lambda>_. []) (NewServer [8] None False) ((newServerSession None 0 [0xc0])\<lparr>ss_id := 1\<rparr> :: (bytes, bytes) ServerSession)
      \<lparr>dials = [] :: bytes option list, writes = [], closes = [], salts = [Some (replicate 48 5)], sent = [[]]\<rparr> = Ret (Some x, ss1, n1) \<and> errs = [AuthErr x]"
proof -
  let ?n = "\<lparr>dials = [] :: bytes option list, writes = [], closes = [], salts = [Some (replicate 48 5)], sent = [[]]\<rparr>"
  let ?s = "(newServerSession None 0 [0xc0])\<lparr>ss_id := 1\<rparr> :: (bytes, bytes) ServerSession"
  have w: "wire MNil [0xc0]" using encode_wire [of MNil] by (simp add: AppendNil_def)
  have R: "ring_contract (list_ring 9) (\<lambda>r. r) 9" by (rule list_ring_contract) simp
  have "it_r (ss_iter ?s) = [0xc0] @ []" by (simp add: newServerSession_def)
  from Next_wire [OF R w this] obtain c l r where n: "Next (list_ring 9) (ss_iter ?s) = Ret (True, token (ss_iter ?s) c (msg_type MNil) l r)" by metis
  have "\<exists>e it'. readPing (list_ring 9) toy_sha (so_Auth (NewServer [8] None False)) (replicate 24 5) [] (ss_iter ?s) = Ret ((Some e, [], no_credentials), it')"
    unfolding readPing_def expect_def NextExpectedType_token [OF n] by simp
  then obtain e pong it' where p: "server_answer (list_ring 9) toy_sha (so_Auth (NewServer [8] None False)) (\<lambda>_. []) (so_Hostname (NewServer [8] None False))
      (replicate 24 5) [] (ss_iter ?s) = Ret ((Inl e, pong), it')"
    using writePong_bytes [where sha = toy_sha] by (fastforce simp: server_answer_def)
  have "\<exists>x ss1 n1. authenticate (\<lambda>b k. []) (list_ring 9) toy_sha (\<lambda>_. []) (NewServer [8] None False) ?s ?n = Ret (Some x, ss1, n1)"
    using authenticate_halves [where n = ?n and ss = ?s and kept = "\<lambda>b k. []" and rnd = "replicate 48 5" and rs = "[]" and helo = "writeHelo [] (replicate 24 5) []",
      OF _ _ _ _ _ _ p]
    by (simp add: drains_def newServerSession_def server_helo_def NewServer_def take_replicate Let_def)
  then obtain x ss1 n1 where a: "authenticate (\<lambda>b k. []) (list_ring 9) toy_sha (\<lambda>_. []) (NewServer [8] None False) ?s ?n = Ret (Some x, ss1, n1)" by blast
  then obtain errs ss n' where s: "serve (\<lambda>b k. []) (list_ring 9) toy_sha (\<lambda>_. []) (NewServer [8] None False) (\<lambda>(ss :: (bytes, bytes) ServerSession) n. Ret ((True, None), ss, n)) 0 None [] 0 [0xc0] ?n =
    Ret (None, errs, ss, n')" by (cases "snd (session_Close [] ss1 n1)") (simp add: serve_def)
  from serve_authenticates [OF this] a s show ?thesis by auto
qed

end
