(* ===== verification/Server.thy ===== *)
theory Server
  imports Session
begin

text \<open>
  \<open>Server.Listen\<close> of \<open>server.go\<close> with the goroutines it starts (one for each accepted connection, one that
  closes the sockets, one that answers heartbeats) and \<open>server_heartbeat.go\<close>, as the transition relation
  \<open>listen_step\<close>. A connection is a value of its own network, so what its goroutine does is one
  transition, \<open>serve\<close> of \<open>Session\<close>; the goroutines share the counter of the sessions, the pool of iterators
  and the callback \<open>HandleError\<close>. TLS carries the same bytes, and the log lines are left out.
\<close>

subsection \<open>server_heartbeat.go\<close>

text \<open>A result of \<open>ReadFromUDPAddrPort\<close> into a buffer of one byte.\<close>

record 'a datagram =
  dg_data :: "byte option"
  dg_addr :: 'a
  dg_err :: bool

text \<open>One round of the loop: the buffer afterwards and what is sent back.\<close>

definition heartbeat_round :: "byte \<Rightarrow> 'a datagram \<Rightarrow> byte \<times> (byte \<times> 'a) list" where
  "heartbeat_round buf x =
     (let (n, buf) = (case dg_data x of None \<Rightarrow> (0, buf) | Some b \<Rightarrow> (1 :: int, b)) in
      (buf, if n > 0 then [(buf, dg_addr x)] else []))"

subsection \<open>server.go\<close>

datatype listen_err = ListenErr | HeartbeatErr | AcceptErr

text \<open>
  \<open>sv_waiting\<close>, \<open>sv_running\<close> and \<open>sv_finished\<close> are the goroutines of the accepted connections, before and after they
  take their number and at their end. \<open>sv_accepted\<close>, \<open>sv_numbered\<close> and \<open>sv_heard\<close> are history
  variables that no transition reads.
\<close>

type_synonym ('r, 'q, 'n, 'v) outcome = "'v option \<times> serve_err list \<times> ('r, 'q) ServerSession \<times> 'n net"

type_synonym ('r, 'n) connection = "nat \<times> 'r \<times> 'n net"

record ('r, 'q, 'n, 'v, 'a) server =
  sv_listener :: bool
  sv_udp :: bool
  sv_cancelled :: bool
  sv_ret :: "listen_err option"
  sv_closer :: bool
  sv_sessId :: u64
  sv_pool :: "'r Iterator list"
  sv_waiting :: "('r, 'n) connection list"
  sv_running :: "(('r, 'n) connection \<times> u64) list"
  sv_finished :: "(('r, 'n) connection \<times> u64 \<times> ('r, 'q, 'n, 'v) outcome) list"
  sv_errors :: "serve_err list"
  sv_beating :: bool
  sv_buf :: byte
  sv_replies :: "(byte \<times> 'a) list"
  sv_accepted :: "('r, 'n) connection list"
  sv_numbered :: "(('r, 'n) connection \<times> u64) list"
  sv_heard :: "'a datagram list"

definition new_server :: "('r, 'q, 'n, 'v, 'a) server" where
  "new_server =
     \<lparr> sv_listener = False, sv_udp = False, sv_cancelled = False, sv_ret = None, sv_closer = False, sv_sessId = 0, sv_pool = [],
       sv_waiting = [], sv_running = [], sv_finished = [], sv_errors = [], sv_beating = False, sv_buf = 0, sv_replies = [],
       sv_accepted = [], sv_numbered = [], sv_heard = [] \<rparr>"

text \<open>
  \<open>Listen\<close> up to its loop; \<open>tcp\<close> and \<open>udp\<close> say whether the sockets can be opened. Every return runs the deferred \<open>cancel\<close>,
  but it is the goroutine \<open>sv_closer\<close>, started after both are open, that closes them.
\<close>

definition Listen_return :: "listen_err \<Rightarrow> ('r, 'q, 'n, 'v, 'a) server \<Rightarrow> ('r, 'q, 'n, 'v, 'a) server" where
  "Listen_return e s = s\<lparr>sv_ret := Some e, sv_cancelled := True\<rparr>"

definition Listen_start :: "bool \<Rightarrow> bool \<Rightarrow> ('r, 'q, 'n, 'v, 'a) server \<Rightarrow> ('r, 'q, 'n, 'v, 'a) server" where
  "Listen_start tcp udp s =
     (if \<not> tcp then Listen_return ListenErr s
      else let s = s\<lparr>sv_listener := True\<rparr> in
        if \<not> udp then Listen_return HeartbeatErr s
        else s\<lparr>sv_udp := True, sv_beating := True, sv_closer := True\<rparr>)"

text \<open>The goroutine of a connection, after it has taken the number \<open>no\<close>: \<open>serve\<close> counts from the number before.\<close>

definition goroutine :: "wkept \<Rightarrow> 'r ring \<Rightarrow> (bytes \<Rightarrow> bytes) \<Rightarrow> (herr \<Rightarrow> bytes) \<Rightarrow> ServerOptions \<Rightarrow> ('r, 'q, 'n, 'v) handler \<Rightarrow> 'r \<Rightarrow>
    u64 \<Rightarrow> 'r Iterator option \<Rightarrow> ('r, 'n) connection \<Rightarrow> ('r, 'q, 'n, 'v) outcome go" where
  "goroutine kept R sha err_text opt h nil no pooled c = (case c of (i, rd, n) \<Rightarrow> serve kept R sha err_text opt h (no - 1) pooled nil i rd n)"

type_synonym ('r, 'q, 'n, 'v) goroutine_fn = "u64 \<Rightarrow> 'r Iterator option \<Rightarrow> ('r, 'n) connection \<Rightarrow> ('r, 'q, 'n, 'v) outcome go"

text \<open>\<open>sync.Pool\<close> may give one of the iterators that were put back, or nothing.\<close>

definition pool_gives :: "'r Iterator list \<Rightarrow> 'r Iterator option \<Rightarrow> bool" where
  "pool_gives pool x \<longleftrightarrow> (case x of None \<Rightarrow> True | Some it \<Rightarrow> it \<in> set pool)"

definition finish :: "('r, 'n) connection \<Rightarrow> u64 \<Rightarrow> ('r, 'q, 'n, 'v) outcome \<Rightarrow> ('r, 'q, 'n, 'v, 'a) server \<Rightarrow> ('r, 'q, 'n, 'v, 'a) server" where
  "finish c no out s = (case out of (v, errs, ss, n) \<Rightarrow>
     s\<lparr>sv_running := remove1 (c, no) (sv_running s), sv_finished := sv_finished s @ [(c, no, out)],
       sv_errors := sv_errors s @ errs, sv_pool := ss_iter ss # sv_pool s\<rparr>)"

inductive listen_step :: "('r, 'q, 'n, 'v) goroutine_fn \<Rightarrow> ('r, 'q, 'n, 'v, 'a) server \<Rightarrow> ('r, 'q, 'n, 'v, 'a) server \<Rightarrow> bool" for run where
  accepts: "sv_ret s = None \<Longrightarrow> sv_listener s \<Longrightarrow>
    listen_step run s (s\<lparr>sv_waiting := c # sv_waiting s, sv_accepted := c # sv_accepted s\<rparr>)"
| accept_fails: "sv_ret s = None \<Longrightarrow> listen_step run s (Listen_return AcceptErr s)"
| takes_number: "c \<in> set (sv_waiting s) \<Longrightarrow> no = sv_sessId s + 1 \<Longrightarrow>
    listen_step run s (s\<lparr>sv_waiting := remove1 c (sv_waiting s), sv_sessId := no, sv_running := (c, no) # sv_running s,
      sv_numbered := sv_numbered s @ [(c, no)]\<rparr>)"
| finishes: "(c, no) \<in> set (sv_running s) \<Longrightarrow> pool_gives (sv_pool s) pooled \<Longrightarrow> run no pooled c = Ret out \<Longrightarrow>
    listen_step run s (finish c no out s)"
| cancels: "listen_step run s (s\<lparr>sv_cancelled := True\<rparr>)"
| closes: "sv_closer s \<Longrightarrow> sv_cancelled s \<Longrightarrow> listen_step run s (s\<lparr>sv_closer := False, sv_udp := False, sv_listener := False\<rparr>)"
| beats: "sv_beating s \<Longrightarrow> sv_udp s \<or> dg_data x = None \<and> dg_err x \<Longrightarrow> heartbeat_round (sv_buf s) x = (buf, out) \<Longrightarrow>
    listen_step run s (s\<lparr>sv_buf := buf, sv_replies := sv_replies s @ out, sv_beating := \<not> dg_err x, sv_heard := sv_heard s @ [x]\<rparr>)"

inductive_cases listen_stepE: "listen_step run s s'"

subsection \<open>The invariant of the server\<close>

definition numbered_from_one :: "('c \<times> u64) list \<Rightarrow> bool" where
  "numbered_from_one cs \<longleftrightarrow> map snd cs = map (\<lambda>k. of_nat (Suc k)) [0..<length cs]"

definition heartbeats :: "'a datagram list \<Rightarrow> (byte \<times> 'a) list" where
  "heartbeats xs = concat (map (\<lambda>x. case dg_data x of None \<Rightarrow> [] | Some b \<Rightarrow> [(b, dg_addr x)]) xs)"

definition server_ok :: "('r, 'q, 'n, 'v) goroutine_fn \<Rightarrow> ('r, 'q, 'n, 'v, 'a) server \<Rightarrow> bool" where
  "server_ok run s \<longleftrightarrow>
     mset (sv_accepted s) = mset (sv_waiting s) + mset (map fst (sv_numbered s)) \<and>
     mset (sv_numbered s) = mset (sv_running s) + mset (map (\<lambda>(c, no, out). (c, no)) (sv_finished s)) \<and>
     sv_sessId s = of_nat (length (sv_numbered s)) \<and> numbered_from_one (sv_numbered s) \<and>
     (\<forall>(c, no, out) \<in> set (sv_finished s). \<exists>pooled. run no pooled c = Ret out) \<and>
     sv_errors s = concat (map (\<lambda>(c, no, v, errs, ss, n). errs) (sv_finished s)) \<and>
     sv_replies s = heartbeats (sv_heard s)"

lemma heartbeat_round_reply: "heartbeat_round buf x = (buf', out) \<Longrightarrow> out = heartbeats [x]"
  by (auto simp: heartbeat_round_def heartbeats_def split: option.splits)

lemma heartbeats_append: "heartbeats (xs @ ys) = heartbeats xs @ heartbeats ys"
  by (simp add: heartbeats_def)

lemma numbered_snoc: "numbered_from_one cs \<Longrightarrow> numbered_from_one (cs @ [(c, of_nat (length cs) + 1)])"
  by (simp add: numbered_from_one_def add.commute)

lemma mset_remove1_add: "x \<in> set xs \<Longrightarrow> mset xs = add_mset x (mset (remove1 x xs))"
  by (simp add: insert_DiffM)

lemma listen_step_ok:
  assumes "listen_step run s s'" and "server_ok run s"
  shows "server_ok run s'"
  using assms(1)
proof (cases rule: listen_step.cases)
  case (takes_number c no)
  have "mset (sv_waiting s) = add_mset c (mset (remove1 c (sv_waiting s)))" using takes_number(2) by (rule mset_remove1_add)
  moreover have "sv_sessId s = of_nat (length (sv_numbered s))" using assms(2) by (simp add: server_ok_def)
  ultimately show ?thesis using assms(2) numbered_snoc [of "sv_numbered s" c] unfolding takes_number(1,3) by (simp add: server_ok_def ac_simps)
next
  case (finishes c no pooled out)
  obtain v errs ss n where out: "out = (v, errs, ss, n)" by (metis prod_cases4)
  have "mset (sv_running s) = add_mset (c, no) (mset (remove1 (c, no) (sv_running s)))" using finishes(2) by (rule mset_remove1_add)
  moreover have "\<exists>pooled. run no pooled c = Ret out" using finishes(4) by blast
  ultimately show ?thesis using assms(2) unfolding finishes(1) by (simp add: server_ok_def finish_def out)
next
  case (beats x buf out)
  with assms(2) heartbeat_round_reply [OF beats(4)] show ?thesis by (simp add: server_ok_def heartbeats_append)
qed (use assms(2) in \<open>simp_all add: server_ok_def Listen_return_def\<close>)

lemma reachable_server_ok:
  assumes "(listen_step run)\<^sup>*\<^sup>* s s'" and "server_ok run s"
  shows "server_ok run s'"
  using assms by (induction rule: rtranclp_induct) (auto intro: listen_step_ok)

lemma start_server_ok: "server_ok run (Listen_start tcp udp new_server)"
  by (simp add: server_ok_def Listen_start_def Listen_return_def new_server_def numbered_from_one_def heartbeats_def Let_def)

text \<open>After \<open>Listen\<close> has returned, no connection is accepted and the context stays cancelled.\<close>

lemma returned_step:
  assumes "listen_step run s s'" and "sv_ret s = Some e"
  shows "sv_ret s' = Some e \<and> sv_accepted s' = sv_accepted s \<and> (sv_cancelled s \<longrightarrow> sv_cancelled s')"
  using assms(1)
  by (cases rule: listen_step.cases) (use assms(2) in \<open>simp_all add: finish_def split: prod.split\<close>)

lemma returned_run:
  assumes "(listen_step run)\<^sup>*\<^sup>* s s'" and "sv_ret s = Some e"
  shows "sv_ret s' = Some e \<and> sv_accepted s' = sv_accepted s"
  using assms by (induction rule: rtranclp_induct) (auto dest: returned_step)

text \<open>When the second socket cannot be opened, the goroutine that closes the first is never started.\<close>

lemma leaked_run:
  assumes "(listen_step run)\<^sup>*\<^sup>* (Listen_start True False new_server) s"
  shows "sv_ret s = Some HeartbeatErr \<and> sv_listener s \<and> \<not> sv_closer s"
  using assms
proof (induction rule: rtranclp_induct)
  case (step s s')
  from step(2) show ?case
    by (cases rule: listen_step.cases) (use step(3) in \<open>simp_all add: finish_def split: prod.split\<close>)
qed (simp add: Listen_start_def Listen_return_def new_server_def)

lemma numbered_nth: "numbered_from_one cs \<Longrightarrow> k < length cs \<Longrightarrow> snd (cs ! k) = of_nat (Suc k)"
  unfolding numbered_from_one_def by (metis (no_types, lifting) add_0 diff_zero length_upt nth_map nth_upt)

lemma numbered_distinct:
  assumes "numbered_from_one cs" and "length cs < 2 ^ 64"
  shows "distinct (map snd cs)"
proof -
  have "inj_on (\<lambda>k. of_nat (Suc k) :: u64) {..<length cs}"
  proof (rule inj_onI)
    fix j k assume jk: "j \<in> {..<length cs}" "k \<in> {..<length cs}" "(of_nat (Suc j) :: u64) = of_nat (Suc k)"
    then have "unat (of_nat j :: u64) = unat (of_nat k :: u64)" by simp
    then have "j mod 2 ^ 64 = k mod 2 ^ 64" unfolding unat_of_nat by simp
    with jk(1,2) assms(2) show "j = k" by simp
  qed
  moreover have "map snd cs = map (\<lambda>k. of_nat (Suc k)) [0..<length cs]" using assms(1) by (simp add: numbered_from_one_def)
  ultimately show ?thesis by (simp add: distinct_map atLeast0LessThan)
qed

lemma finished_ran:
  assumes "server_ok run s" and "(c, no, out) \<in> set (sv_finished s)"
  obtains pooled where "run no pooled c = Ret out"
  using assms by (auto simp: server_ok_def)

lemma closer_run:
  assumes "(listen_step run)\<^sup>*\<^sup>* (Listen_start True True new_server) s"
  shows "sv_closer s \<or> \<not> sv_listener s \<and> \<not> sv_udp s"
  using assms
proof (induction rule: rtranclp_induct)
  case (step s s')
  from step(2) show ?case
    by (cases rule: listen_step.cases) (use step(3) in \<open>auto simp: finish_def Listen_return_def split: prod.splits\<close>)
qed (simp add: Listen_start_def)

lemma closes_down:
  assumes "sv_closer s \<or> \<not> sv_listener s \<and> \<not> sv_udp s"
  shows "\<exists>t. (listen_step run)\<^sup>*\<^sup>* s t \<and> sv_ret t \<noteq> None \<and> \<not> sv_listener t \<and> \<not> sv_udp t \<and> sv_running t = sv_running s"
proof -
  obtain s1 where s1: "(listen_step run)\<^sup>*\<^sup>* s s1" "sv_ret s1 \<noteq> None" "sv_closer s1 = sv_closer s" "sv_listener s1 = sv_listener s" "sv_udp s1 = sv_udp s"
    "sv_running s1 = sv_running s"
  proof (cases "sv_ret s")
    case None
    from r_into_rtranclp [where r = "listen_step run", OF accept_fails [OF this]] show thesis by (rule that) (simp_all add: Listen_return_def)
  qed (simp add: that [of s])
  show ?thesis
  proof (cases "sv_closer s")
    case True
    let ?s2 = "s1\<lparr>sv_cancelled := True\<rparr>"
    have "listen_step run s1 ?s2" by (rule cancels)
    moreover have "listen_step run ?s2 (?s2\<lparr>sv_closer := False, sv_udp := False, sv_listener := False\<rparr>)" using True s1(3) by (intro closes) simp_all
    ultimately have "(listen_step run)\<^sup>*\<^sup>* s (?s2\<lparr>sv_closer := False, sv_udp := False, sv_listener := False\<rparr>)"
      using s1(1) by (meson rtranclp.rtrancl_into_rtrancl)
    with s1 show ?thesis by (intro exI [of _ "?s2\<lparr>sv_closer := False, sv_udp := False, sv_listener := False\<rparr>"]) simp
  next
    case False
    with assms s1 show ?thesis by (intro exI [of _ s1]) simp
  qed
qed

subsection \<open>Properties\<close>


text \<open>
  C20. Accounting. In every reachable state, each accepted connection is in exactly one place: its goroutine waits, runs or has finished; the sessions
  are numbered from 1 in the order in which they took their numbers, so the numbers differ while there are fewer than \<open>2^64\<close>; each finished session is
  what its goroutine makes of its own connection and number; \<open>HandleError\<close> was called with exactly the errors of the
  finished sessions; every datagram with data was answered with its first byte to its sender, in order; and after \<open>Listen\<close> has
  returned no connection is accepted.
\<close>

theorem server_accounts:
  fixes run :: "('r, 'q, 'n, 'v) goroutine_fn" and s :: "('r, 'q, 'n, 'v, 'a) server"
  assumes "(listen_step run)\<^sup>*\<^sup>* (Listen_start tcp udp new_server) s"
  shows "mset (sv_accepted s) = mset (sv_waiting s) + mset (map fst (sv_running s)) + mset (map fst (sv_finished s)) \<and>
    mset (sv_numbered s) = mset (sv_running s) + mset (map (\<lambda>(c, no, out). (c, no)) (sv_finished s)) \<and>
    (\<forall>k < length (sv_numbered s). snd (sv_numbered s ! k) = of_nat (Suc k)) \<and>
    (length (sv_numbered s) < 2 ^ 64 \<longrightarrow> distinct (map snd (sv_numbered s))) \<and>
    (\<forall>(c, no, out) \<in> set (sv_finished s). \<exists>pooled. run no pooled c = Ret out) \<and>
    sv_errors s = concat (map (\<lambda>(c, no, v, errs, ss, n). errs) (sv_finished s)) \<and>
    sv_replies s = heartbeats (sv_heard s) \<and>
    (\<forall>e s'. sv_ret s = Some e \<and> (listen_step run)\<^sup>*\<^sup>* s s' \<longrightarrow> sv_ret s' = Some e \<and> sv_accepted s' = sv_accepted s)"
proof -
  have ok: "server_ok run s" by (rule reachable_server_ok [OF assms start_server_ok])
  then have n: "mset (sv_numbered s) = mset (sv_running s) + mset (map (\<lambda>(c, no, out). (c, no)) (sv_finished s))" by (simp add: server_ok_def)
  have "mset (map fst (sv_numbered s)) = image_mset fst (mset (sv_numbered s))" by simp
  also have "\<dots> = mset (map fst (sv_running s)) + mset (map (fst \<circ> (\<lambda>(c, no, out). (c, no))) (sv_finished s))"
    unfolding n image_mset_union mset_map [symmetric] map_map by (rule refl)
  also have "fst \<circ> (\<lambda>(c, no, out). (c, no)) = fst" by (simp add: fun_eq_iff)
  finally have "mset (sv_accepted s) = mset (sv_waiting s) + mset (map fst (sv_running s)) + mset (map fst (sv_finished s))"
    using ok by (simp add: server_ok_def ac_simps)
  with n ok numbered_nth [of "sv_numbered s"] numbered_distinct [of "sv_numbered s"] returned_run [of run s] show ?thesis
    unfolding server_ok_def by blast
qed

text \<open>
  C39. \<open>Listen\<close> and its sockets. When both could be opened, \<open>Listen\<close> can return from every reachable state with both closed, and it does not wait for the
  sessions that run. When the UDP socket of the heartbeat cannot be opened, \<open>Listen\<close> returns its error and the TCP socket stays open, with
  nobody to accept from it or to close it.
\<close>

theorem heartbeat_failure_leaks_listener:
  "((listen_step run)\<^sup>*\<^sup>* (Listen_start True True new_server) s \<longrightarrow>
      (\<exists>t. (listen_step run)\<^sup>*\<^sup>* s t \<and> sv_ret t \<noteq> None \<and> \<not> sv_listener t \<and> \<not> sv_udp t \<and> sv_running t = sv_running s)) \<and>
   ((listen_step run)\<^sup>*\<^sup>* (Listen_start True False new_server) s \<longrightarrow>
      sv_ret s = Some HeartbeatErr \<and> sv_listener s \<and> sv_accepted s = [])"
proof (intro conjI impI)
  assume "(listen_step run)\<^sup>*\<^sup>* (Listen_start True True new_server) s"
  from closes_down [OF closer_run [OF this]]
  show "\<exists>t. (listen_step run)\<^sup>*\<^sup>* s t \<and> sv_ret t \<noteq> None \<and> \<not> sv_listener t \<and> \<not> sv_udp t \<and> sv_running t = sv_running s" .
next
  assume r: "(listen_step run)\<^sup>*\<^sup>* (Listen_start True False new_server) s"
  from leaked_run [OF r] show "sv_ret s = Some HeartbeatErr" "sv_listener s" by blast+
  have "sv_ret (Listen_start True False new_server) = Some HeartbeatErr" "sv_accepted (Listen_start True False new_server) = []"
    by (simp_all add: Listen_start_def Listen_return_def new_server_def)
  with returned_run [OF r] show "sv_accepted s = []" by (simp add: Listen_start_def Listen_return_def new_server_def)
qed

text \<open>One connection accepted and numbered, and one heartbeat.\<close>

lemma sample_server:
  fixes c :: "('r, 'n) connection" and run :: "('r, 'q, 'n, 'v) goroutine_fn"
  obtains s :: "('r, 'q, 'n, 'v, nat) server" where "(listen_step run)\<^sup>*\<^sup>* (Listen_start True True new_server) s"
    "sv_running s = [(c, 1)]" "sv_waiting s = []" "sv_finished s = []" "sv_heard s = [\<lparr>dg_data = Some 7, dg_addr = 3, dg_err = False\<rparr>]"
proof -
  let ?s0 = "Listen_start True True new_server :: ('r, 'q, 'n, 'v, nat) server"
  let ?s1 = "?s0\<lparr>sv_waiting := [c], sv_accepted := [c]\<rparr>"
  let ?s2 = "?s1\<lparr>sv_waiting := [], sv_sessId := 1, sv_running := [(c, 1)], sv_numbered := [(c, 1)]\<rparr>"
  let ?x = "\<lparr>dg_data = Some 7, dg_addr = 3, dg_err = False\<rparr>"
  let ?s3 = "?s2\<lparr>sv_buf := 7, sv_replies := [(7, 3)], sv_beating := True, sv_heard := [?x]\<rparr>"
  note defs = Listen_start_def new_server_def
  have "listen_step run ?s0 ?s1" using accepts [of ?s0 run c] by (simp add: defs)
  moreover have "listen_step run ?s1 ?s2" using takes_number [of c ?s1 1 run] by (simp add: defs)
  moreover have "listen_step run ?s2 ?s3" using beats [of ?s2 ?x 7 "[(7, 3)]" run] by (simp add: defs heartbeat_round_def)
  ultimately have "(listen_step run)\<^sup>*\<^sup>* ?s0 ?s3" by (meson converse_rtranclp_into_rtranclp rtranclp.rtrancl_refl)
  then show thesis by (rule that) (simp_all add: defs)
qed

lemma server_accounts_witness:
  "\<exists>s :: (bytes, bytes, bytes, unit, nat) server. (listen_step (\<lambda>no pooled c. None))\<^sup>*\<^sup>* (Listen_start True True new_server) s \<and>
    sv_replies s = [(7, 3)] \<and> map snd (sv_numbered s) = [1] \<and> length (sv_accepted s) = 1 \<and> sv_errors s = []"
proof -
  let ?n = "\<lparr>dials = [], writes = [], closes = [], salts = [], sent = [[]]\<rparr> :: bytes net"
  obtain s :: "(bytes, bytes, bytes, unit, nat) server" where s: "(listen_step (\<lambda>no pooled c. None))\<^sup>*\<^sup>* (Listen_start True True new_server) s"
    "sv_running s = [((0, [], ?n), 1)]" "sv_waiting s = []" "sv_finished s = []" "sv_heard s = [\<lparr>dg_data = Some 7, dg_addr = 3, dg_err = False\<rparr>]"
    by (rule sample_server)
  from server_accounts [OF s(1)] s(2-) have "sv_replies s = [(7, 3)]" "mset (sv_numbered s) = {#((0, [], ?n), 1)#}" "mset (sv_accepted s) = {#(0, [], ?n)#}" "sv_errors s = []"
    by (simp_all add: heartbeats_def)
  moreover from this have "sv_numbered s = [((0, [], ?n), 1)]" "sv_accepted s = [(0, [], ?n)]" by simp_all
  ultimately show ?thesis using s(1) by auto
qed

lemma heartbeat_failure_leaks_listener_witness:
  "(\<exists>t :: (bytes, bytes, bytes, unit, nat) server. (listen_step (\<lambda>no pooled c. None))\<^sup>*\<^sup>* (Listen_start True True new_server) t \<and> sv_ret t \<noteq> None \<and> \<not> sv_listener t) \<and>
   sv_listener (Listen_start True False new_server :: (bytes, bytes, bytes, unit, nat) server)"
  using heartbeat_failure_leaks_listener [where run = "\<lambda>no pooled c. None" and s = "Listen_start True True new_server :: (bytes, bytes, bytes, unit, nat) server"]
    heartbeat_failure_leaks_listener [where run = "\<lambda>no pooled c. None" and s = "Listen_start True False new_server :: (bytes, bytes, bytes, unit, nat) server"]
  by blast


end
