(* ===== verification/Ascii.thy ===== *)
theory Ascii
  imports Delivery
begin

text \<open>
  \<open>forward/ascii_formatter.go\<close>: a writer that takes messages of the Forward protocol and writes each of
  their entries as a line of text. \<open>fmt\<close> renders a time; the iterators' renderings are bounded by
  \<open>boundR\<close> and \<open>boundQ\<close>, the number of bytes that their readers have to come.
\<close>

text \<open>\<open>af_errs\<close> are the results of the next calls of the underlying writer, \<open>af_out\<close> what it was called with.\<close>

record ('r, 'q) AsciiFormatter =
  af_iter :: "'r Iterator"
  af_trans :: "'q TransportPhase"
  af_errs :: "bytes option list"
  af_out :: "bytes list"

datatype ascii_err = AfNext transport_err | AfIter err | AfWrite bytes

definition NewAsciiFormatter :: "'r \<Rightarrow> bytes option list \<Rightarrow> ('r, 'q) AsciiFormatter" where
  "NewAsciiFormatter nil errs = \<lparr> af_iter = NewIterator nil, af_trans = Init [], af_errs = errs, af_out = [] \<rparr>"

text \<open>The loop over the fields of a record, \<open>n\<close> of them left. The error of the iterator may be nil.\<close>

fun ascii_fields :: "'i ring \<Rightarrow> ('i \<Rightarrow> nat) \<Rightarrow> (go_time \<Rightarrow> bytes) \<Rightarrow> nat \<Rightarrow> bytes \<Rightarrow> 'i Iterator \<Rightarrow> ((err option + bytes) \<times> 'i Iterator) go" where
  "ascii_fields R bound fmt 0 b it = Ret (Inr b, it)"
| "ascii_fields R bound fmt (Suc n) b it = do {
     (ok, it) \<leftarrow> Next R it;
     if \<not> ok then Ret (Inl (it_err it), it)
     else let (key, it) = iter_Str R it in do {
       (ok, it) \<leftarrow> Next R it;
       if \<not> ok then Ret (Inl (it_err it), it)
       else do {
         let b = b @ [0x20];
         let b = b @ key;
         let b = b @ [0x3d];
         ((b, _), it) \<leftarrow> AppendText R fmt (bound (it_r it) + 5) it b;
         ascii_fields R bound fmt n b it } } }"

definition ascii_record :: "'i ring \<Rightarrow> ('i \<Rightarrow> nat) \<Rightarrow> (go_time \<Rightarrow> bytes) \<Rightarrow> bytes \<Rightarrow> 'i Iterator \<Rightarrow> ((err option + bytes) \<times> 'i Iterator) go" where
  "ascii_record R bound fmt b it = ascii_fields R bound fmt (nat (it_items it)) b it"

definition ascii_write :: "bytes \<Rightarrow> ('r, 'q) AsciiFormatter \<Rightarrow> bytes option \<times> ('r, 'q) AsciiFormatter" where
  "ascii_write b a =
     (let a' = a\<lparr>af_out := af_out a @ [b]\<rparr> in
      case af_errs a of [] \<Rightarrow> (None, a') | x # xs \<Rightarrow> (x, a'\<lparr>af_errs := xs\<rparr>))"

text \<open>The loop of \<open>Write\<close>, for at most \<open>k\<close> entries; \<open>p\<close> is what \<open>Write\<close> was given.\<close>

fun ascii_loop :: "'r ring \<Rightarrow> 'q ring \<Rightarrow> ('r, 'q) sub \<Rightarrow> ('r \<Rightarrow> nat) \<Rightarrow> ('q \<Rightarrow> nat) \<Rightarrow> nat \<Rightarrow> nat \<Rightarrow> (go_time \<Rightarrow> bytes) \<Rightarrow> int \<Rightarrow> nat \<Rightarrow> Entry \<Rightarrow>
    ('r, 'q) AsciiFormatter \<Rightarrow> ((int \<times> ascii_err option) \<times> ('r, 'q) AsciiFormatter) go" where
  "ascii_loop R Q S boundR boundQ skip fuel fmt lenp 0 e a = None"
| "ascii_loop R Q S boundR boundQ skip fuel fmt lenp (Suc k) e a = do {
     ((err, e), it, t) \<leftarrow> t_Next R Q S skip fuel (af_iter a, af_trans a) e;
     let a = a\<lparr>af_iter := it, af_trans := t\<rparr>;
     case err of
       Some x \<Rightarrow> Ret (if x = T_EOF then (lenp, None) else (0, Some (AfNext x)), a)
     | None \<Rightarrow> do {
         let b = fmt (en_Timestamp e);
         let b = b @ [0x20];
         let b = b @ en_Tag e;
         (res, it, t) \<leftarrow> consume_record (ascii_record R boundR fmt b) (ascii_record Q boundQ fmt b) (en_Record e) (af_iter a, af_trans a);
         let a = a\<lparr>af_iter := it, af_trans := t\<rparr>;
         case res of
           Inl x \<Rightarrow> Ret ((0, map_option AfIter x), a)
         | Inr b \<Rightarrow>
             let b = b @ [0x0a]; (err, a) = ascii_write b a in
             (case err of
                Some x \<Rightarrow> Ret ((0, Some (AfWrite x)), a)
              | None \<Rightarrow> ascii_loop R Q S boundR boundQ skip fuel fmt lenp k e a) } }"

text \<open>\<open>rd\<close> is the reader that \<open>ResetBytes(p)\<close> makes of the \<open>lenp\<close> bytes \<open>p\<close>.\<close>

definition AsciiFormatter_Write :: "'r ring \<Rightarrow> 'q ring \<Rightarrow> ('r, 'q) sub \<Rightarrow> ('r \<Rightarrow> nat) \<Rightarrow> ('q \<Rightarrow> nat) \<Rightarrow> nat \<Rightarrow> nat \<Rightarrow> (go_time \<Rightarrow> bytes) \<Rightarrow> nat \<Rightarrow> 'r \<Rightarrow> int \<Rightarrow>
    ('r, 'q) AsciiFormatter \<Rightarrow> ((int \<times> ascii_err option) \<times> ('r, 'q) AsciiFormatter) go" where
  "AsciiFormatter_Write R Q S boundR boundQ skip fuel fmt k rd lenp a =
     ascii_loop R Q S boundR boundQ skip fuel fmt lenp k empty_Entry (a\<lparr>af_iter := Reset rd (af_iter a)\<rparr>)"

subsection \<open>Rendering leaves the rest alone\<close>

lemma raw_keeps:
  assumes "keeps R h" and "0 \<le> it_length it" and "raw R it = (res, it')"
  shows "h (it_r it') = h (it_r it)"
  using assms by (auto simp: raw_def keeps_def split: prod.splits) (metis snd_conv)

lemma iter_Str_keeps:
  assumes "keeps R h" and "0 \<le> it_length it" and "iter_Str R it = (s, it')"
  shows "h (it_r it') = h (it_r it)"
  using assms raw_keeps [OF assms(1,2)] by (auto simp: iter_Str_def split: prod.splits if_splits)

lemma appendTextScalar_keeps:
  assumes "keeps R h" and "0 \<le> it_length it" and "appendTextScalar R fmt it b = Ret (res, it')"
  shows "h (it_r it') = h (it_r it)"
  using assms raw_keeps [OF assms(1,2)]
  by (auto simp: appendTextScalar_def iter_reads split: prod.splits if_splits Type.splits bind_split_asm)

lemma Next_nonneg:
  assumes "nonneg_after R" and "Next R it = Ret (True, it')"
  shows "0 \<le> it_length it'"
  using assms by (simp add: nonneg_after_def)

lemma AppendText_keeps:
  "keeps R h \<Longrightarrow> nonneg_after R \<Longrightarrow> 0 \<le> it_length it \<Longrightarrow> AppendText R fmt fuel it b = Ret (res, it') \<Longrightarrow> h (it_r it') = h (it_r it)"
  "keeps R h \<Longrightarrow> nonneg_after R \<Longrightarrow> appendTextArray R fmt fuel i n it b = Ret (b', it') \<Longrightarrow> h (it_r it') = h (it_r it)"
  "keeps R h \<Longrightarrow> nonneg_after R \<Longrightarrow> appendTextMap R fmt fuel i n it b = Ret (b', it') \<Longrightarrow> h (it_r it') = h (it_r it)"
proof (induction R fmt fuel it b and R fmt fuel i n it b and R fmt fuel i n it b arbitrary: res it' and b' it' and b' it'
    rule: AppendText_appendTextArray_appendTextMap.induct)
  case (2 R fmt fuel it b)
  consider "it_typ it = ArrayT" | "it_typ it = MapT" | "it_typ it \<noteq> ArrayT" "it_typ it \<noteq> MapT" by blast
  then show ?case
  proof cases
    case 1
    with "2.prems"(4) obtain b' where "appendTextArray R fmt fuel 0 (nat (it_items it)) it b = Ret (b', it')" by (auto split: bind_split_asm)
    from "2.IH"(1) [OF 1 "2.prems"(1,2) this] show ?thesis .
  next
    case 2
    with "2.prems"(4) obtain b' where "appendTextMap R fmt fuel 0 (nat (it_items it)) it b = Ret (b', it')" by (auto split: bind_split_asm)
    from "2.IH"(2) [OF _ 2 "2.prems"(1,2) this] 2 show ?thesis by simp
  next
    case 3
    with "2.prems"(4) have "appendTextScalar R fmt it b = Ret (res, it')" by simp
    from appendTextScalar_keeps [OF "2.prems"(1,3) this] show ?thesis .
  qed
next
  case (4 R fmt fuel i n it b)
  obtain ok it1 where n: "Next R it = Ret (ok, it1)" using "4.prems"(3) by (cases "Next R it") auto
  note k = Next_keeps [OF "4.prems"(1) n]
  show ?case
  proof (cases ok)
    case True
    let ?b = "if i \<noteq> 0 then b @ [0x0a] else b"
    from n True "4.prems"(3) obtain b1 e it2 where a: "AppendText R fmt fuel it1 ?b = Ret ((b1, e), it2)"
      "appendTextArray R fmt fuel (i + 1) n it2 b1 = Ret (b', it')"
      by (auto simp: Let_def simp del: AppendText.simps split: bind_split_asm)
    have "h (it_r it2) = h (it_r it1)"
      by (rule "4.IH"(1) [OF n refl _ refl "4.prems"(1,2) Next_nonneg [OF "4.prems"(2)] a(1)]) (use True n in auto)
    moreover have "h (it_r it') = h (it_r it2)"
      by (rule "4.IH"(2) [OF n refl _ refl a(1) refl refl "4.prems"(1,2) a(2)]) (use True in auto)
    ultimately show ?thesis using k by simp
  qed (use n k "4.prems"(3) in auto)
next
  case (6 R fmt fuel i n it b)
  obtain ok it1 where n: "Next R it = Ret (ok, it1)" using "6.prems"(3) by (cases "Next R it") auto
  note k = Next_keeps [OF "6.prems"(1) n]
  show ?case
  proof (cases ok)
    case True
    let ?b = "if i \<noteq> 0 then b @ [0x0a] else b"
    from n True "6.prems"(3) obtain b1 e it2 ok2 it3 where a: "AppendText R fmt fuel it1 ?b = Ret ((b1, e), it2)" "Next R it2 = Ret (ok2, it3)"
      by (auto simp: Let_def simp del: AppendText.simps split: bind_split_asm)
    have k1: "h (it_r it2) = h (it_r it1)"
      by (rule "6.IH"(1) [OF n refl _ refl "6.prems"(1,2) Next_nonneg [OF "6.prems"(2)] a(1)]) (use True n in auto)
    note k2 = Next_keeps [OF "6.prems"(1) a(2)]
    show ?thesis
    proof (cases ok2)
      case ok2: True
      from n True a ok2 "6.prems"(3) obtain b2 e2 it4 where c: "AppendText R fmt fuel it3 (b1 @ [0x3a, 0x20]) = Ret ((b2, e2), it4)"
        "appendTextMap R fmt fuel (i + 1) n it4 b2 = Ret (b', it')"
        by (auto simp: Let_def simp del: AppendText.simps split: bind_split_asm)
      have "h (it_r it4) = h (it_r it3)"
        by (rule "6.IH"(2) [OF n refl _ refl a(1) refl refl a(2) refl _ refl "6.prems"(1,2) Next_nonneg [OF "6.prems"(2)] c(1)]) (use True ok2 a(2) in auto)
      moreover have "h (it_r it') = h (it_r it4)"
        by (rule "6.IH"(3) [OF n refl _ refl a(1) refl refl a(2) refl _ refl c(1) refl refl "6.prems"(1,2) c(2)]) (use True ok2 in auto)
      ultimately show ?thesis using k k1 k2 by simp
    next
      case False
      with n True a "6.prems"(3) k k1 k2 show ?thesis by (auto simp: Let_def simp del: AppendText.simps)
    qed
  qed (use n k "6.prems"(3) in auto)
qed auto

subsection \<open>What is rendered\<close>

fun key_text :: "msg \<Rightarrow> bytes" where
  "key_text (MStr s) = s"
| "key_text _ = []"

definition field_text :: "(go_time \<Rightarrow> bytes) \<Rightarrow> msg \<times> msg \<Rightarrow> bytes" where
  "field_text fmt kv = [0x20] @ key_text (fst kv) @ [0x3d] @ text_of fmt (snd kv)"

definition line :: "(go_time \<Rightarrow> bytes) \<Rightarrow> bytes \<times> event \<Rightarrow> bytes" where
  "line fmt en = (case en of (tag, ts, kvs) \<Rightarrow> fmt ts @ [0x20] @ tag @ concat (map (field_text fmt) kvs) @ [0x0a])"

text \<open>Records with keys that are strings, and no payload longer than the buffer of the reader.\<close>

definition text_ok :: "int \<Rightarrow> (msg \<times> msg) list \<Rightarrow> bool" where
  "text_ok limit kvs \<longleftrightarrow> (\<forall>kv \<in> set kvs. (\<exists>s. fst kv = MStr s \<and> len s \<le> limit) \<and> fits limit (snd kv))"

lemma wire_left:
  assumes R: "ring_contract R rest limit" and "wire m bs" "rest (it_r it) = bs @ xs" "Next R it = Ret (True, it1)"
  shows "length (rest (it_r it)) \<le> length (rest (it_r it1)) + 5"
proof -
  obtain c lb l k ys where b: "bs = c # lb @ ys" "header c lb (msg_type m) l k" using wire_header [OF assms(2)] by blast
  with assms(3) have r: "rest (it_r it) = c # lb @ (ys @ xs)" by simp
  obtain r' where "Next R it = Ret (True, token it c (msg_type m) l r')" "rest r' = ys @ xs" by (rule Next_header [OF R r b(2)])
  moreover have "length lb \<le> 4" using b(2) Get_len_le(2) by (fastforce simp: header_def split: prod.splits if_splits)
  ultimately show ?thesis using assms(4) r by auto
qed

lemma ascii_fields_text:
  assumes R: "ring_contract R rest limit" and h: "keeps R h" and b: "\<And>r. length (rest r) \<le> bound r"
  shows "list_all2 (\<lambda>kv b. wire (fst kv) (fst b) \<and> wire (snd kv) (snd b)) kvs bss \<Longrightarrow> text_ok limit kvs \<Longrightarrow>
    rest (it_r it) = concat (map (\<lambda>b. fst b @ snd b) bss) @ xs \<Longrightarrow>
    \<exists>it'. ascii_fields R bound fmt (length kvs) out it = Ret (Inr (out @ concat (map (field_text fmt) kvs)), it') \<and> rest (it_r it') = xs \<and>
      h (it_r it') = h (it_r it)"
proof (induction kvs bss arbitrary: it out rule: list_all2_induct)
  case (Cons kv kvs bs bss)
  let ?xs = "concat (map (\<lambda>b. fst b @ snd b) bss) @ xs"
  obtain s where k: "fst kv = MStr s" "len s \<le> limit" "fits limit (snd kv)" "text_ok limit kvs" using Cons.prems(1) by (auto simp: text_ok_def)
  have w: "wire (MStr s) (fst bs)" "wire (snd kv) (snd bs)" and r: "rest (it_r it) = fst bs @ snd bs @ ?xs"
    using Cons.hyps(1) Cons.prems(2) k(1) by simp_all
  obtain i1 i2 where 1: "Next R it = Ret (True, i1)" "iter_Str R i1 = (s, i2)" "rest (it_r i2) = snd bs @ ?xs" "h (it_r i2) = h (it_r it)"
    by (rule read_Str [OF R h w(1) r k(2)]) blast
  obtain c l q where n: "Next R i2 = Ret (True, token i2 c (msg_type (snd kv)) l q)" by (rule Next_wire [OF R w(2) 1(3)])
  let ?i3 = "token i2 c (msg_type (snd kv)) l q" and ?out = "((out @ [0x20]) @ s) @ [0x3d]"
  have l: "length (rest (it_r i2)) \<le> bound (it_r ?i3) + 5" using wire_left [OF R w(2) 1(3) n] b [of "it_r ?i3"] by linarith
  obtain j3 e i4 where "Next R i2 = Ret (True, j3)" "AppendText R fmt (bound (it_r ?i3) + 5) j3 ?out = Ret ((?out @ text_of fmt (snd kv), e), i4)" "rest (it_r i4) = ?xs"
    by (rule texts_step [OF wire_texts [OF R w(2) k(3), of fmt] 1(3) l, of ?out])
  with n have 2: "AppendText R fmt (bound (it_r ?i3) + 5) ?i3 ?out = Ret ((?out @ text_of fmt (snd kv), e), i4)" "rest (it_r i4) = ?xs" by simp_all
  have "h (it_r i4) = h (it_r ?i3)"
    by (rule AppendText_keeps(1) [OF h ring_nonneg_after [OF R] Next_nonneg [OF ring_nonneg_after [OF R] n] 2(1)])
  with Next_keeps [OF h n] 1(4) have h4: "h (it_r i4) = h (it_r it)" by simp
  from Cons.IH [OF k(4) 2(2), of "?out @ text_of fmt (snd kv)"] obtain it' where
    "ascii_fields R bound fmt (length kvs) (?out @ text_of fmt (snd kv)) i4 = Ret (Inr ((?out @ text_of fmt (snd kv)) @ concat (map (field_text fmt) kvs)), it')"
    "rest (it_r it') = xs" "h (it_r it') = h (it_r i4)" by blast
  moreover have "ascii_fields R bound fmt (length (kv # kvs)) out it = ascii_fields R bound fmt (length kvs) (?out @ text_of fmt (snd kv)) i4"
    using 1(1,2) n 2(1) by (simp add: Let_def del: AppendText.simps)
  moreover have "concat (map (field_text fmt) (kv # kvs)) = ([0x20] @ s @ [0x3d] @ text_of fmt (snd kv)) @ concat (map (field_text fmt) kvs)"
    using k(1) by (simp add: field_text_def)
  ultimately show ?case using h4 by (intro exI [of _ it']) (simp del: ascii_fields.simps)
qed simp

text \<open>To consume a record it is enough to consume its pairs, once the header has been read.\<close>

lemma consumes_pairs:
  assumes R: "ring_contract R rest limit"
    and "\<And>it kvs bss xs. ok kvs \<Longrightarrow> list_all2 (\<lambda>kv b. wire (fst kv) (fst b) \<and> wire (snd kv) (snd b)) kvs bss \<Longrightarrow> it_items it = len kvs \<Longrightarrow>
      rest (it_r it) = concat (map (\<lambda>b. fst b @ snd b) bss) @ xs \<Longrightarrow>
      \<exists>it'. f it = Ret (g kvs, it') \<and> rest (it_r it') = xs \<and> h (it_r it') = h (it_r it)"
  shows "consumes_on R rest h ok f g"
  unfolding consumes_on_def
proof (intro allI impI, elim conjE)
  fix i0 it kvs rb xs assume a: "ok kvs" "Next R i0 = Ret (True, it)" "wire (MMap kvs) rb" "rest (it_r i0) = rb @ xs"
  from a(3) obtain c lb k bss where m: "rb = c # lb @ concat (map (\<lambda>b. fst b @ snd b) bss)" "header c lb MapT (len kvs) k"
    "list_all2 (\<lambda>kv b. wire (fst kv) (fst b) \<and> wire (snd kv) (snd b)) kvs bss" by (auto elim!: wire_MapE)
  with a(4) have r0: "rest (it_r i0) = c # lb @ (concat (map (\<lambda>b. fst b @ snd b) bss) @ xs)" by simp
  obtain r where "Next R i0 = Ret (True, token i0 c MapT (len kvs) r)" "rest r = concat (map (\<lambda>b. fst b @ snd b) bss) @ xs"
    by (rule Next_header [OF R r0 m(2)])
  with a(2) have "it = token i0 c MapT (len kvs) r" "rest r = concat (map (\<lambda>b. fst b @ snd b) bss) @ xs" by simp_all
  then have "it_items it = len kvs" "rest (it_r it) = concat (map (\<lambda>b. fst b @ snd b) bss) @ xs" by simp_all
  with assms(2) [OF a(1) m(3)] show "\<exists>it'. f it = Ret (g kvs, it') \<and> rest (it_r it') = xs \<and> h (it_r it') = h (it_r it)" by blast
qed

lemma ascii_record_consumes:
  assumes R: "ring_contract R rest limit" and h: "keeps R h" and b: "\<And>r. length (rest r) \<le> bound r"
  shows "consumes_on R rest h (text_ok limit) (ascii_record R bound fmt out) (\<lambda>kvs. Inr (out @ concat (map (field_text fmt) kvs)))"
  by (rule consumes_pairs [OF R]) (use ascii_fields_text [where bound = bound, OF R h b] in \<open>simp add: ascii_record_def\<close>)

lemma ascii_loop_lines:
  assumes E: "tenv_ok E" and f: "2 * m + 2 \<le> f" and b: "\<And>r. length (conn_rest E r) \<le> boundR r" "\<And>q. length (batch_rest E q) \<le> boundQ q"
  shows "standing E [] skip m (af_iter a, af_trans a) out ack \<Longrightarrow> length out < k \<Longrightarrow> af_errs a = [] \<Longrightarrow>
    \<forall>(tag, ts, kvs) \<in> set out. text_ok (conn_limit E) kvs \<and> text_ok (batch_limit E) kvs \<Longrightarrow>
    \<exists>a'. ascii_loop (conn E) (batch E) (readers E) boundR boundQ skip f fmt n k e a = Ret ((n, None), a') \<and> af_out a' = af_out a @ map (line fmt) out \<and>
      idle (af_trans a') \<and> af_errs a' = []"
proof (induction k arbitrary: a out ack e)
  case (Suc k)
  let ?next = "t_Next (conn E) (batch E) (readers E) skip f" and ?s = "(af_iter a, af_trans a)"
  have y: "yields E [] T_EOF skip m f ?s out ack" by (rule standing_yields [OF E stops_end [OF E] Suc.prems(1) f])
  show ?case
  proof (cases out)
    case Nil
    with y obtain e' s' where "?next ?s e = Ret ((Some T_EOF, e'), s')" "idle (snd s')" unfolding yields_def Nil list.case by blast
    with Nil Suc.prems(3) show ?thesis by (cases s') simp
  next
    case (Cons x out')
    obtain tag ts kvs where x: "x = (tag, ts, kvs)" by (metis prod_cases3)
    from y obtain e' s' a1 a2 where n: "?next ?s e = Ret ((None, e'), s')" "en_Tag e' = tag" "en_Timestamp e' = ts"
      "reading E [] skip m s' (en_Record e') kvs out' a2"
      unfolding yields_def Cons x list.case prod.case by blast
    let ?ok = "\<lambda>kvs. text_ok (conn_limit E) kvs \<and> text_ok (batch_limit E) kvs" and ?b = "(fmt ts @ [0x20]) @ tag"
    note cR = ascii_record_consumes [where bound = boundR and fmt = fmt and out = ?b, OF tenv_rings(1) [OF E] keeps_unit b(1)]
      and cQ = ascii_record_consumes [where bound = boundQ and fmt = fmt and out = ?b, OF tenv_rings(2) [OF E] tenv_rings(3) [OF E] b(2)]
    have c: "consumes_on (conn E) (conn_rest E) (\<lambda>_. ()) ?ok (ascii_record (conn E) boundR fmt ?b) (\<lambda>kvs. Inr (?b @ concat (map (field_text fmt) kvs)))"
      "consumes_on (batch E) (batch_rest E) (after E) ?ok (ascii_record (batch E) boundQ fmt ?b) (\<lambda>kvs. Inr (?b @ concat (map (field_text fmt) kvs)))"
      using cR cQ unfolding consumes_on_def by blast+
    have ok: "?ok kvs" using Suc.prems(4) Cons x by simp
    obtain s2 where s2: "consume_record (ascii_record (conn E) boundR fmt ?b) (ascii_record (batch E) boundQ fmt ?b) (en_Record e') s' =
        Ret (Inr (?b @ concat (map (field_text fmt) kvs)), s2)" "standing E [] skip m s2 out' a2"
      by (rule consume_reading [OF c n(4) ok])
    obtain it t it2 t2 where s': "s' = (it, t)" "s2 = (it2, t2)" by (cases s', cases s2)
    let ?a = "a\<lparr>af_iter := it2, af_trans := t2, af_out := af_out a @ [line fmt x]\<rparr>"
    from Suc.IH [of ?a out' a2 e'] s2(2) s' Suc.prems(2-4) Cons obtain a' where
      "ascii_loop (conn E) (batch E) (readers E) boundR boundQ skip f fmt n k e' ?a = Ret ((n, None), a')" "af_out a' = (af_out a @ [line fmt x]) @ map (line fmt) out'" "idle (af_trans a')" "af_errs a' = []"
      by auto
    with n(1-3) s2(1) s' x Cons Suc.prems(3) show ?thesis by (simp add: ascii_write_def line_def Let_def)
  qed
qed simp

text \<open>One call of \<open>Write\<close>, on a formatter that is new or has finished its calls so far.\<close>

lemma formatter_Write:
  assumes "tenv_ok E" and "\<And>r. length (conn_rest E r) \<le> boundR r" and "\<And>q. length (batch_rest E q) \<le> boundQ q"
    and "list_all2 (fmsg_wire (conn_limit E) (unzip E)) ms bss" and "conn_rest E rd = concat bss" and "length (concat bss) \<le> skip"
    and "2 * length ms + 2 \<le> fuel" and "length (concat (map entries_of ms)) < k"
    and "\<forall>(tag, ts, kvs) \<in> set (concat (map entries_of ms)). text_ok (conn_limit E) kvs \<and> text_ok (batch_limit E) kvs"
    and "idle (af_trans a)" and "af_errs a = []"
  shows "\<exists>a'. AsciiFormatter_Write (conn E) (batch E) (readers E) boundR boundQ skip fuel fmt k rd (len (concat bss)) a = Ret ((len (concat bss), None), a') \<and>
    af_out a' = af_out a @ map (line fmt) (concat (map entries_of ms)) \<and> idle (af_trans a') \<and> af_errs a' = []"
proof -
  let ?a = "a\<lparr>af_iter := Reset rd (af_iter a)\<rparr>"
  have "standing E [] skip (length ms) (af_iter ?a, af_trans ?a) (concat (map entries_of ms)) (concat (map acks_of ms))"
    using assms(4-6,10) unfolding standing_def messages_left_def by (auto simp: idle_def Reset_def)
  from ascii_loop_lines [where boundR = boundR and boundQ = boundQ, OF assms(1,7,2,3) this assms(8) _ assms(9), of fmt "len (concat bss)" empty_Entry] assms(11)
  show ?thesis by (simp add: AsciiFormatter_Write_def)
qed

subsection \<open>Property\<close>

text \<open>
  C35. The formatter writes one line per entry. Given any sequence of messages of the four forms whose records have
  string keys, \<open>Write\<close> reports all of its bytes as written and has written, for each entry of all messages in order, one line with
  the time, the tag and each field as \<open>key=text\<close>, where the text of a nested value is what \<open>AppendText\<close> renders; and it leaves the formatter
  ready for the next call.
\<close>

theorem AsciiFormatter_renders:
  assumes "tenv_ok E" and "\<And>r. length (conn_rest E r) \<le> boundR r" and "\<And>q. length (batch_rest E q) \<le> boundQ q"
    and "list_all2 (fmsg_wire (conn_limit E) (unzip E)) ms bss" and "conn_rest E rd = concat bss" and "length (concat bss) \<le> skip"
    and "2 * length ms + 2 \<le> fuel" and "length (concat (map entries_of ms)) < k"
    and "\<forall>(tag, ts, kvs) \<in> set (concat (map entries_of ms)). text_ok (conn_limit E) kvs \<and> text_ok (batch_limit E) kvs"
    and "idle (af_trans a)" and "af_errs a = []"
  shows "\<exists>a'. AsciiFormatter_Write (conn E) (batch E) (readers E) boundR boundQ skip fuel fmt k rd (len (concat bss)) a = Ret ((len (concat bss), None), a') \<and>
    af_out a' = af_out a @ map (line fmt) (concat (map entries_of ms)) \<and> idle (af_trans a') \<and> af_errs a' = []"
  using assms by (rule formatter_Write)

lemma AsciiFormatter_renders_witness:
  "\<exists>a'. AsciiFormatter_Write (list_ring 64) (pair_ring 64) (list_sub list_unzip) length (\<lambda>q. length (fst q)) (length (concat sample_stream)) 6 (\<lambda>_. [0x40]) 4
      (concat sample_stream) (len (concat sample_stream)) (NewAsciiFormatter [] []) = Ret ((len (concat sample_stream), None), a') \<and>
    af_out a' = [[0x40, 0x20, 0x74, 0x20, 0x6b, 0x3d, 0x33, 0x0a], [0x40, 0x20, 0x75, 0x20, 0x6b, 0x3d, 0x33, 0x0a], [0x40, 0x20, 0x75, 0x20, 0x6b, 0x3d, 0x33, 0x0a]]"
proof -
  let ?E = "list_env 64 list_unzip"
  let ?ms = "[Single [0x74] sample_event, Compressed [0x75] [sample_event, sample_event] (Some [(chunk_key, MStr [1, 2])])]"
  have w: "list_all2 (fmsg_wire (conn_limit ?E) (unzip ?E)) ?ms sample_stream" using sample_messages [of 64] by simp
  have E: "tenv_ok ?E" by (rule list_env_ok) simp
  have k: "\<forall>(tag, ts, kvs) \<in> set (concat (map entries_of ?ms)). text_ok (conn_limit ?E) kvs \<and> text_ok (batch_limit ?E) kvs"
    by (simp add: sample_event_def text_ok_def)
  show ?thesis
    using AsciiFormatter_renders [where boundR = length and boundQ = "\<lambda>q. length (fst q)" and fmt = "\<lambda>_. [0x40]" and fuel = 6 and k = 4
      and a = "NewAsciiFormatter [] []" and rd = "concat sample_stream" and skip = "length (concat sample_stream)", OF E _ _ w _ _ _ _ k]
    by (auto simp: NewAsciiFormatter_def idle_Init sample_event_def line_def field_text_def itoa_def digits_eval)
qed

end
