(* ===== verification/Terminal.thy ===== *)
theory Terminal
  imports Ascii Instance
begin

text \<open>
  \<open>example/terminal/main.go\<close>: a logger whose client is the debugging formatter, so that log calls end up as lines of
  text. The worker hands over one message after the other (\<open>queue_is_fifo\<close>) and ignores what \<open>Write\<close> returns but for a log line.
\<close>

definition terminal_opts :: Options where
  "terminal_opts =
     \<lparr> opt_Tag = text_bytes ''foo.baz'', opt_BufferSize = 4, opt_WriteBehavior = Block, opt_StackTraceThreshold = NOTICE \<rparr>"

definition str_arg :: "string \<Rightarrow> goval" where
  "str_arg s = plain (KString (text_bytes s))"

text \<open>The two log calls of \<open>startClient\<close>; \<open>i\<close> and \<open>j\<close> are the identifiers they get.\<close>

definition terminal_calls :: "env \<Rightarrow> hexid \<Rightarrow> hexid \<Rightarrow> (bytes option \<times> bytes option) go" where
  "terminal_calls F i j = do {
     a \<leftarrow> Info F (setDefaults terminal_opts) False i new_Logger (text_bytes ''hello'')
            [str_arg ''foo'', plain (KInt 1), str_arg ''bar'', plain (KInt 2)];
     b \<leftarrow> Infof F (setDefaults terminal_opts) False j new_Logger (text_bytes ''world %s'')
            [str_arg ''baz'', str_arg ''foo'', plain (KInt 3), str_arg ''bar'', plain (KInt 4)];
     Ret (a, b) }"

text \<open>
  The worker's calls of \<open>Write\<close>, the function \<open>w\<close> on the state of the client, under the behaviours \<open>Block\<close> and \<open>Loose\<close>, where
  \<open>sendToCli\<close> drops the errors.
\<close>

fun write_all :: "(bytes \<Rightarrow> 'a \<Rightarrow> ('e \<times> 'a) go) \<Rightarrow> bytes list \<Rightarrow> 'a \<Rightarrow> 'a go" where
  "write_all w [] a = Ret a"
| "write_all w (b # bs) a = do { (_, a) \<leftarrow> w b a; write_all w bs a }"

definition formatter_client :: "('r, 'q) tenv \<Rightarrow> (bytes \<Rightarrow> 'r) \<Rightarrow> ('r \<Rightarrow> nat) \<Rightarrow> ('q \<Rightarrow> nat) \<Rightarrow> (go_time \<Rightarrow> bytes) \<Rightarrow> bytes \<Rightarrow>
    ('r, 'q) AsciiFormatter \<Rightarrow> ((int \<times> ascii_err option) \<times> ('r, 'q) AsciiFormatter) go" where
  "formatter_client E mk boundR boundQ fmt b a =
     AsciiFormatter_Write (conn E) (batch E) (readers E) boundR boundQ (length b) 4 fmt 2 (mk b) (len b) a"

lemma formatter_client_line:
  assumes "tenv_ok E" and "\<And>r. length (conn_rest E r) \<le> boundR r" and "\<And>q. length (batch_rest E q) \<le> boundQ q" and "conn_rest E (mk b) = b"
    and "wire (MArray [MStr tag, MTime t f, MMap kvs]) b" and "1 \<le> len tag" "len tag \<le> 64" "len tag \<le> conn_limit E"
    and "text_ok (conn_limit E) kvs" "text_ok (batch_limit E) kvs" and "idle (af_trans a)" and "af_errs a = []"
  obtains a' where "formatter_client E mk boundR boundQ fmt b a = Ret ((len b, None), a')" "af_out a' = af_out a @ [line fmt (tag, t, kvs)]"
    "idle (af_trans a')" "af_errs a' = []"
proof -
  have w: "list_all2 (fmsg_wire (conn_limit E) (unzip E)) [Single tag (t, kvs)] [b]" using wire_Single [OF assms(5-8)] by (simp del: fmsg_wire.simps)
  from formatter_Write [where boundR = boundR and boundQ = boundQ and rd = "mk b" and skip = "length b" and fuel = 4 and k = 2 and fmt = fmt, OF assms(1-3) w] assms(4,9-12) that
  show thesis by (auto simp: formatter_client_def)
qed

subsection \<open>The two calls\<close>

definition hello_fields :: "hexid \<Rightarrow> (msg \<times> msg) list" where
  "hello_fields i = base_fields (id_Uint64 i) INFO (text_bytes ''hello'') @ [(MStr (text_bytes ''foo''), MInt 1), (MStr (text_bytes ''bar''), MInt 2)]"

definition world_fields :: "hexid \<Rightarrow> (msg \<times> msg) list" where
  "world_fields j = base_fields (id_Uint64 j) INFO (text_bytes ''world baz'') @ [(MStr (text_bytes ''foo''), MInt 3), (MStr (text_bytes ''bar''), MInt 4)]"

lemma two_args:
  "args_add json [] [str_arg ''foo'', plain (KInt a), str_arg ''bar'', plain (KInt b)]
     [(MStr (text_bytes ''foo''), MInt a), (MStr (text_bytes ''bar''), MInt b)]"
proof -
  have f: "Args.fields json (text_bytes k) (plain (KInt a)) [(MStr (text_bytes k), MInt a)]" if "length k < 9" for k a
    using that by (intro value_fields) (simp_all add: value_msg_def plain_def text_bytes_def)
  have "arg_fields [] [str_arg ''foo'', plain (KInt a), str_arg ''bar'', plain (KInt b)] = [(text_bytes ''foo'', plain (KInt a)), (text_bytes ''bar'', plain (KInt b))]"
    by (simp add: str_arg_def plain_def text_bytes_def arg_fields_Cons)
  then show ?thesis unfolding args_add_def
    by (intro exI [of _ "[[(MStr (text_bytes ''foo''), MInt a)], [(MStr (text_bytes ''bar''), MInt b)]]"]) (simp add: f)
qed

lemma terminal_setDefaults: "setDefaults terminal_opts = terminal_opts"
  by (simp add: setDefaults_def terminal_opts_def text_bytes_def)

lemma hello_logged:
  assumes "ts_valid [TsFluentd] (id_Time i)" and "length (env_frames F) \<le> 15"
  obtains b where "Info F (setDefaults terminal_opts) False i new_Logger (text_bytes ''hello'') [str_arg ''foo'', plain (KInt 1), str_arg ''bar'', plain (KInt 2)] = Ret (Some b)"
    "wire (MArray [MStr (text_bytes ''foo.baz''), MTime (id_Time i) [TsFluentd], MMap (hello_fields i)]) b"
proof -
  let ?args = "[str_arg ''foo'', plain (KInt 1), str_arg ''bar'', plain (KInt 2)]"
  have "\<exists>b. log F terminal_opts False i INFO (text_bytes ''hello'') ?args False [] 0 = Ret (Some b) \<and>
      wire (MArray [MStr (opt_Tag terminal_opts), MTime (id_Time i) [TsFluentd], MMap (hello_fields i)]) b"
    by (rule log_wire [where n = 0 and str = "text_bytes ''hello''" and extra = "[]" and kvs = "[(MStr (text_bytes ''foo''), MInt 1), (MStr (text_bytes ''bar''), MInt 2)]"])
      (use assms two_args [of "env_json F" 1 2] in \<open>simp_all add: message_text_def hello_fields_def stack_fields_def terminal_opts_def less_eq_Severity_def text_bytes_def pairs_wire_Nil\<close>)
  with that show thesis by (auto simp: Info_def terminal_setDefaults new_Logger_def data_of_def) (simp add: terminal_opts_def)
qed

lemma world_logged:
  assumes "ts_valid [TsFluentd] (id_Time j)" and "length (env_frames F) \<le> 15"
    and "appends (\<lambda>dst. env_Appendf F dst (text_bytes ''world %s'') [str_arg ''baz'']) (text_bytes ''world baz'')"
  obtains b where "Infof F (setDefaults terminal_opts) False j new_Logger (text_bytes ''world %s'')
      [str_arg ''baz'', str_arg ''foo'', plain (KInt 3), str_arg ''bar'', plain (KInt 4)] = Ret (Some b)"
    "wire (MArray [MStr (text_bytes ''foo.baz''), MTime (id_Time j) [TsFluentd], MMap (world_fields j)]) b"
proof -
  let ?args = "[str_arg ''baz'', str_arg ''foo'', plain (KInt 3), str_arg ''bar'', plain (KInt 4)]"
  have c: "countFmtArgs (text_bytes ''world %s'') = Ret 1"
    using countFmtArgs_verbs [of "text_bytes ''world %s''"] by (simp add: text_bytes_def)
  have "\<exists>b. log F terminal_opts False j INFO (text_bytes ''world %s'') ?args True [] 0 = Ret (Some b) \<and>
      wire (MArray [MStr (opt_Tag terminal_opts), MTime (id_Time j) [TsFluentd], MMap (world_fields j)]) b"
    by (rule log_wire [where n = 1 and str = "text_bytes ''world baz''" and extra = "[]" and kvs = "[(MStr (text_bytes ''foo''), MInt 3), (MStr (text_bytes ''bar''), MInt 4)]"])
      (use assms c two_args [of "env_json F" 3 4] in \<open>simp_all add: message_text_def world_fields_def stack_fields_def terminal_opts_def less_eq_Severity_def pairs_wire_Nil\<close>,
       simp_all add: text_bytes_def)
  with that show thesis by (auto simp: Infof_def terminal_setDefaults new_Logger_def data_of_def) (simp add: terminal_opts_def)
qed

lemma terminal_lines:
  "line fmt (text_bytes ''foo.baz'', t, hello_fields i) =
     fmt t @ text_bytes '' foo.baz @id='' @ itoa (uint (id_Uint64 i)) @ text_bytes '' pri=6 message=hello foo=1 bar=2'' @ [0x0a]"
  "line fmt (text_bytes ''foo.baz'', t, world_fields i) =
     fmt t @ text_bytes '' foo.baz @id='' @ itoa (uint (id_Uint64 i)) @ text_bytes '' pri=6 message=world baz foo=3 bar=4'' @ [0x0a]"
  by (simp_all add: line_def hello_fields_def world_fields_def field_text_def text_bytes_def itoa_def digits_eval)

lemma terminal_text_ok: "64 \<le> limit \<Longrightarrow> text_ok limit (hello_fields i) \<and> text_ok limit (world_fields i)"
  by (simp add: text_ok_def hello_fields_def world_fields_def text_bytes_def)

subsection \<open>Property\<close>

text \<open>
  C40. From the log calls to the terminal. The two calls of the example, handed by the worker to the formatter, print exactly two lines: the
  time, the tag, the identifier, the priority of \<open>Info\<close>, the message (of the second as \<open>fmt\<close> formats it), and the arguments in order.
\<close>

theorem terminal_prints:
  assumes "tenv_ok E" and "\<And>r. length (conn_rest E r) \<le> boundR r" and "\<And>q. length (batch_rest E q) \<le> boundQ q" and "\<And>b. conn_rest E (mk b) = b"
    and "64 \<le> conn_limit E" "64 \<le> batch_limit E"
    and "ts_valid [TsFluentd] (id_Time i)" "ts_valid [TsFluentd] (id_Time j)" and "length (env_frames F) \<le> 15"
    and "appends (\<lambda>dst. env_Appendf F dst (text_bytes ''world %s'') [str_arg ''baz'']) (text_bytes ''world baz'')"
  shows "\<exists>a b f. terminal_calls F i j = Ret (Some a, Some b) \<and>
    write_all (formatter_client E mk boundR boundQ fmt) [a, b] (NewAsciiFormatter nil []) = Ret f \<and>
    af_out f =
      [fmt (id_Time i) @ text_bytes '' foo.baz @id='' @ itoa (uint (id_Uint64 i)) @ text_bytes '' pri=6 message=hello foo=1 bar=2'' @ [0x0a],
       fmt (id_Time j) @ text_bytes '' foo.baz @id='' @ itoa (uint (id_Uint64 j)) @ text_bytes '' pri=6 message=world baz foo=3 bar=4'' @ [0x0a]]"
proof -
  obtain a where a: "Info F (setDefaults terminal_opts) False i new_Logger (text_bytes ''hello'') [str_arg ''foo'', plain (KInt 1), str_arg ''bar'', plain (KInt 2)] = Ret (Some a)"
    "wire (MArray [MStr (text_bytes ''foo.baz''), MTime (id_Time i) [TsFluentd], MMap (hello_fields i)]) a"
    by (rule hello_logged [OF assms(7,9)])
  obtain b where b: "Infof F (setDefaults terminal_opts) False j new_Logger (text_bytes ''world %s'')
      [str_arg ''baz'', str_arg ''foo'', plain (KInt 3), str_arg ''bar'', plain (KInt 4)] = Ret (Some b)"
    "wire (MArray [MStr (text_bytes ''foo.baz''), MTime (id_Time j) [TsFluentd], MMap (world_fields j)]) b"
    by (rule world_logged [OF assms(8-10)])
  have t: "1 \<le> len (text_bytes ''foo.baz'')" "len (text_bytes ''foo.baz'') \<le> 64" "len (text_bytes ''foo.baz'') \<le> conn_limit E"
    using assms(5) by (simp_all add: text_bytes_def)
  have n: "idle (af_trans (NewAsciiFormatter nil []))" "af_errs (NewAsciiFormatter nil []) = []" by (simp_all add: NewAsciiFormatter_def idle_Init)
  note ok = terminal_text_ok [OF assms(5)] terminal_text_ok [OF assms(6)]
  obtain f1 where f1: "formatter_client E mk boundR boundQ fmt a (NewAsciiFormatter nil []) = Ret ((len a, None), f1)" "af_out f1 = [line fmt (text_bytes ''foo.baz'', id_Time i, hello_fields i)]"
    "idle (af_trans f1)" "af_errs f1 = []"
    by (rule formatter_client_line [where mk = mk and fmt = fmt and boundR = boundR and boundQ = boundQ, OF assms(1-4) a(2) t _ _ n]) (use ok in \<open>auto simp: NewAsciiFormatter_def\<close>)
  obtain f2 where f2: "formatter_client E mk boundR boundQ fmt b f1 = Ret ((len b, None), f2)" "af_out f2 = af_out f1 @ [line fmt (text_bytes ''foo.baz'', id_Time j, world_fields j)]"
    by (rule formatter_client_line [where mk = mk and fmt = fmt and boundR = boundR and boundQ = boundQ, OF assms(1-4) b(2) t _ _ f1(3,4)]) (use ok in auto)
  have "terminal_calls F i j = Ret (Some a, Some b)" using a(1) b(1) by (simp add: terminal_calls_def)
  then show ?thesis using f1(1,2) f2 by (intro exI [of _ a] exI [of _ b] exI [of _ f2]) (simp add: terminal_lines)
qed

lemma terminal_prints_witness:
  "\<exists>a b f. terminal_calls \<lparr>env_Appendf = \<lambda>dst _ _. dst @ text_bytes ''world baz'', env_json = \<lambda>_ _. None, env_frames = []\<rparr>
      \<lparr>id_Time = time_Unix 1000 5, id_Uint64 = 7\<rparr> \<lparr>id_Time = time_Unix 1001 0, id_Uint64 = 8\<rparr> = Ret (Some a, Some b) \<and>
    write_all (formatter_client (list_env 64 list_unzip) (\<lambda>b. b) length (\<lambda>q. length (fst q)) (\<lambda>_. [0x40])) [a, b] (NewAsciiFormatter [] []) = Ret f \<and>
    af_out f = [text_bytes ''@ foo.baz @id=7 pri=6 message=hello foo=1 bar=2'' @ [0x0a], text_bytes ''@ foo.baz @id=8 pri=6 message=world baz foo=3 bar=4'' @ [0x0a]]"
proof -
  let ?F = "\<lparr>env_Appendf = \<lambda>dst _ _. dst @ text_bytes ''world baz'', env_json = \<lambda>_ _. None, env_frames = []\<rparr> :: env"
  have E: "tenv_ok (list_env 64 list_unzip)" by (rule list_env_ok) simp
  have t: "ts_valid [TsFluentd] (id_Time \<lparr>id_Time = time_Unix 1000 5, id_Uint64 = 7\<rparr>)" "ts_valid [TsFluentd] (id_Time \<lparr>id_Time = time_Unix 1001 0, id_Uint64 = 8\<rparr>)"
    by (simp_all add: ts_valid_def ts_format_def time_Unix_def time_ok_def)
  have f: "appends (\<lambda>dst. env_Appendf ?F dst (text_bytes ''world %s'') [str_arg ''baz'']) (text_bytes ''world baz'')" by (simp add: appends_def)
  show ?thesis
    using terminal_prints [where boundR = length and boundQ = "\<lambda>q. length (fst q)" and mk = "\<lambda>b. b" and fmt = "\<lambda>_. [0x40]" and nil = "[]", OF E _ _ _ _ _ t _ f]
    by (simp add: itoa_def digits_eval text_bytes_def)
qed

end
