(* ===== verification/ExampleServer.thy ===== *)
theory ExampleServer
  imports Session Ascii
begin

text \<open>
  \<open>example/server/main.go\<close>: a handler that prints the entries of a session. What goes to the terminal is a list of values of
  \<open>printed\<close>, one constructor for each call of \<open>Println\<close> or \<open>Printf\<close>; \<open>deadline\<close> is \<open>errors.Is(err, os.ErrDeadlineExceeded)\<close>.
\<close>

datatype printed =
    Connected
  | EntryOf go_time bytes int
  | KeyIs any_value
  | ElementIs nat any_value
  | ValueIs any_value
  | Newline
  | Received nat
  | Disconnected

text \<open>An early return hands on \<open>rec.Error()\<close>, which may be nil, with what has been printed.\<close>

fun example_elements :: "'i ring \<Rightarrow> nat \<Rightarrow> nat \<Rightarrow> printed list \<Rightarrow> 'i Iterator \<Rightarrow> ((err option option \<times> printed list) \<times> 'i Iterator) go" where
  "example_elements R i 0 out it = Ret ((None, out @ [Newline]), it)"
| "example_elements R i (Suc n) out it = do {
     (ok, it) \<leftarrow> Next R it;
     if \<not> ok then Ret ((Some (it_err it), out), it)
     else do {
       (v, it) \<leftarrow> Any R it;
       example_elements R (i + 1) n (out @ [ElementIs i v]) it } }"

fun example_fields :: "'i ring \<Rightarrow> nat \<Rightarrow> printed list \<Rightarrow> 'i Iterator \<Rightarrow> ((err option option \<times> printed list) \<times> 'i Iterator) go" where
  "example_fields R 0 out it = Ret ((None, out), it)"
| "example_fields R (Suc n) out it = do {
     (ok, it) \<leftarrow> Next R it;
     if \<not> ok then Ret ((Some (it_err it), out), it)
     else do {
       (key, it) \<leftarrow> Any R it;
       (ok, it) \<leftarrow> Next R it;
       if \<not> ok then Ret ((Some (it_err it), out), it)
       else let out = out @ [KeyIs key] in
         if it_typ it = ArrayT then do {
           ((stop, out), it) \<leftarrow> example_elements R 0 (nat (it_items it)) out it;
           case stop of Some e \<Rightarrow> Ret ((Some e, out), it) | None \<Rightarrow> example_fields R n out it }
         else do {
           (v, it) \<leftarrow> Any R it;
           example_fields R n (out @ [ValueIs v]) it } } }"

definition example_record :: "'i ring \<Rightarrow> go_time \<Rightarrow> bytes \<Rightarrow> printed list \<Rightarrow> 'i Iterator \<Rightarrow> ((err option option \<times> printed list) \<times> 'i Iterator) go" where
  "example_record R ts tag out it = example_fields R (nat (it_items it)) (out @ [EntryOf ts tag (it_items it)]) it"

datatype example_err = NextErr transport_err | RecordErr err

text \<open>The loop, for at most \<open>k\<close> calls of \<open>Next\<close>; \<open>i\<close> counts the entries since the last deadline.\<close>

fun example_loop :: "wkept \<Rightarrow> 'r ring \<Rightarrow> 'q ring \<Rightarrow> ('r, 'q) sub \<Rightarrow> nat \<Rightarrow> nat \<Rightarrow> (transport_err \<Rightarrow> bool) \<Rightarrow> nat \<Rightarrow> Entry \<Rightarrow> nat \<Rightarrow> printed list \<Rightarrow>
    ('r, 'q) ServerSession \<Rightarrow> 'n net \<Rightarrow> ((printed list \<times> example_err option) \<times> ('r, 'q) ServerSession \<times> 'n net) go" where
  "example_loop kept R Q S skip fuel deadline 0 e i out ss n = None"
| "example_loop kept R Q S skip fuel deadline (Suc k) e i out ss n = do {
     ((err, e), ss, n) \<leftarrow> session_Next kept R Q S skip fuel ss e n;
     case err of
       Some x \<Rightarrow>
         (let received = (if i > 0 then [Received i] else []) in
          if deadline x then example_loop kept R Q S skip fuel deadline k e 0 (out @ received) ss n
          else Ret ((out @ [Newline] @ received, Some (NextErr x)), ss, n))
     | None \<Rightarrow> do {
         ((stop, out), it, t) \<leftarrow> consume_record (example_record R (en_Timestamp e) (en_Tag e) out) (example_record Q (en_Timestamp e) (en_Tag e) out)
           (en_Record e) (ss_iter ss, ss_trans ss);
         let ss = ss\<lparr>ss_iter := it, ss_trans := t\<rparr>;
         case stop of
           Some e \<Rightarrow> Ret ((out, map_option RecordErr e), ss, n)
         | None \<Rightarrow> example_loop kept R Q S skip fuel deadline k e (i + 1) out ss n } }"

definition example_handler :: "wkept \<Rightarrow> 'r ring \<Rightarrow> 'q ring \<Rightarrow> ('r, 'q) sub \<Rightarrow> nat \<Rightarrow> nat \<Rightarrow> (transport_err \<Rightarrow> bool) \<Rightarrow> nat \<Rightarrow>
    ('r, 'q) ServerSession \<Rightarrow> 'n net \<Rightarrow> ((printed list \<times> example_err option) \<times> ('r, 'q) ServerSession \<times> 'n net) go" where
  "example_handler kept R Q S skip fuel deadline k ss n = do {
     ((out, err), ss, n) \<leftarrow> example_loop kept R Q S skip fuel deadline k empty_Entry 0 [Connected] ss n;
     Ret ((out @ [Disconnected], err), ss, n) }"

subsection \<open>What is printed\<close>

lemma Any_keeps:
  assumes "keeps R h" and "0 \<le> it_length it" and "Any R it = Ret (v, it')"
  shows "h (it_r it') = h (it_r it)"
  using assms raw_keeps [OF assms(1,2)]
  by (auto simp: Any_def iter_reads split: prod.splits if_splits Type.splits bind_split_asm)

lemma Any_scalar:
  assumes R: "ring_contract R rest limit" and h: "keeps R h" and m: "wire m bs" "\<not> container m" "fits limit m" and r: "rest (it_r it) = bs @ xs"
  obtains i1 i2 where "Next R it = Ret (True, i1)" "it_typ i1 = msg_type m" "Any R i1 = Ret (value_of m, i2)" "rest (it_r i2) = xs" "h (it_r i2) = h (it_r it)"
proof -
  obtain c lb body q where n: "decodes m c body" "Next R it = Ret (True, token it c (msg_type m) (len body) q)" "rest q = body @ xs"
    using Next_scalar [OF R m(1,2) r] by metis
  let ?i1 = "token it c (msg_type m) (len body) q"
  obtain i2 where a: "Any R ?i1 = Ret (value_of m, i2)" "rest (it_r i2) = xs" using token_scalar(1) [OF R m(2) n(1) m(3) n(3), of it] by blast
  have "h (it_r i2) = h (it_r ?i1)" by (rule Any_keeps [OF h Next_nonneg [OF ring_nonneg_after [OF R] n(2)] a(1)])
  with Next_keeps [OF h n(2)] n(2) a show thesis by (intro that [of ?i1 i2]) simp_all
qed

text \<open>Records as the example expects them: a value is a scalar or an array of scalars.\<close>

definition scalar_ok :: "int \<Rightarrow> msg \<Rightarrow> bool" where
  "scalar_ok limit m \<longleftrightarrow> \<not> container m \<and> fits limit m"

fun value_ok :: "int \<Rightarrow> msg \<Rightarrow> bool" where
  "value_ok limit (MArray ms) \<longleftrightarrow> (\<forall>m \<in> set ms. scalar_ok limit m)"
| "value_ok limit m \<longleftrightarrow> scalar_ok limit m"

definition printable :: "int \<Rightarrow> (msg \<times> msg) list \<Rightarrow> bool" where
  "printable limit kvs \<longleftrightarrow> (\<forall>kv \<in> set kvs. scalar_ok limit (fst kv) \<and> value_ok limit (snd kv))"

definition elements_printed :: "nat \<Rightarrow> msg list \<Rightarrow> printed list" where
  "elements_printed i ms = map (\<lambda>(j, m). ElementIs j (value_of m)) (List.enumerate i ms)"

fun value_printed :: "msg \<Rightarrow> printed list" where
  "value_printed (MArray ms) = elements_printed 0 ms @ [Newline]"
| "value_printed m = [ValueIs (value_of m)]"

definition field_printed :: "msg \<times> msg \<Rightarrow> printed list" where
  "field_printed kv = KeyIs (value_of (fst kv)) # value_printed (snd kv)"

definition entry_printed :: "bytes \<times> event \<Rightarrow> printed list" where
  "entry_printed en = (case en of (tag, ts, kvs) \<Rightarrow> EntryOf ts tag (len kvs) # concat (map field_printed kvs))"

lemma example_elements_prints:
  assumes R: "ring_contract R rest limit" and h: "keeps R h"
  shows "list_all2 wire ms bss \<Longrightarrow> \<forall>m \<in> set ms. scalar_ok limit m \<Longrightarrow> rest (it_r it) = concat bss @ xs \<Longrightarrow>
    \<exists>it'. example_elements R i (length ms) out it = Ret ((None, out @ elements_printed i ms @ [Newline]), it') \<and> rest (it_r it') = xs \<and> h (it_r it') = h (it_r it)"
proof (induction ms bss arbitrary: it i out rule: list_all2_induct)
  case (Cons m ms bs bss)
  have m: "\<not> container m" "fits limit m" "rest (it_r it) = bs @ (concat bss @ xs)" using Cons.prems by (simp_all add: scalar_ok_def)
  obtain i1 i2 where s: "Next R it = Ret (True, i1)" "Any R i1 = Ret (value_of m, i2)" "rest (it_r i2) = concat bss @ xs" "h (it_r i2) = h (it_r it)"
    by (rule Any_scalar [OF R h Cons.hyps(1) m]) blast
  from Cons.IH [OF _ s(3), of "i + 1" "out @ [ElementIs i (value_of m)]"] Cons.prems(1) obtain it' where
    "example_elements R (i + 1) (length ms) (out @ [ElementIs i (value_of m)]) i2 =
       Ret ((None, (out @ [ElementIs i (value_of m)]) @ elements_printed (i + 1) ms @ [Newline]), it')" "rest (it_r it') = xs" "h (it_r it') = h (it_r i2)" by auto
  with s show ?case by (simp add: elements_printed_def)
qed (simp add: elements_printed_def)

lemma example_value_prints:
  assumes R: "ring_contract R rest limit" and h: "keeps R h" and "wire v bs" "value_ok limit v" "rest (it_r it) = bs @ xs"
  obtains i1 i2 where "Next R it = Ret (True, i1)" "rest (it_r i2) = xs" "h (it_r i2) = h (it_r it)"
    "(if it_typ i1 = ArrayT then example_elements R 0 (nat (it_items i1)) out i1 else do { (v, it) \<leftarrow> Any R i1; Ret ((None, out @ [ValueIs v]), it) }) =
       Ret ((None, out @ value_printed v), i2)"
proof (cases "\<exists>ms. v = MArray ms")
  case True
  then obtain ms where v: "v = MArray ms" by blast
  with assms(3) obtain c lb k bss where b: "bs = c # lb @ concat bss" "header c lb ArrayT (len ms) k" "list_all2 wire ms bss" by (auto elim: wire_ArrayE)
  with assms(5) have r0: "rest (it_r it) = c # lb @ (concat bss @ xs)" by simp
  obtain r where t: "Next R it = Ret (True, token it c ArrayT (len ms) r)" "rest r = concat bss @ xs" by (rule Next_header [OF R r0 b(2)])
  let ?i1 = "token it c ArrayT (len ms) r"
  have "\<forall>m \<in> set ms. scalar_ok limit m" "rest (it_r ?i1) = concat bss @ xs" using assms(4) v t(2) by simp_all
  from example_elements_prints [OF R h b(3) this, of 0 out] obtain i2 where
    "example_elements R 0 (length ms) out ?i1 = Ret ((None, out @ elements_printed 0 ms @ [Newline]), i2)" "rest (it_r i2) = xs" "h (it_r i2) = h (it_r ?i1)" by blast
  with t(1) Next_keeps [OF h t(1)] v show thesis by (intro that [of ?i1 i2]) simp_all
next
  case False
  with assms(4) have s: "\<not> container v" "fits limit v" "value_printed v = [ValueIs (value_of v)]" "msg_type v \<noteq> ArrayT"
    by (cases v; simp add: scalar_ok_def)+
  obtain i1 i2 where "Next R it = Ret (True, i1)" "it_typ i1 = msg_type v" "Any R i1 = Ret (value_of v, i2)" "rest (it_r i2) = xs" "h (it_r i2) = h (it_r it)"
    by (rule Any_scalar [OF R h assms(3) s(1,2) assms(5)]) blast
  with s(3,4) show thesis by (intro that [of i1 i2]) simp_all
qed

lemma example_fields_prints:
  assumes R: "ring_contract R rest limit" and h: "keeps R h"
  shows "list_all2 (\<lambda>kv b. wire (fst kv) (fst b) \<and> wire (snd kv) (snd b)) kvs bss \<Longrightarrow> printable limit kvs \<Longrightarrow>
    rest (it_r it) = concat (map (\<lambda>b. fst b @ snd b) bss) @ xs \<Longrightarrow>
    \<exists>it'. example_fields R (length kvs) out it = Ret ((None, out @ concat (map field_printed kvs)), it') \<and> rest (it_r it') = xs \<and> h (it_r it') = h (it_r it)"
proof (induction kvs bss arbitrary: it out rule: list_all2_induct)
  case (Cons kv kvs bs bss)
  let ?xs = "concat (map (\<lambda>b. fst b @ snd b) bss) @ xs"
  obtain k v where kv: "kv = (k, v)" by (cases kv)
  have w: "wire k (fst bs)" "wire v (snd bs)" and r: "rest (it_r it) = fst bs @ (snd bs @ ?xs)"
    and p: "\<not> container k" "fits limit k" "value_ok limit v" "printable limit kvs"
    using Cons.hyps(1) Cons.prems kv by (auto simp: printable_def scalar_ok_def)
  obtain i1 i2 where 1: "Next R it = Ret (True, i1)" "Any R i1 = Ret (value_of k, i2)" "rest (it_r i2) = snd bs @ ?xs" "h (it_r i2) = h (it_r it)"
    by (rule Any_scalar [OF R h w(1) p(1,2) r]) blast
  let ?out = "out @ [KeyIs (value_of k)]"
  let ?new = "value_printed v"
  obtain i3 i4 where 2: "Next R i2 = Ret (True, i3)" "rest (it_r i4) = ?xs" "h (it_r i4) = h (it_r i2)"
    "(if it_typ i3 = ArrayT then example_elements R 0 (nat (it_items i3)) ?out i3 else do { (v, it) \<leftarrow> Any R i3; Ret ((None, ?out @ [ValueIs v]), it) }) =
       Ret ((None, ?out @ ?new), i4)"
    by (rule example_value_prints [OF R h w(2) p(3) 1(3)])
  have "example_fields R (length (kv # kvs)) out it = example_fields R (length kvs) (?out @ ?new) i4"
    using 1(1,2) 2(1,4) by (auto split: if_splits bind_split_asm)
  moreover from Cons.IH [OF p(4) 2(2), of "?out @ ?new"] obtain it' where
    "example_fields R (length kvs) (?out @ ?new) i4 = Ret ((None, (?out @ ?new) @ concat (map field_printed kvs)), it')" "rest (it_r it') = xs" "h (it_r it') = h (it_r i4)" by blast
  moreover have "concat (map field_printed (kv # kvs)) = [KeyIs (value_of k)] @ ?new @ concat (map field_printed kvs)" by (simp add: field_printed_def kv)
  ultimately show ?case using 1(4) 2(3) by (intro exI [of _ it']) simp
qed simp

lemma example_record_consumes:
  fixes R :: "'i ring"
  assumes R: "ring_contract R rest limit" and h: "keeps R h"
  shows "consumes_on R rest h (printable limit) (example_record R ts tag out) (\<lambda>kvs. (None, out @ entry_printed (tag, ts, kvs)))"
proof (rule consumes_pairs [OF R])
  fix it :: "'i Iterator" and kvs bss xs assume "printable limit kvs" "list_all2 (\<lambda>kv b. wire (fst kv) (fst b) \<and> wire (snd kv) (snd b)) kvs bss" "it_items it = len kvs"
    "rest (it_r it) = concat (map (\<lambda>b. fst b @ snd b) bss) @ xs"
  with example_fields_prints [OF R h, of kvs bss it xs "out @ [EntryOf ts tag (len kvs)]"] show
    "\<exists>it'. example_record R ts tag out it = Ret ((None, out @ entry_printed (tag, ts, kvs)), it') \<and> rest (it_r it') = xs \<and> h (it_r it') = h (it_r it)"
    by (simp add: example_record_def entry_printed_def)
qed

text \<open>A nested map is named and its header consumed, but its items stay in the stream, where the next call of \<open>Next\<close> takes them for a message.\<close>

lemma example_leaves_nested_map:
  assumes R: "ring_contract R rest limit" and "len s \<le> limit" and "Next R i0 = Ret (True, it)" and "wire (MMap [(MStr s, MMap kvs)]) rb" and "rest (it_r i0) = rb @ xs"
  shows "\<exists>it' bss. example_record R ts tag out it = Ret ((None, out @ [EntryOf ts tag 1, KeyIs (AnyStr s), ValueIs (value_of (MMap kvs))]), it') \<and>
    list_all2 (\<lambda>kv b. wire (fst kv) (fst b) \<and> wire (snd kv) (snd b)) kvs bss \<and> rest (it_r it') = concat (map (\<lambda>b. fst b @ snd b) bss) @ xs"
proof -
  obtain c lb k kb vb where m: "rb = c # lb @ kb @ vb" "header c lb MapT 1 k" "wire (MStr s) kb" "wire (MMap kvs) vb"
    by (rule wire_MapE [OF assms(4)]) (auto simp: list_all2_Cons1)
  with assms(5) have r0: "rest (it_r i0) = c # lb @ (kb @ vb @ xs)" by simp
  obtain r where "Next R i0 = Ret (True, token i0 c MapT 1 r)" "rest r = kb @ vb @ xs" by (rule Next_header [OF R r0 m(2)])
  with assms(3) have "it = token i0 c MapT 1 r" "rest r = kb @ vb @ xs" by simp_all
  then have i: "it_items it = 1" and r: "rest (it_r it) = kb @ (vb @ xs)" by simp_all
  have s: "\<not> container (MStr s)" "fits limit (MStr s)" using assms(2) by simp_all
  obtain i1 i2 where 1: "Next R it = Ret (True, i1)" "Any R i1 = Ret (AnyStr s, i2)" "rest (it_r i2) = vb @ xs"
    by (rule Any_scalar [where h = "\<lambda>_. ()", OF R keeps_unit m(3) s r]) simp
  from m(4) obtain c' lb' k' bss where v: "vb = c' # lb' @ concat (map (\<lambda>b. fst b @ snd b) bss)" "header c' lb' MapT (len kvs) k'"
    "list_all2 (\<lambda>kv b. wire (fst kv) (fst b) \<and> wire (snd kv) (snd b)) kvs bss" by (auto elim!: wire_MapE)
  obtain r2 where 2: "Next R i2 = Ret (True, token i2 c' MapT (len kvs) r2)" "rest r2 = concat (map (\<lambda>b. fst b @ snd b) bss) @ xs"
    by (rule Next_map [OF R v(2), of i2 bss xs]) (use 1(3) v(1) in simp)
  from i 1(1,2) 2 v(3) show ?thesis
    by (intro exI [of _ "token i2 c' MapT (len kvs) r2"] exI [of _ bss]) (simp add: example_record_def Any_def eval_nat_numeral)
qed

definition received :: "nat \<Rightarrow> printed list" where
  "received i = (if i > 0 then [Received i] else [])"

lemma example_loop_prints:
  assumes E: "tenv_ok E" and f: "2 * m + 2 \<le> f" and kept: "drains kept" and d: "\<not> deadline T_EOF"
  shows "standing E [] skip m (ss_iter ss, ss_trans ss) out ack \<Longrightarrow> length out < k \<Longrightarrow> writes n = [] \<Longrightarrow> ss_write ss = [] \<Longrightarrow> ss_conn ss < length (sent n) \<Longrightarrow>
    \<forall>(tag, ts, kvs) \<in> set out. printable (conn_limit E) kvs \<and> printable (batch_limit E) kvs \<Longrightarrow>
    \<exists>ss'. example_loop kept (conn E) (batch E) (readers E) skip f deadline k e i p ss n =
      Ret ((p @ concat (map entry_printed out) @ [Newline] @ received (i + length out), Some (NextErr T_EOF)), ss',
        net_send (ss_conn ss) (concat (map (\<lambda>c. encode (ack_msg c)) ack)) n)"
proof (induction k arbitrary: ss n out ack e i p)
  case (Suc k)
  let ?enc = "\<lambda>cs. concat (map (\<lambda>c. encode (ack_msg c)) cs)"
  show ?case
  proof (cases out)
    case Nil
    obtain e' ss' where "session_Next kept (conn E) (batch E) (readers E) skip f ss e n = Ret ((Some T_EOF, e'), ss', net_send (ss_conn ss) (?enc ack) n)"
      by (rule session_Next_end [OF E f kept Suc.prems(3-5) Suc.prems(1) [unfolded Nil]])
    with Nil d show ?thesis by (simp add: received_def)
  next
    case (Cons x out')
    obtain tag ts kvs where x: "x = (tag, ts, kvs)" by (metis prod_cases3)
    obtain e' s1 a1 a2 where n: "session_Next kept (conn E) (batch E) (readers E) skip f ss e n = Ret ((None, e'), s1, net_send (ss_conn ss) (?enc a1) n)"
      "ack = a1 @ a2" "en_Tag e' = tag" "en_Timestamp e' = ts" "reading E [] skip m (ss_iter s1, ss_trans s1) (en_Record e') kvs out' a2"
      "ss_user s1 = ss_user ss" "ss_conn s1 = ss_conn ss" "ss_write s1 = []"
      by (rule session_Next_entry [OF E f kept Suc.prems(3-5) Suc.prems(1) [unfolded Cons x]])
    let ?ok = "\<lambda>kvs. printable (conn_limit E) kvs \<and> printable (batch_limit E) kvs" and ?g = "\<lambda>kvs. (None, p @ entry_printed (tag, ts, kvs))"
    note cR = example_record_consumes [OF tenv_rings(1) [OF E] keeps_unit, of ts tag p]
      and cQ = example_record_consumes [OF tenv_rings(2) [OF E] tenv_rings(3) [OF E], of ts tag p]
    have c: "consumes_on (conn E) (conn_rest E) (\<lambda>_. ()) ?ok (example_record (conn E) ts tag p) ?g"
      "consumes_on (batch E) (batch_rest E) (after E) ?ok (example_record (batch E) ts tag p) ?g"
      using cR cQ unfolding consumes_on_def by blast+
    have ok: "?ok kvs" using Suc.prems(6) Cons x by simp
    obtain it t where s2: "consume_record (example_record (conn E) ts tag p) (example_record (batch E) ts tag p) (en_Record e') (ss_iter s1, ss_trans s1) =
        Ret ((None, p @ entry_printed x), it, t)" "standing E [] skip m (it, t) out' a2"
      by (rule consume_reading [OF c n(5) ok]) (auto simp: x)
    let ?ss2 = "s1\<lparr>ss_iter := it, ss_trans := t\<rparr>" and ?n1 = "net_send (ss_conn ss) (?enc a1) n"
    have q: "writes ?n1 = []" "ss_conn ?ss2 < length (sent ?n1)" using Suc.prems(3,5) n(7) by (simp_all add: sent_net_send)
    from Suc.IH [of ?ss2 out' a2 ?n1 e' "i + 1" "p @ entry_printed x"] s2(2) q n(7,8) Suc.prems(2,6) Cons obtain ss' where
      "example_loop kept (conn E) (batch E) (readers E) skip f deadline k e' (i + 1) (p @ entry_printed x) ?ss2 ?n1 =
        Ret (((p @ entry_printed x) @ concat (map entry_printed out') @ [Newline] @ received (i + 1 + length out'), Some (NextErr T_EOF)), ss',
          net_send (ss_conn ss) (?enc a2) ?n1)" by (auto simp del: encode.simps)
    with n(1-4) s2(1) Cons net_send_send [OF Suc.prems(5)] show ?thesis by (simp add: ac_simps del: encode.simps)
  qed
qed simp

subsection \<open>Property\<close>

text \<open>
  C38. The example prints flat records as it received them. On an authenticated session whose stream is any sequence of messages of the four forms, the records of which hold
  scalars and arrays of scalars, and which is not cut by a deadline, the handler prints for each entry of all messages, in order, its time, tag and
  number of fields, then each key with its value, or with the elements of its array and their positions, and at the end the number of entries; it
  returns the end of the stream, and the session has acknowledged every chunk. A record with a map or a nested array in it is not printed in
  this way (\<open>example_leaves_nested_map\<close>), and the deadline that the example sets is taken not to pass.
\<close>

theorem example_server_prints:
  assumes "tenv_ok E" and "list_all2 (fmsg_wire (conn_limit E) (unzip E)) ms bss" and "conn_rest E (it_r (ss_iter ss)) = concat bss" and "length (concat bss) \<le> skip"
    and "2 * length ms + 2 \<le> fuel" and "length (concat (map entries_of ms)) < k"
    and "\<forall>(tag, ts, kvs) \<in> set (concat (map entries_of ms)). printable (conn_limit E) kvs \<and> printable (batch_limit E) kvs"
    and "drains kept" and "writes n = []" "ss_write ss = []" "ss_conn ss < length (sent n)" and "\<not> deadline T_EOF"
  shows "\<exists>ss' n'. example_handler kept (conn E) (batch E) (readers E) skip fuel deadline k (initTransportPhase ss) n =
      Ret ((Connected # concat (map entry_printed (concat (map entries_of ms))) @ [Newline] @ received (length (concat (map entries_of ms))) @ [Disconnected],
        Some (NextErr T_EOF)), ss', n') \<and>
    sent n' = (sent n)[ss_conn ss := sent n ! ss_conn ss @ concat (map (\<lambda>c. encode (ack_msg c)) (concat (map acks_of ms)))]"
proof -
  let ?ss = "initTransportPhase ss" and ?es = "concat (map entries_of ms)"
  have s: "standing E [] skip (length ms) (ss_iter ?ss, ss_trans ?ss) ?es (concat (map acks_of ms))"
    using assms(2-4) unfolding standing_def messages_left_def by (auto simp: initTransportPhase_def Init_def)
  have "ss_write ?ss = []" "ss_conn ?ss < length (sent n)" using assms(10,11) by (simp_all add: initTransportPhase_def)
  from example_loop_prints [where deadline = deadline and kept = kept and n = n and e = empty_Entry and i = 0 and p = "[Connected]", OF assms(1,5,8,12) s assms(6,9) this assms(7)]
  show ?thesis by (auto simp: example_handler_def initTransportPhase_def net_send_def simp del: encode.simps)
qed

text \<open>A message with an array, and a compressed batch.\<close>

lemma example_server_prints_witness:
  "\<exists>ss' n'. example_handler (\<lambda>b k. []) (list_ring 64) (pair_ring 64) (list_sub list_unzip) 200 8 (\<lambda>_. False) 5
      (initTransportPhase (newServerSession None 0 (encode (MArray [MStr [0x73], MTime (time_Unix 7 0) [TsFluentd], MMap [(MStr [0x6c], MArray [MUint 5, MBool True])]]) @ concat sample_stream)))
      sample_net =
    Ret (([Connected, EntryOf (time_Unix 7 0) [0x73] 1, KeyIs (AnyStr [0x6c]), ElementIs 0 (AnyUint 5), ElementIs 1 (AnyBool True), Newline,
      EntryOf (time_Unix 7 0) [0x74] 1, KeyIs (AnyStr [0x6b]), ValueIs (AnyUint 3), EntryOf (time_Unix 7 0) [0x75] 1, KeyIs (AnyStr [0x6b]), ValueIs (AnyUint 3),
      EntryOf (time_Unix 7 0) [0x75] 1, KeyIs (AnyStr [0x6b]), ValueIs (AnyUint 3), Newline, Received 4, Disconnected], Some (NextErr T_EOF)), ss', n') \<and>
    sent n' = [encode (ack_msg [1, 2])]"
proof -
  let ?E = "list_env 64 list_unzip" and ?m = "MArray [MStr [0x73], MTime (time_Unix 7 0) [TsFluentd], MMap [(MStr [0x6c], MArray [MUint 5, MBool True])]]"
  let ?ms = "Single [0x73] (time_Unix 7 0, [(MStr [0x6c], MArray [MUint 5, MBool True])]) # sample_session" and ?bss = "encode ?m # sample_stream"
  have m: "msg_ok ?m" by (simp add: sample_time)
  have "fmsg_wire (conn_limit ?E) (unzip ?E) (hd ?ms) (encode ?m)" using wire_Single [OF encode_wire [OF m]] by (simp del: encode.simps fmsg_wire.simps)
  then have w: "list_all2 (fmsg_wire (conn_limit ?E) (unzip ?E)) ?ms ?bss"
    using sample_messages [of 64] by (simp add: sample_session_def del: encode.simps fmsg_wire.simps)
  have l: "length (concat ?bss) \<le> 200"
    by (simp add: sample_stream_def sample_length text_bytes_def AppendTimestamp_def ts_format_def AppendArrayHeader_def AppendMapHeader_def
      AppendString_def AppendInt_def AppendUint_def AppendBool_def AppendBinary_def appendBinaryHeader_def Let_def)
  have p: "\<forall>(tag, ts, kvs) \<in> set (concat (map entries_of ?ms)). printable (conn_limit ?E) kvs \<and> printable (batch_limit ?E) kvs"
    by (simp add: sample_session_def sample_event_def printable_def scalar_ok_def)
  have E: "tenv_ok ?E" by (rule list_env_ok) simp
  have four: "Suc (Suc (Suc (Suc 0))) = 4" by simp
  show ?thesis
    using example_server_prints [where E = ?E and ms = ?ms and bss = ?bss and fuel = 8 and k = 5 and skip = 200 and n = sample_net and deadline = "\<lambda>_. False" and kept = "\<lambda>b k. []"
      and ss = "newServerSession None 0 (concat ?bss)", OF E w _ l _ _ p]
    by (simp add: sample_session_def sample_event_def sample_net_def newServerSession_def drains_def entry_printed_def field_printed_def elements_printed_def received_def
      chunks_opt_def ack_msg_def four del: encode.simps)
qed

end
