(* ===== verification/Pipeline.thy ===== *)
theory Pipeline
  imports EndToEnd Shutdown Terminal
begin

text \<open>
  The whole program on a network that works: log calls of any goroutines, the queue, the worker and \<open>Close\<close> in any interleaving, the
  client on a connection, and the transport phase at its other end.
\<close>

subsection \<open>A client that does not fail\<close>

text \<open>\<open>unfailing\<close>: everything that was handled was written, and nothing stands against the next write.\<close>

definition unfailing :: "'g Instance \<Rightarrow> bool" where
  "unfailing s \<longleftrightarrow> cli_results (cli s) = [] \<and> \<not> fb s \<and> (\<forall>h \<in> set (handled s). snd h = Written)"

lemma sendToCli_unfailing:
  assumes "unfailing s" and "sendToCli gz opt b (s\<lparr>queue := q\<rparr>) = Ret s'"
  shows "unfailing s'"
  using assms by (auto simp: unfailing_def sendToCli_def cli_Write_def cli_next_def)

lemma step_unfailing:
  assumes "step gz opt s s'" and "unfailing s" and "opt_WriteBehavior opt \<noteq> Fallback"
  shows "unfailing s'"
  using assms(1)
proof (cases rule: step.cases)
  case (log_queues b)
  with assms(2) show ?thesis by (cases "opt_WriteBehavior opt") (simp_all add: queueMessage_def enqueue_def unfailing_def)
next
  case worker_starts
  with assms(2,3) show ?thesis by (simp add: unfailing_def maybeSetFb_def flushFallbackToCli_def)
next
  case wait_ticks
  with assms(2) show ?thesis by (simp add: unfailing_def flushFallbackToCli_def)
next
  case (poll_receives b q)
  with assms(2) show ?thesis by (blast intro: sendToCli_unfailing)
next
  case (wait_receives b q s1)
  with sendToCli_unfailing [OF assms(2) wait_receives(4)] show ?thesis by (simp add: unfailing_def)
next
  case (drain_receives b q)
  with assms(2) show ?thesis by (blast intro: sendToCli_unfailing)
qed (use assms(2) in \<open>simp_all add: unfailing_def enqueue_def\<close>)

definition pipe_ok :: "Options \<Rightarrow> closer \<times> 'g Instance \<Rightarrow> bool" where
  "pipe_ok opt ps \<longleftrightarrow> queue_ok opt (snd ps) \<and> unfailing (snd ps) \<and> (fst ps = Before \<longrightarrow> \<not> closed (snd ps))"

lemma Close_rest_frame:
  assumes "Close_rest gz hasFallback isCloser s = (e, s')"
  obtains d c where "s' = s\<lparr>fallback := d, cli := c\<rparr>" "cli_results (cli s) = [] \<longrightarrow> cli_results c = []" "cli_written c = cli_written (cli s)"
proof -
  obtain e1 d1 where 1: "DirBuffer_Close gz (fallback s) = (e1, d1)" by fastforce
  obtain e2 c2 where 2: "cli_Close (cli s) = (e2, c2)" by fastforce
  then have c: "cli_results (cli s) = [] \<longrightarrow> cli_results c2 = []" "cli_written c2 = cli_written (cli s)"
    using cli_Close_keeps [OF 2] by (auto simp: cli_Close_def cli_next_def)
  let ?d = "if hasFallback then d1 else fallback s" and ?c = "if (hasFallback \<longrightarrow> e1 = None) \<and> isCloser then c2 else cli s"
  have "s' = s\<lparr>fallback := ?d, cli := ?c\<rparr>"
    using assms 1 2 by (cases hasFallback; cases e1; cases isCloser) (auto simp: Close_rest_def)
  then show thesis using c by (rule_tac that [of ?c ?d]) simp_all
qed

lemma close_step_queue_ok:
  assumes "close_step gz opt hasFallback isCloser ps qs" and "queue_ok opt (snd ps)"
  shows "queue_ok opt (snd qs)"
  using assms(1)
proof (cases rule: close_step.cases)
  case (others s s' p)
  with assms(2) step_queue_ok [OF others(3)] show ?thesis by simp
next
  case (calls s s')
  with assms(2) show ?thesis by (auto simp: Close_call_def queue_ok_frame split: if_splits)
next
  case (returns s e s')
  with assms(2) show ?thesis by (elim Close_rest_frame) (simp add: queue_ok_def)
qed

lemma reachable_close_queue_ok:
  assumes "(close_step gz opt hasFallback isCloser)\<^sup>*\<^sup>* ps qs" and "queue_ok opt (snd ps)"
  shows "queue_ok opt (snd qs)"
  using assms by (induction rule: rtranclp_induct) (auto intro: close_step_queue_ok)

lemma close_step_pipe_ok:
  assumes "close_step gz opt hasFallback isCloser ps qs" and "pipe_ok opt ps" and "opt_WriteBehavior opt \<noteq> Fallback"
  shows "pipe_ok opt qs"
proof -
  have q: "queue_ok opt (snd qs)" using assms(1,2) by (auto simp: pipe_ok_def intro: close_step_queue_ok)
  from assms(1) show ?thesis
  proof (cases rule: close_step.cases)
    case (others s s' p)
    with assms(2,3) q step_unfailing [OF others(3)] show ?thesis by (simp add: pipe_ok_def)
  next
    case (calls s s')
    with assms(2) q show ?thesis by (auto simp: pipe_ok_def Close_call_def unfailing_def split: if_splits)
  next
    case (returns s e s')
    with assms(2) q show ?thesis by (elim Close_rest_frame) (simp add: pipe_ok_def unfailing_def)
  qed
qed

lemma reachable_pipe_ok:
  assumes "(close_step gz opt hasFallback isCloser)\<^sup>*\<^sup>* ps qs" and "pipe_ok opt ps" and "opt_WriteBehavior opt \<noteq> Fallback"
  shows "pipe_ok opt qs"
  using assms by (induction rule: rtranclp_induct) (auto intro: close_step_pipe_ok)

lemma pipe_writes_all:
  assumes "pipe_ok opt ps"
  shows "accepted (snd ps) = cli_written (cli (snd ps)) @ queue (snd ps)" and "cli_written (cli (snd ps)) = map fst (handled (snd ps))"
proof -
  have "filter (\<lambda>h. snd h = Written) (handled (snd ps)) = handled (snd ps)" using assms by (simp add: pipe_ok_def unfailing_def)
  with assms show "accepted (snd ps) = cli_written (cli (snd ps)) @ queue (snd ps)" "cli_written (cli (snd ps)) = map fst (handled (snd ps))"
    by (simp_all add: pipe_ok_def queue_ok_def)
qed

subsection \<open>What a log call means\<close>

text \<open>\<open>logs F opt b ev\<close>: a call of \<open>log\<close> built the message \<open>b\<close>, and means the time and the fields \<open>ev\<close>.\<close>

definition logs :: "env \<Rightarrow> Options \<Rightarrow> bytes \<Rightarrow> event \<Rightarrow> bool" where
  "logs F opt b ev \<longleftrightarrow> (\<exists>i sev msg args sprintf extraData extraCount n str extra kvs.
     log F opt False i sev msg args sprintf extraData extraCount = Ret (Some b) \<and>
     (if sprintf then countFmtArgs msg else Ret 0) = Ret n \<and> 0 \<le> n \<and> n \<le> len args \<and> message_text F msg n args str \<and> len str < 2 ^ 32 \<and>
     ts_valid [TsFluentd] (id_Time i) \<and> pairs_wire extra extraData \<and> extraCount = of_nat (length extra) \<and>
     args_add (env_json F) [] (drop (nat n) args) kvs \<and> length (env_frames F) \<le> 15 \<and>
     ev = (id_Time i, base_fields (id_Uint64 i) sev str @ extra @ kvs @ stack_fields opt sev (env_frames F)) \<and> length (snd ev) < 256)"

lemma logs_entry:
  assumes "logs F opt b ev"
  obtains body where "b = entry (entry_head (opt_Tag opt) (fst ev)) (of_nat (length (snd ev))) body" "pairs_wire (snd ev) body" "length (snd ev) < 256"
    "ts_valid [TsFluentd] (fst ev)"
proof -
  from assms obtain i sev msg args sprintf extraData extraCount n str extra kvs where
    l: "log F opt False i sev msg args sprintf extraData extraCount = Ret (Some b)"
      "(if sprintf then countFmtArgs msg else Ret 0) = Ret n" "0 \<le> n" "n \<le> len args" "message_text F msg n args str" "len str < 2 ^ 32"
      "pairs_wire extra extraData" "extraCount = of_nat (length extra)" "args_add (env_json F) [] (drop (nat n) args) kvs" "length (env_frames F) \<le> 15"
    and v: "ts_valid [TsFluentd] (id_Time i)" "ev = (id_Time i, base_fields (id_Uint64 i) sev str @ extra @ kvs @ stack_fields opt sev (env_frames F))" "length (snd ev) < 256"
    unfolding logs_def by force
  have "length extra < 256" using v(2,3) by simp
  from log_entry [where i = i and sev = sev and opt = opt, OF l(2-10) this] obtain body where
    "pairs_wire (base_fields (id_Uint64 i) sev str @ extra @ kvs @ stack_fields opt sev (env_frames F)) body"
    "log F opt False i sev msg args sprintf extraData extraCount = Ret (Some (entry (entry_head (opt_Tag opt) (id_Time i))
       (of_nat (length (base_fields (id_Uint64 i) sev str @ extra @ kvs @ stack_fields opt sev (env_frames F)))) body))" by metis
  with l(1) v show thesis by (intro that [of body]) simp_all
qed

lemma logs_length: "logs F opt b ev \<Longrightarrow> strip_len opt \<le> length b"
  using strip_entry(2) by (elim logs_entry) simp

lemma logs_wire:
  assumes "logs F opt b ev" and "1 \<le> len (opt_Tag opt)" "len (opt_Tag opt) \<le> 64" "len (opt_Tag opt) \<le> limit"
  shows "fmsg_wire limit uz (Single (opt_Tag opt) ev) b"
proof -
  obtain body where b: "b = entry (entry_head (opt_Tag opt) (fst ev)) (of_nat (length (snd ev))) body" "pairs_wire (snd ev) body" "length (snd ev) < 256"
    "ts_valid [TsFluentd] (fst ev)" by (rule logs_entry [OF assms(1)])
  have "len (opt_Tag opt) < 2 ^ 32" using assms(3) by simp
  from wire_entry [OF this b(4,2,3) refl] b(1) have "wire (MArray [MStr (opt_Tag opt), MTime (fst ev) [TsFluentd], MMap (snd ev)]) b" by simp
  from wire_Single [OF this assms(2-4)] show ?thesis by simp
qed

lemma logs_stream:
  assumes "list_all2 (logs F opt) bs evs" and "1 \<le> len (opt_Tag opt)" "len (opt_Tag opt) \<le> 64" "len (opt_Tag opt) \<le> limit"
  shows "list_all2 (fmsg_wire limit uz) (map (Single (opt_Tag opt)) evs) bs"
  using assms(1) logs_wire [OF _ assms(2-4)] by (induction rule: list_all2_induct) (simp_all del: fmsg_wire.simps)

subsection \<open>The client carries what it is given\<close>

definition connected :: "'r Client \<Rightarrow> nat \<Rightarrow> 'n net \<Rightarrow> bool" where
  "connected c j n \<longleftrightarrow> c_conn c = Some j \<and> j < length (sent n) \<and> set (writes n) \<subseteq> {None}"

lemma Client_carries_all:
  assumes "connected c j n"
  obtains n' where "write_all (\<lambda>b (c, n). Client_Write kept R sha copt b c n) bs (c, n) = Ret (c, n')" "arrived j n n' = concat bs" "connected c j n'"
proof -
  have "\<exists>n'. write_all (\<lambda>b (c, n). Client_Write kept R sha copt b c n) bs (c, n) = Ret (c, n') \<and> sent n' = (sent n)[j := sent n ! j @ concat bs] \<and> connected c j n'"
    using assms
  proof (induction bs arbitrary: n)
    case (Cons b bs)
    then have c: "c_conn c = Some j" "j < length (sent n)" "set (writes n) \<subseteq> {None}" by (simp_all add: connected_def)
    obtain k err n1 where w: "conn_Write j b n = ((k, err), n1)" by (metis prod.exhaust)
    have ok: "err = None" "k = len b" "writes n1 = tl (writes n)" "sent n1 = (sent n)[j := sent n ! j @ b]"
      using w c(3) by (cases "writes n"; auto simp: conn_Write_def net_send_def split: option.splits)+
    then have "connected c j n1" using c by (cases "writes n") (auto simp: connected_def)
    from Cons.IH [OF this] ok w c show ?case by (auto simp: Client_Write_def ensureConnection_def)
  qed simp
  with that arrived_sent show thesis using assms unfolding connected_def by metis
qed

subsection \<open>Property\<close>

text \<open>
  C3. What is logged is what the server reads. Take any interleaving of log calls, worker and \<open>Close\<close>, under \<open>Block\<close> or \<open>Loose\<close> with a client that does not fail, in which
  the messages queued so far were built by calls of \<open>log\<close> that mean the events \<open>evs\<close>. The messages that the worker has handed to the client, written
  on its connection, are read by the transport phase at the other end as exactly the events of the first of these calls, in the order in which they
  were queued, under the tag of the instance, then the end of the stream; only those still in the queue are missing. And as long as \<open>Close\<close> has not been
  called it can return with all of them handed over.
\<close>

theorem logged_events_reach_server:
  fixes s :: "'g Instance"
  assumes run: "(close_step gz (setDefaults opt) hasFallback isCloser)\<^sup>*\<^sup>* (Before, NewInstance c0 d) (p, s)" and "opt_WriteBehavior opt \<noteq> Fallback"
    and "cli_results c0 = []" "cli_written c0 = []"
    and evs: "list_all2 (logs F (setDefaults opt)) (accepted s) evs" and "tag = opt_Tag (setDefaults opt)" "len tag \<le> 64" "len tag \<le> conn_limit E"
    and "connected c j n"
    and "tenv_ok E" and "consumes (conn E) (conn_rest E) (\<lambda>_. ()) cR g" and "consumes (batch E) (batch_rest E) (after E) cQ g"
  shows "(\<exists>n'. write_all (\<lambda>b (c, n). Client_Write kept R sha copt b c n) (cli_written (cli s)) (c, n) = Ret (c, n') \<and>
      (\<forall>rd. conn_rest E rd = arrived j n n' \<longrightarrow> (\<exists>s'.
        read_entries (t_Next (conn E) (batch E) (readers E) (length (conn_rest E rd)) (2 * length evs + 2)) cR cQ (length evs + 1) (NewIterator rd, Init []) e =
        Ret (map (\<lambda>(t, kvs). (tag, t, g kvs)) (take (length (cli_written (cli s))) evs), Some T_EOF, s')))) \<and>
    length evs = length (cli_written (cli s)) + length (queue s) \<and>
    (p = Before \<and> worker_pc s \<noteq> Stopped \<longrightarrow> (\<exists>err s'. (close_step gz (setDefaults opt) hasFallback isCloser)\<^sup>*\<^sup>* (Before, s) (Returned err, s') \<and>
      cli_written (cli s') = accepted s))"
proof -
  let ?o = "setDefaults opt" and ?bs = "cli_written (cli s)" and ?step = "close_step gz (setDefaults opt) hasFallback isCloser"
  have "opt_WriteBehavior ?o = opt_WriteBehavior opt" by (simp add: setDefaults_def Let_def)
  with assms(2) have nf: "opt_WriteBehavior ?o \<noteq> Fallback" by simp
  have "pipe_ok ?o (Before, NewInstance c0 d :: 'g Instance)"
    using NewInstance_queue_ok [OF assms(4), of opt d] assms(3) by (simp add: pipe_ok_def unfailing_def) (simp add: NewInstance_def)
  from reachable_pipe_ok [OF run this nf] have ok: "pipe_ok ?o (p, s)" .
  note w = pipe_writes_all [OF ok, unfolded snd_conv]
  have l: "length evs = length ?bs + length (queue s)" using list_all2_lengthD [OF evs] w(1) by simp
  have tag: "1 \<le> len (opt_Tag ?o)" by (cases "opt_Tag opt") (simp_all add: setDefaults_def text_bytes_def Let_def)
  have "list_all2 (logs F ?o) ?bs (take (length ?bs) evs)" using list_all2_takeI [OF evs, of "length ?bs"] w(1) by simp
  from logs_stream [OF this tag] assms(6-8) have ms: "list_all2 (fmsg_wire (conn_limit E) (unzip E)) (map (Single tag) (take (length ?bs) evs)) ?bs" by simp
  have es: "concat (map entries_of (map (Single tag) xs)) = map (\<lambda>(t, kvs). (tag, t, kvs)) xs" for xs by (induction xs) auto
  obtain n' where n': "write_all (\<lambda>b (c, n). Client_Write kept R sha copt b c n) ?bs (c, n) = Ret (c, n')" "arrived j n n' = concat ?bs"
    by (rule Client_carries_all [OF assms(9)])
  have "\<exists>s'. read_entries (t_Next (conn E) (batch E) (readers E) (length (conn_rest E rd)) (2 * length evs + 2)) cR cQ (length evs + 1) (NewIterator rd, Init []) e =
      Ret (map (\<lambda>(t, kvs). (tag, t, g kvs)) (take (length ?bs) evs), Some T_EOF, s')" if "conn_rest E rd = arrived j n n'" for rd
    using session_delivers [OF assms(10-12) ms, of rd "length (conn_rest E rd)" "2 * length evs + 2" "length evs + 1" e] that n'(2)
    unfolding es by (auto simp: comp_def case_prod_beta' min_less_iff_disj simp del: t_Next.simps read_entries.simps)
  moreover have "\<exists>err s'. ?step\<^sup>*\<^sup>* (Before, s) (Returned err, s') \<and> cli_written (cli s') = accepted s" if b: "p = Before" "worker_pc s \<noteq> Stopped"
  proof -
    have "\<not> closed s" using ok b(1) by (simp add: pipe_ok_def)
    moreover have "\<forall>b \<in> set (accepted s). strip_len ?o \<le> length b" using evs by (induction rule: list_all2_induct) (auto dest: logs_length)
    then have "\<forall>b \<in> set (queue s). strip_len ?o \<le> length b" using w(1) by simp
    ultimately obtain err s' where r: "?step\<^sup>*\<^sup>* (Before, s) (Returned err, s')" "map fst (handled s') = map fst (handled s) @ queue s"
      using Close_reaches [OF _ b(2)] by metis
    from reachable_pipe_ok [OF r(1) _ nf] ok b(1) have "pipe_ok ?o (Returned err, s')" by simp
    from pipe_writes_all(2) [OF this] r w show ?thesis by auto
  qed
  ultimately show ?thesis using n'(1) l by blast
qed

text \<open>One call is logged and sent, and \<open>Close\<close> has not been called.\<close>

lemma sample_logs:
  obtains b where "logs \<lparr>env_Appendf = \<lambda>dst _ _. dst, env_json = \<lambda>_ _. None, env_frames = []\<rparr> block_opt b
    (time_Unix 1000 5, base_fields 77 INFO [0x68, 0x69])"
proof -
  let ?F = "\<lparr>env_Appendf = \<lambda>dst _ _. dst, env_json = \<lambda>_ _. None, env_frames = []\<rparr> :: env" and ?i = "\<lparr>id_Time = time_Unix 1000 5, id_Uint64 = 77\<rparr>"
  let ?all = "base_fields 77 INFO [0x68, 0x69]"
  have a: "args_add (env_json ?F) [] (drop (nat 0) []) []" by (simp add: args_add_def)
  have m: "message_text ?F [0x68, 0x69] 0 [] [0x68, 0x69]" by (simp add: message_text_def)
  have t: "ts_valid [TsFluentd] (id_Time ?i)" by (simp add: ts_valid_def ts_format_def time_Unix_def time_ok_def)
  have all: "?all = base_fields (id_Uint64 ?i) INFO [0x68, 0x69] @ [] @ [] @ stack_fields block_opt INFO (env_frames ?F)"
    by (simp add: stack_fields_def less_eq_Severity_def block_opt_def)
  have l: "length ?all < 256" "len (opt_Tag block_opt) < 2 ^ 32" by (simp_all add: block_opt_def)
  obtain b where b: "log ?F block_opt False ?i INFO [0x68, 0x69] [] False [] 0 = Ret (Some b)"
    using log_wire [where sprintf = False and n = 0 and args = "[]" and extra = "[]" and extraData = "[]" and extraCount = 0 and sev = INFO and i = ?i, OF _ _ _ m _ l(2) t pairs_wire_Nil _ a _ all l(1)]
    by auto
  have "logs ?F block_opt b (time_Unix 1000 5, ?all)"
    unfolding logs_def using b a m t all l(1) pairs_wire_Nil
    by (intro exI [of _ ?i] exI [of _ INFO] exI [of _ "[0x68, 0x69]"] exI [of _ "[]"] exI [of _ False] exI [of _ 0] conjI) (assumption | simp)+
  then show thesis by (rule that)
qed

lemma logged_events_reach_server_witness:
  "\<exists>b s n' s' err s2. logs \<lparr>env_Appendf = \<lambda>dst _ _. dst, env_json = \<lambda>_ _. None, env_frames = []\<rparr> block_opt b (time_Unix 1000 5, base_fields 77 INFO [0x68, 0x69]) \<and>
    (close_step store_gz block_opt False True)\<^sup>*\<^sup>* (Before, NewInstance idle_client (NewDirBuffer \<lparr>files = Map.empty, faults = []\<rparr> [])) (Before, s) \<and> cli_written (cli s) = [b] \<and>
    write_all (\<lambda>b (c, n). Client_Write (\<lambda>b k. b) (list_ring 9) (\<lambda>b. b) \<lparr>o_Hostname = [], o_Auth = Inl []\<rparr> b c n) [b]
      ((NewClient [])\<lparr>c_conn := Some 0\<rparr>, \<lparr>dials = [], writes = [], closes = [], salts = [], sent = [[1]]\<rparr>) = Ret ((NewClient [])\<lparr>c_conn := Some 0\<rparr>, n') \<and>
    read_entries (t_Next (list_ring 64) (pair_ring 64) (list_sub list_unzip)
        (length (arrived 0 \<lparr>dials = [] :: bytes option list, writes = [], closes = [], salts = [], sent = [[1]]\<rparr> n')) 4)
      (skip_record (list_ring 64) (\<lambda>r. r)) (skip_record (pair_ring 64) fst) 2
      (NewIterator (arrived 0 \<lparr>dials = [], writes = [], closes = [], salts = [], sent = [[1]]\<rparr> n'), Init []) empty_Entry =
      Ret ([([0x74], time_Unix 1000 5, ())], Some T_EOF, s') \<and>
    (close_step store_gz block_opt False True)\<^sup>*\<^sup>* (Before, s) (Returned err, s2) \<and> cli_written (cli s2) = [b]"
proof -
  let ?F = "\<lparr>env_Appendf = \<lambda>dst _ _. dst, env_json = \<lambda>_ _. None, env_frames = []\<rparr> :: env" and ?ev = "(time_Unix 1000 5, base_fields 77 INFO [0x68, 0x69])"
  let ?n = "\<lparr>dials = [], writes = [], closes = [], salts = [], sent = [[1]]\<rparr> :: bytes net" and ?c = "(NewClient [])\<lparr>c_conn := Some 0\<rparr> :: bytes Client"
  obtain b where b: "logs ?F block_opt b ?ev" by (rule sample_logs)
  let ?R = "close_step store_gz block_opt False True"
  let ?s0 = "NewInstance idle_client (NewDirBuffer \<lparr>files = Map.empty, faults = []\<rparr> []) :: unit Instance"
  let ?s1 = "?s0\<lparr>passed := [b]\<rparr>"
  let ?s2 = "?s1\<lparr>passed := [], queue := [b], accepted := [b]\<rparr>"
  let ?s3 = "?s2\<lparr>worker_pc := Poll\<rparr>"
  let ?s4 = "?s3\<lparr>queue := [], cli := idle_client\<lparr>cli_written := [b]\<rparr>, handled := [(b, Written)]\<rparr>"
  note defs = block_opt_def NewInstance_def idle_client_def queueMessage_def enqueue_def
  have "step store_gz block_opt ?s0 ?s1" using log_passes [of ?s0 store_gz block_opt b] by (simp add: defs)
  then have 1: "?R (Before, ?s0) (Before, ?s1)" by (rule close_step.others) simp
  have "step store_gz block_opt ?s1 ?s2" using log_queues [of b ?s1 store_gz block_opt] by (simp add: defs)
  then have 2: "?R (Before, ?s1) (Before, ?s2)" by (rule close_step.others) simp
  have "step store_gz block_opt ?s2 ?s3" using worker_starts [of ?s2 store_gz block_opt] by (simp add: defs maybeSetFb_def flushFallbackToCli_def)
  then have 3: "?R (Before, ?s2) (Before, ?s3)" by (rule close_step.others) simp
  have "step store_gz block_opt ?s3 ?s4"
    using poll_receives [of ?s3 b "[]" store_gz block_opt ?s4] by (simp add: defs sendToCli_def cli_Write_def cli_next_def)
  then have 4: "?R (Before, ?s3) (Before, ?s4)" by (rule close_step.others) simp
  from 1 2 3 4 have r: "?R\<^sup>*\<^sup>* (Before, ?s0) (Before, ?s4)" by (meson converse_rtranclp_into_rtranclp rtranclp.rtrancl_refl)
  have d: "setDefaults block_opt = block_opt" "opt_WriteBehavior block_opt \<noteq> Fallback" "cli_results idle_client = []" "cli_written idle_client = []"
    "opt_Tag block_opt = [0x74]" by (simp_all add: defs setDefaults_def)
  have a: "list_all2 (logs ?F (setDefaults block_opt)) (accepted ?s4) [?ev]" using b d(1) by simp
  have c: "connected ?c 0 ?n" by (simp add: connected_def)
  have r': "(close_step store_gz (setDefaults block_opt) False True)\<^sup>*\<^sup>* (Before, ?s0) (Before, ?s4)" unfolding d(1) by (rule r)
  have E: "tenv_ok (list_env 64 list_unzip)" by (rule list_env_ok) simp
  have t: "[0x74] = opt_Tag (setDefaults block_opt)" "len [0x74 :: byte] \<le> 64" "len [0x74 :: byte] \<le> conn_limit (list_env 64 list_unzip)" using d(1,5) by simp_all
  have w: "cli_written (cli ?s4) = [b]" "worker_pc ?s4 \<noteq> Stopped" "accepted ?s4 = [b]" by simp_all
  note p = logged_events_reach_server [where kept = "\<lambda>b k. b" and R = "list_ring 9" and sha = "\<lambda>b. b" and copt = "\<lparr>o_Hostname = [], o_Auth = Inl []\<rparr>" and e = empty_Entry
      and cR = "skip_record (list_ring 64) (\<lambda>r. r)" and cQ = "skip_record (pair_ring 64) fst" and g = "\<lambda>_. ()",
      OF r' d(2-4) a t c E, unfolded w(1,3) list_env_sel]
  obtain n' where n': "write_all (\<lambda>b (c, n). Client_Write (\<lambda>b k. b) (list_ring 9) (\<lambda>b. b) \<lparr>o_Hostname = [], o_Auth = Inl []\<rparr> b c n) [b] (?c, ?n) = Ret (?c, n')"
    "\<And>rd. rd = arrived 0 ?n n' \<Longrightarrow> \<exists>s'. read_entries (t_Next (list_ring 64) (pair_ring 64) (list_sub list_unzip) (length rd) (2 * length [?ev] + 2))
        (skip_record (list_ring 64) (\<lambda>r. r)) (skip_record (pair_ring 64) fst) (length [?ev] + 1) (NewIterator rd, Init []) empty_Entry =
      Ret (map (\<lambda>(t, kvs). ([0x74], t, ())) (take (length [b]) [?ev]), Some T_EOF, s')"
    using p list_consumes [of 64] by (simp del: t_Next.simps read_entries.simps write_all.simps) blast
  obtain err s2 where s2: "?R\<^sup>*\<^sup>* (Before, ?s4) (Returned err, s2)" "cli_written (cli s2) = [b]"
    using p list_consumes [of 64] w(2) d(1) by auto
  obtain s' where "read_entries (t_Next (list_ring 64) (pair_ring 64) (list_sub list_unzip) (length (arrived 0 ?n n')) 4)
      (skip_record (list_ring 64) (\<lambda>r. r)) (skip_record (pair_ring 64) fst) 2 (NewIterator (arrived 0 ?n n'), Init []) empty_Entry = Ret ([([0x74], time_Unix 1000 5, ())], Some T_EOF, s')"
    using n'(2) [OF refl] by (auto simp: numeral_2_eq_2 eval_nat_numeral simp del: t_Next.simps read_entries.simps)
  with b r w(1) n'(1) s2 show ?thesis by blast
qed

end
