(* ===== verification/Recovery.thy ===== *)
theory Recovery
  imports Pipeline
begin

text \<open>
  The whole program when its client fails: what the worker could not write goes to the fallback buffer and comes back in batches, of the
  same run or of the next one on the same directory. Every logged event is still read once by the server.
\<close>

subsection \<open>Lists that are related element by element\<close>

lemma list_all2_unconcat:
  "list_all2 P (concat xss) ys \<Longrightarrow> \<exists>yss. ys = concat yss \<and> list_all2 (list_all2 P) xss yss"
proof (induction xss arbitrary: ys)
  case (Cons xs xss)
  then obtain us vs where u: "ys = us @ vs" "list_all2 P xs us" "list_all2 P (concat xss) vs" by (auto simp: list_all2_append1)
  from Cons.IH [OF u(3)] obtain yss where "vs = concat yss" "list_all2 (list_all2 P) xss yss" by blast
  with u show ?case by (intro exI [of _ "us # yss"]) simp
qed simp

lemma list_all2_partition:
  assumes "list_all2 P xs ys"
  obtains us vs where "list_all2 P (filter Q xs) us" "list_all2 P (filter (\<lambda>x. \<not> Q x) xs) vs" "mset us + mset vs = mset ys"
proof -
  have "\<exists>us vs. list_all2 P (filter Q xs) us \<and> list_all2 P (filter (\<lambda>x. \<not> Q x) xs) vs \<and> mset us + mset vs = mset ys"
    using assms
  proof (induction rule: list_all2_induct)
    case (Cons x xs y ys)
    then obtain us vs where "list_all2 P (filter Q xs) us" "list_all2 P (filter (\<lambda>x. \<not> Q x) xs) vs" "mset us + mset vs = mset ys" by blast
    with Cons.hyps(1) show ?case
      by (intro exI [of _ "if Q x then y # us else us"] exI [of _ "if Q x then vs else y # vs"]) simp
  qed simp
  with that show thesis by blast
qed

lemma list_all2_swap: "list_all2 P xs ys \<Longrightarrow> list_all2 (\<lambda>y x. P x y) ys xs"
  by (induction rule: list_all2_induct) simp_all

lemma concat_map_concat: "concat (map concat xs) = concat (concat xs)"
  by (induction xs) simp_all

lemma mset_concat_map: "mset (concat (map f xs)) = \<Sum>\<^sub># (image_mset (\<lambda>x. mset (f x)) (mset xs))"
  by (induction xs) simp_all

subsection \<open>Events in the fallback\<close>

text \<open>\<open>group_of F opt g ev\<close>: the writes \<open>g\<close> are the entry of a message that means \<open>ev\<close>.\<close>

definition group_of :: "env \<Rightarrow> Options \<Rightarrow> bytes list \<Rightarrow> event \<Rightarrow> bool" where
  "group_of F opt g ev \<longleftrightarrow> (\<exists>b. logs F opt b ev \<and> g = fallback_entry opt b)"

lemma group_event: "group_of F opt g ev \<Longrightarrow> event_wire ev (concat g)"
proof -
  assume "group_of F opt g ev"
  then obtain b where b: "logs F opt b ev" "g = fallback_entry opt b" by (auto simp: group_of_def)
  obtain t kvs where ev: "ev = (t, kvs)" by (cases ev)
  from b(1) obtain body where e: "b = entry (entry_head (opt_Tag opt) t) (of_nat (length kvs)) body" "pairs_wire kvs body" "length kvs < 256" "ts_valid [TsFluentd] t"
    unfolding ev by (elim logs_entry) simp
  from wire_event [OF fallback_entry_wire [OF e(4,2,3), of opt]] b(2) e(1) ev show ?thesis by simp
qed

lemma groups_events: "list_all2 (group_of F opt) gs es \<Longrightarrow> list_all2 event_wire es (map concat gs)"
  by (induction rule: list_all2_induct) (simp_all add: group_event)

abbreviation gzip_opts :: "(bytes \<times> msg) list" where
  "gzip_opts \<equiv> [(text_bytes ''compressed'', MStr (text_bytes ''gzip''))]"

text \<open>What a batch that the fallback handed to the client is on the wire.\<close>

lemma batch_arrives:
  assumes "entries_file gz gs z" and "list_all2 (group_of F opt) gs es" and "gzip_magic z" "uz z = Some (concat (concat gs))" "len z < 2 ^ 32"
    and "1 \<le> len tag" "len tag \<le> 64" "len tag \<le> limit" "10 \<le> limit"
  shows "fmsg_wire limit uz (Compressed tag es (Some gzip_opts)) (encode (batch_msg tag z))"
proof (rule wire_Compressed [OF _ assms(6-8) _ assms(3) _ groups_events [OF assms(2)]])
  show "wire (MArray [MStr tag, MBin z, options_msg gzip_opts]) (encode (batch_msg tag z))"
    using batch_msg_wire [OF _ assms(5), of tag] assms(7) by (simp add: batch_msg_def)
  show "\<forall>kv \<in> set gzip_opts. option_ok limit kv" using assms(9) by (simp add: option_ok_def text_bytes_def)
  show "uz z = Some (concat (map concat gs))" unfolding concat_map_concat by (rule assms(4))
qed

text \<open>How the transport phase starts on any batch: with its tag, then with a binary of its length.\<close>

lemma batch_head:
  assumes R: "ring_contract R rest limit" and "rest (it_r it) = encode (batch_msg tag z) @ xs" and "len z < 2 ^ 32"
    and "1 \<le> len tag" "len tag \<le> 64" "len tag \<le> limit" "10 \<le> limit"
  obtains i1 i2 where "message_head R (it, t) = Ret (Inr (3, tag), i1)" "Next R i1 = Ret (True, i2)" "it_typ i2 = BinT" "it_length i2 = len z"
proof -
  have w: "wire (MArray [MStr tag, MBin z, options_msg gzip_opts]) (encode (batch_msg tag z))"
    using batch_msg_wire [OF _ assms(3), of tag] assms(5) by (simp add: batch_msg_def)
  have "\<forall>kv \<in> set gzip_opts. option_ok limit kv" using assms(7) by (simp add: option_ok_def text_bytes_def)
  then obtain hb zb ob where b: "encode (batch_msg tag z) = hb @ zb @ ob" "head_wire limit 3 tag hb" "wire (MBin z) zb"
    by (rule wire_batch [OF w assms(4-6)])
  from assms(2) b(1) have r: "rest (it_r it) = hb @ (zb @ ob @ xs)" by simp
  obtain i1 where 1: "message_head R (it, t) = Ret (Inr (3, tag), i1)" "rest (it_r i1) = zb @ (ob @ xs)"
    by (rule read_head [OF R b(2) r, of t]) simp_all
  obtain i2 where "Next R i1 = Ret (True, i2)" "it_typ i2 = BinT" "it_length i2 = len z"
    by (rule read_Bin_head [OF R b(3) 1(2)]) (rule that)
  with 1(1) show thesis by (rule that)
qed

text \<open>
  The batch without a byte, which the second call of \<open>Reader\<close> after a reconnection sends when the other file is
  empty. \<open>refused x\<close> is how a session ends there when the limited reader answers \<open>Peek\<close> with the error \<open>x\<close>.
\<close>

abbreviation empty_batch :: "bytes \<Rightarrow> bytes" where
  "empty_batch tag \<equiv> encode (batch_msg tag [])"

definition refused :: "err \<Rightarrow> transport_err" where
  "refused x = t_error (Init [] :: unit TransportPhase) ''is_gzip'' (IterErr x)"

lemma stops_empty_batch:
  assumes E: "tenv_ok E" and "\<And>r. \<exists>p r'. Peek3 (readers E) r 0 = ((p, Some x), r')"
    and tag: "1 \<le> len tag" "len tag \<le> 64" "len tag \<le> conn_limit E" "10 \<le> conn_limit E"
  shows "stops E (empty_batch tag @ xs) (refused x)"
  unfolding stops_def
proof (intro allI impI, elim conjE)
  fix skip f e and it :: "'a Iterator" and t :: "'b TransportPhase"
  assume r: "conn_rest E (it_r it) = empty_batch tag @ xs" and t: "t_mode t = MessageMode"
  obtain i1 i2 where 1: "message_head (conn E) (it, t) = Ret (Inr (3, tag), i1)" "Next (conn E) i1 = Ret (True, i2)" "it_typ i2 = BinT" "it_length i2 = 0"
    by (rule batch_head [OF tenv_rings(1) [OF E] r _ tag, of t]) simp_all
  obtain p r' where "Peek3 (readers E) (it_r i2) 0 = ((p, Some x), r')" using assms(2) by blast
  with 1(4) have "isGzip (readers E) i2 = Ret ((False, Some x), i2\<lparr>it_r := r'\<rparr>)" by (simp add: isGzip_def)
  with 1 t show "\<exists>e' it'. t_Next (conn E) (batch E) (readers E) skip (Suc f) (it, t) e = Ret ((Some (refused x), e'), it', t)"
    by (simp add: message_Next_def refused_def t_error_def Init_def)
qed

lemma batch_not_empty:
  assumes "z \<noteq> []" "len z < 2 ^ 32" and tag: "1 \<le> len tag" "len tag \<le> 64" "len tag \<le> limit" "10 \<le> limit"
  shows "encode (batch_msg tag z) \<noteq> empty_batch tag"
proof
  let ?it = "NewIterator (encode (batch_msg tag z))" and ?R = "list_ring limit" and ?t = "Init [] :: unit TransportPhase"
  assume "encode (batch_msg tag z) = empty_batch tag"
  then have r: "it_r ?it = encode (batch_msg tag z) @ []" "it_r ?it = empty_batch tag @ []" by simp_all
  have R: "ring_contract ?R (\<lambda>r. r) limit" using tag by (intro list_ring_contract) simp
  obtain i1 i2 where 1: "message_head ?R (?it, ?t) = Ret (Inr (3, tag), i1)" "Next ?R i1 = Ret (True, i2)" "it_length i2 = len z"
    by (rule batch_head [OF R r(1) assms(2) tag])
  obtain j1 j2 where 2: "message_head ?R (?it, ?t) = Ret (Inr (3, tag), j1)" "Next ?R j1 = Ret (True, j2)" "it_length j2 = len ([] :: bytes)"
    by (rule batch_head [OF R r(2) _ tag]) simp_all
  from 1 2 show False using assms(1) by simp
qed

lemma single_not_empty:
  assumes "fmsg_wire limit uz (Single tag' ev) b" and tag: "1 \<le> len tag" "len tag \<le> 64" "len tag \<le> limit" "10 \<le> limit"
  shows "b \<noteq> empty_batch tag"
proof
  let ?it = "NewIterator b" and ?R = "list_ring limit" and ?t = "Init [] :: unit TransportPhase"
  assume b: "b = empty_batch tag"
  from assms(1) obtain hb sb rb where w: "b = hb @ sb @ rb" "head_wire limit 3 tag' hb" "time_wire (fst ev) sb" by auto
  have R: "ring_contract ?R (\<lambda>r. r) limit" using tag by (intro list_ring_contract) simp
  have r: "it_r ?it = hb @ (sb @ rb)" "it_r ?it = empty_batch tag @ []" using w(1) b by simp_all
  obtain i1 where 1: "message_head ?R (?it, ?t) = Ret (Inr (3, tag'), i1)" "it_r i1 = sb @ rb"
    by (rule read_head [OF R w(2) r(1)]) simp_all
  obtain i2 where 2: "Next ?R i1 = Ret (True, i2)" "it_typ i2 \<in> {ExtT, IntT, UintT}"
    by (rule read_Time [OF R keeps_unit w(3) 1(2)])
  obtain j1 j2 where 3: "message_head ?R (?it, ?t) = Ret (Inr (3, tag), j1)" "Next ?R j1 = Ret (True, j2)" "it_typ j2 = BinT"
    by (rule batch_head [OF R r(2) _ tag]) simp_all
  from 1(1) 2 3 show False by auto
qed

text \<open>
  \<open>carries limit uz tag b es\<close>: a message or batch \<open>b\<close> of the instance brings the events \<open>es\<close>, the empty batch none.
  \<open>intact tag bss\<close> of the messages of a session come before its first empty batch.
\<close>

definition carries :: "int \<Rightarrow> (bytes \<Rightarrow> bytes option) \<Rightarrow> bytes \<Rightarrow> bytes \<Rightarrow> event list \<Rightarrow> bool" where
  "carries limit uz tag b es \<longleftrightarrow>
     (if b = empty_batch tag then es = [] else \<exists>m. fmsg_wire limit uz m b \<and> entries_of m = map (Pair tag) es)"

definition intact :: "bytes \<Rightarrow> bytes list \<Rightarrow> nat" where
  "intact tag bss = length (takeWhile (\<lambda>b. b \<noteq> empty_batch tag) bss)"

lemma batch_carries:
  assumes "entries_file gz gs z" and "list_all2 (group_of F opt) gs es" and "gz_nonempty gz"
    and "\<And>cs z. gz_file gz cs z \<Longrightarrow> z \<noteq> [] \<Longrightarrow> gzip_magic z \<and> uz z = Some (concat cs)" and "len z < 2 ^ 32"
    and tag: "1 \<le> len tag" "len tag \<le> 64" "len tag \<le> limit" "10 \<le> limit"
  shows "carries limit uz tag (encode (batch_msg tag z)) es"
proof (cases "z = []")
  case True
  then have "concat gs = []" using gz_file_empty [OF assms(3)] assms(1) unfolding entries_file_def by blast
  with assms(2) have "es = []" by (cases gs) (auto simp: list_all2_Cons1 group_of_def fallback_entry_def)
  with True show ?thesis by (simp add: carries_def)
next
  case False
  have "gzip_magic z" "uz z = Some (concat (concat gs))" using assms(1,4) False by (auto simp: entries_file_def)
  from batch_arrives [where uz = uz, OF assms(1,2) this assms(5) tag] batch_not_empty [OF False assms(5) tag] show ?thesis
    by (auto simp: carries_def simp del: fmsg_wire.simps intro!: exI [of _ "Compressed tag es (Some gzip_opts)"])
qed

text \<open>All batches of two clients, given that their entries together are the groups of the events \<open>es\<close>.\<close>

lemma batches_carry:
  assumes "list_all2 (entries_file gz) gss zs" and "mset (concat gss) = mset gs" and "list_all2 (group_of F opt) gs es" and "gz_nonempty gz"
    and "\<And>cs z. gz_file gz cs z \<Longrightarrow> z \<noteq> [] \<Longrightarrow> gzip_magic z \<and> uz z = Some (concat cs)" and "\<forall>z \<in> set zs. len z < 2 ^ 32"
    and "1 \<le> len tag" "len tag \<le> 64" "len tag \<le> limit" "10 \<le> limit"
  obtains ess where "list_all2 (carries limit uz tag) (map (\<lambda>z. encode (batch_msg tag z)) zs) ess" "mset (concat ess) = mset es"
proof -
  from list_all2_reorder_left_invariance [OF assms(3,2)] obtain es' where es': "list_all2 (group_of F opt) (concat gss) es'" "mset es' = mset es" by blast
  from list_all2_unconcat [OF es'(1)] obtain ess where ess: "es' = concat ess" "list_all2 (list_all2 (group_of F opt)) gss ess" by blast
  have "list_all2 (carries limit uz tag) (map (\<lambda>z. encode (batch_msg tag z)) zs) ess"
    using assms(1,6) ess(2)
  proof (induction gss zs arbitrary: ess rule: list_all2_induct)
    case (Cons gs gss z zs)
    then obtain es ess' where e: "ess = es # ess'" "list_all2 (group_of F opt) gs es" "list_all2 (list_all2 (group_of F opt)) gss ess'" by (auto simp: list_all2_Cons1)
    from batch_carries [where uz = uz, OF Cons.hyps(1) e(2) assms(4,5) _ assms(7-10)] Cons.prems(1) Cons.IH [OF _ e(3)] show ?case by (simp add: e(1))
  qed simp
  with es'(2) ess(1) that show thesis by blast
qed

lemma logs_carry:
  assumes "list_all2 (logs F opt) bs evs" and "tag = opt_Tag opt" and tag: "1 \<le> len tag" "len tag \<le> 64" "len tag \<le> limit" "10 \<le> limit"
  shows "list_all2 (carries limit uz tag) bs (map (\<lambda>ev. [ev]) evs)"
proof -
  have "list_all2 (fmsg_wire limit uz) (map (Single tag) evs) bs" using logs_stream [OF assms(1)] tag assms(2) by simp
  then show ?thesis
  proof (induction evs arbitrary: bs)
    case (Cons ev evs)
    then obtain b bs' where "bs = b # bs'" "fmsg_wire limit uz (Single tag ev) b" "list_all2 (fmsg_wire limit uz) (map (Single tag) evs) bs'"
      by (auto simp: list_all2_Cons1 simp del: fmsg_wire.simps)
    with Cons.IH single_not_empty [OF _ tag] show ?case
      by (auto simp: carries_def simp del: fmsg_wire.simps intro!: exI [of _ "Single tag ev"])
  qed simp
qed

lemma length_concat_le: "xs \<in> set xss \<Longrightarrow> length (concat xs) \<le> length (concat (concat xss))"
  by (induction xss) auto

lemma carried_messages:
  assumes "list_all2 (carries limit uz tag) bss ess" and "empty_batch tag \<notin> set bss"
  obtains ms where "list_all2 (fmsg_wire limit uz) ms bss" "concat (map entries_of ms) = map (Pair tag) (concat ess)"
proof -
  have "\<exists>ms. list_all2 (fmsg_wire limit uz) ms bss \<and> concat (map entries_of ms) = map (Pair tag) (concat ess)"
    using assms
  proof (induction rule: list_all2_induct)
    case (Cons b bss es ess)
    then obtain m ms where "fmsg_wire limit uz m b" "entries_of m = map (Pair tag) es"
      "list_all2 (fmsg_wire limit uz) ms bss" "concat (map entries_of ms) = map (Pair tag) (concat ess)" by (auto simp: carries_def simp del: fmsg_wire.simps)
    then show ?case by (intro exI [of _ "m # ms"]) (simp del: fmsg_wire.simps)
  qed simp
  with that show thesis by blast
qed

text \<open>One session: the server reads the events up to the first empty batch, in order, and ends there or with the stream.\<close>

lemma session_reads:
  assumes E: "tenv_ok E" and c: "consumes (conn E) (conn_rest E) (\<lambda>_. ()) cR g" "consumes (batch E) (batch_rest E) (after E) cQ g"
    and x: "\<And>r. \<exists>p r'. Peek3 (readers E) r 0 = ((p, Some x), r')"
    and tag: "1 \<le> len tag" "len tag \<le> 64" "len tag \<le> conn_limit E" "10 \<le> conn_limit E"
    and w: "list_all2 (carries (conn_limit E) (unzip E) tag) bss ess" and "conn_rest E rd = concat bss" and "length (concat ess) < k"
  shows "\<exists>s'. read_entries (t_Next (conn E) (batch E) (readers E) (length (concat bss)) (2 * length bss + 2)) cR cQ k (NewIterator rd, Init []) e =
      Ret (map (\<lambda>(t, kvs). (tag, t, g kvs)) (concat (take (intact tag bss) ess)), Some (if intact tag bss = length bss then T_EOF else refused x), s')"
proof -
  let ?n = "intact tag bss" and ?r = "\<lambda>b. b \<noteq> empty_batch tag"
  let ?us = "takeWhile ?r bss" and ?vs = "dropWhile ?r bss"
  have us: "?us = take ?n bss" unfolding intact_def by (rule takeWhile_eq_take)
  have n: "?n \<le> length bss" by (simp add: intact_def length_takeWhile_le)
  have "empty_batch tag \<notin> set ?us" by (auto dest: set_takeWhileD)
  then obtain ms where ms: "list_all2 (fmsg_wire (conn_limit E) (unzip E)) ms (take ?n bss)" "concat (map entries_of ms) = map (Pair tag) (concat (take ?n ess))"
    using carried_messages [OF list_all2_takeI [OF w, of ?n]] us by metis
  have z: "stops E (concat ?vs) (if ?n = length bss then T_EOF else refused x)"
  proof (cases ?vs)
    case Nil
    then have "?n = length bss" unfolding intact_def using takeWhile_dropWhile_id [of ?r bss] by (metis append_Nil2)
    then show ?thesis unfolding Nil using stops_end [OF E] by simp
  next
    case (Cons v vs)
    then have "v = empty_batch tag" using hd_dropWhile [of ?r bss] by auto
    moreover have "?n \<noteq> length bss"
      unfolding intact_def using Cons takeWhile_dropWhile_id [of ?r bss] by (metis append_eq_conv_conj drop_all list.distinct(1) order_refl)
    ultimately show ?thesis unfolding Cons using stops_empty_batch [OF E x tag, of "concat vs"] by simp
  qed
  have b: "concat bss = concat (take ?n bss) @ concat ?vs" unfolding us [symmetric] concat_append [symmetric] by simp
  have l: "length ms \<le> length bss" using list_all2_lengthD [OF ms(1)] by simp
  have "concat ess = concat (take ?n ess) @ concat (drop ?n ess)" unfolding concat_append [symmetric] by simp
  then have k: "length (concat (map entries_of ms)) < k" using assms(11) unfolding ms(2) by simp
  have rd: "conn_rest E rd = concat (take ?n bss) @ concat ?vs" using assms(10) b by (rule trans)
  have m: "map (\<lambda>(tag, ts, kvs). (tag, ts, g kvs)) (map (Pair tag) xs) = map (\<lambda>(t, kvs). (tag, t, g kvs)) xs" for xs by (induction xs) auto
  have "length (concat (take ?n bss) @ concat ?vs) \<le> length (concat bss)" "2 * length ms + 2 \<le> 2 * length bss + 2" using b l by simp_all
  from session_stops [OF E c z ms(1) rd this k, of e] show ?thesis unfolding ms(2) m by blast
qed

subsection \<open>Property\<close>

text \<open>
  C2. Every logged event survives failures of the client. Take any run of an instance under \<open>Fallback\<close> on an empty directory, with any failures of
  its client and any reconnections, until \<open>Close\<close> has returned; then an instance on the same directory whose client works. Let the messages
  queued in the first run have been built by calls of \<open>log\<close> that mean the events \<open>evs\<close>. Then each of these events, but those still in the
  queue of calls that \<open>Close\<close> overtook, is in exactly one of the messages and batches that the two clients accepted, and nothing is left on
  disk. However these messages and batches arrive on however many connections, the transport phase reads on each of them, in order and under
  the tag of the instance, exactly the events before the first empty batch; without an empty batch that is all of them, and then the end of the
  stream. An empty batch, which the worker sends when the other file is empty after a reconnection, carries no event, but it ends the session
  that meets it with an error (\<open>refused\<close>), so what its connection brings behind it is not read.

  The disk works, batches are shorter than \<open>2^32\<close> bytes and the tag than 65, gzip decompresses what it compressed, and a limited reader without bytes answers \<open>Peek\<close> with an error.
  What a broken connection carried of a message that the client did not accept is not part of the streams.
\<close>

theorem logged_events_survive_failures:
  assumes run: "(close_step gz (setDefaults opt) True isCloser)\<^sup>*\<^sup>* (Before, NewInstance c (NewDirBuffer fs dir)) (Returned err, s)"
    and "opt_WriteBehavior opt = Fallback" and "cli_batches c = []" "cli_written c = []"
    and "holds gz (NewDirBuffer fs dir) [] []" and "gz_nonempty gz"
    and "restarted gz (setDefaults opt) c2 dir (d_os (fallback s)) s2" and "cli_results c2 = []" and "cli_batches c2 = []"
    and evs: "list_all2 (logs F (setDefaults opt)) (accepted s) evs" and "tag = opt_Tag (setDefaults opt)" "len tag \<le> 64" "len tag \<le> conn_limit E" "10 \<le> conn_limit E"
    and "\<And>cs z. gz_file gz cs z \<Longrightarrow> z \<noteq> [] \<Longrightarrow> gzip_magic z \<and> unzip E z = Some (concat cs)"
    and "\<forall>z \<in> set (cli_batches (cli s) @ cli_batches (cli s2)). len z < 2 ^ 32"
    and "tenv_ok E" and "consumes (conn E) (conn_rest E) (\<lambda>_. ()) cR g" and "consumes (batch E) (batch_rest E) (after E) cQ g"
    and "\<And>r. \<exists>p r'. Peek3 (readers E) r 0 = ((p, Some x), r')"
    and streams: "mset (concat bsss) = mset (cli_written (cli s) @ map (\<lambda>z. encode (batch_msg tag z)) (cli_batches (cli s) @ cli_batches (cli s2)))"
    and "list_all2 (\<lambda>rd bss. conn_rest E rd = concat bss) rds bsss"
  shows "\<exists>esss. list_all2 (list_all2 (carries (conn_limit E) (unzip E) tag)) bsss esss \<and>
    mset (concat (concat esss)) = mset (take (length evs - length (queue s)) evs) \<and> holds gz (fallback s2) [] [] \<and>
    (\<forall>i < length bsss. \<exists>s'.
       read_entries (t_Next (conn E) (batch E) (readers E) (length (concat (bsss ! i))) (2 * length (bsss ! i) + 2)) cR cQ (length evs + 1) (NewIterator (rds ! i), Init []) e =
         Ret (map (\<lambda>(t, kvs). (tag, t, g kvs)) (concat (take (intact tag (bsss ! i)) (esss ! i))),
              Some (if intact tag (bsss ! i) = length (bsss ! i) then T_EOF else refused x), s'))"
proof -
  let ?o = "setDefaults opt" and ?W = "cli_written (cli s)" and ?Z = "cli_batches (cli s) @ cli_batches (cli s2)" and ?hs = "handled s"
  let ?car = "carries (conn_limit E) (unzip E) tag"
  have o: "opt_WriteBehavior ?o = Fallback" using assms(2) by (simp add: setDefaults_def Let_def)
  have h0: "holds gz (NewDirBuffer fs dir) (concat []) (concat [])" using assms(5) by simp
  have tag: "1 \<le> len tag" using assms(11) by (cases "opt_Tag opt") (simp_all add: setDefaults_def text_bytes_def Let_def)
  from restart_sends [OF run o assms(3) h0 assms(6-9)] obtain sent resent where b: "holds gz (fallback s2) [] []"
    "list_all2 (entries_file gz) sent (cli_batches (cli s))" "list_all2 (entries_file gz) resent (cli_batches (cli s2))"
    "mset (concat (sent @ resent)) = mset (fallback_entries ?o ?hs)" by auto
  from reachable_close_queue_ok [OF run] NewInstance_queue_ok [OF assms(4), of opt "NewDirBuffer fs dir"] have q: "queue_ok ?o s" by simp
  then have a: "accepted s = map fst ?hs @ queue s" "?W = map fst (filter (\<lambda>h. snd h = Written) ?hs)" "\<forall>h \<in> set ?hs. snd h \<noteq> Lost"
    using o by (auto simp: queue_ok_def)
  let ?evs = "take (length ?hs) evs"
  have n: "length evs - length (queue s) = length ?hs" using list_all2_lengthD [OF evs] a(1) by simp
  have "list_all2 (logs F ?o) (map fst ?hs) ?evs" using list_all2_takeI [OF evs, of "length ?hs"] a(1) by simp
  then have "list_all2 (\<lambda>h. logs F ?o (fst h)) ?hs ?evs" by (simp add: list_all2_map1)
  then obtain ws fs' where p: "list_all2 (\<lambda>h. logs F ?o (fst h)) (filter (\<lambda>h. snd h = Written) ?hs) ws"
    "list_all2 (\<lambda>h. logs F ?o (fst h)) (filter (\<lambda>h. \<not> snd h = Written) ?hs) fs'" "mset ws + mset fs' = mset ?evs"
    by (rule list_all2_partition)
  have "filter (\<lambda>h. \<not> snd h = Written) ?hs = filter (\<lambda>h. snd h = ToFallback) ?hs" using a(3) by (intro filter_cong) (auto intro: outcome.exhaust)
  with p(2) have "list_all2 (\<lambda>h. logs F ?o (fst h)) (filter (\<lambda>h. snd h = ToFallback) ?hs) fs'" by simp
  then have f: "list_all2 (group_of F ?o) (fallback_entries ?o ?hs) fs'"
    unfolding fallback_entries_def list_all2_map1 by (rule list_all2_mono) (auto simp: group_of_def)
  obtain ess where ess: "list_all2 ?car (map (\<lambda>z. encode (batch_msg tag z)) ?Z) ess" "mset (concat ess) = mset fs'"
    by (rule batches_carry [OF list_all2_appendI [OF b(2,3)] b(4) f assms(6,15,16) tag assms(12-14)])
  have "list_all2 (logs F ?o) ?W ws" using p(1) by (simp add: a(2) list_all2_map1)
  then have "list_all2 ?car ?W (map (\<lambda>ev. [ev]) ws)" using logs_carry tag assms(11-14) by simp
  from list_all2_appendI [OF this ess(1)] obtain es' where es': "list_all2 ?car (concat bsss) es'" "mset es' = mset (map (\<lambda>ev. [ev]) ws @ ess)"
    using list_all2_reorder_left_invariance [OF _ streams] by blast
  from list_all2_unconcat [OF es'(1)] obtain esss where e: "es' = concat esss" "list_all2 (list_all2 ?car) bsss esss" by blast
  have m: "mset (concat (concat esss)) = mset ?evs"
    using mset_concat_map [of "\<lambda>x. x" es'] es'(2) e(1) ess(2) p(3) mset_concat_map [of "\<lambda>x. x" "map (\<lambda>ev. [ev]) ws @ ess"] by simp
  have "\<exists>s'. read_entries (t_Next (conn E) (batch E) (readers E) (length (concat (bsss ! i))) (2 * length (bsss ! i) + 2)) cR cQ (length evs + 1) (NewIterator (rds ! i), Init []) e =
      Ret (map (\<lambda>(t, kvs). (tag, t, g kvs)) (concat (take (intact tag (bsss ! i)) (esss ! i))), Some (if intact tag (bsss ! i) = length (bsss ! i) then T_EOF else refused x), s')"
    if i: "i < length bsss" for i
  proof (rule session_reads [OF assms(17-19) _ tag assms(12-14)])
    show "\<And>r. \<exists>p r'. Peek3 (readers E) r 0 = ((p, Some x), r')" by (rule assms(20))
    show "list_all2 ?car (bsss ! i) (esss ! i)" by (rule list_all2_nthD [OF e(2) i])
    show "conn_rest E (rds ! i) = concat (bsss ! i)" by (rule list_all2_nthD2 [OF assms(22) i])
    have "esss ! i \<in> set esss" using list_all2_lengthD [OF e(2)] i by simp
    from length_concat_le [OF this] mset_eq_length [OF m] show "length (concat (esss ! i)) < length evs + 1" by simp
  qed
  with e(2) m b(1) n show ?thesis by (intro exI [of _ esss]) simp
qed

text \<open>A run whose client refuses the only message, and the run after it.\<close>

definition sample_entry :: bytes where
  "sample_entry = [147, 161, 116, 215, 0, 0, 0, 3, 232, 0, 0, 0, 5, 222, 0, 3, 163, 64, 105, 100, 77, 163, 112, 114, 105, 6, 167, 109, 101, 115, 115, 97, 103, 101, 162, 104, 105]"

definition sample_fallback :: Options where
  "sample_fallback = block_opt\<lparr>opt_WriteBehavior := Fallback\<rparr>"

lemma sample_fallback_sel [simp]:
  "opt_Tag sample_fallback = [0x74]" "opt_BufferSize sample_fallback = 1" "opt_WriteBehavior sample_fallback = Fallback" "setDefaults sample_fallback = sample_fallback"
  by (simp_all add: sample_fallback_def block_opt_def setDefaults_def)

lemma sample_entry_logged:
  "log \<lparr>env_Appendf = \<lambda>dst _ _. dst, env_json = \<lambda>_ _. None, env_frames = []\<rparr> sample_fallback False \<lparr>id_Time = time_Unix 1000 5, id_Uint64 = 77\<rparr> INFO [0x68, 0x69] [] False [] 0 =
    Ret (Some sample_entry)"
  by (simp add: log_def sample_entry_def sample_fallback_def block_opt_def AppendArrayHeader_def AppendString_def AppendTimestamp_def ts_format_def AppendUint_def time_Unix_def text_bytes_def incr_at_def
    less_eq_Severity_def Let_def go_index_def go_store_def fluentdEventTime_def ibyte_at_def byte_at_def)

definition sample_files :: "bytes \<Rightarrow> os" where
  "sample_files x = \<lparr>files = [[0x2f, 0x70, 0x6f, 0x6e, 0x67, 0x2e, 0x62, 0x69, 0x6e] \<mapsto> x], faults = []\<rparr>"

definition sample_dir :: "unit DirBuffer" where
  "sample_dir = NewDirBuffer \<lparr>files = Map.empty, faults = []\<rparr> []"

definition sample_open :: "bytes \<Rightarrow> unit DirBuffer" where
  "sample_open x = sample_dir\<lparr>writeFile := Some (wName sample_dir), writeGz := Some (), d_os := sample_files x\<rparr>"

definition esc :: "bytes \<Rightarrow> bytes" where
  "esc c = concat (map (\<lambda>b. [0x1f, 0x8b, 8, 1, b]) c)"

lemmas dir_defs = NewDirBuffer_def and_then_def on_os_def os_nop_def os_open_def os_stat_def os_create_def os_append_def os_truncate_def os_call_def content_def sample_files_def
  gz_emit_def initDir_def initReadFile_def ensureReadFile_def closeReadFile_def initWriteFile_def ensureWriteFile_def closeWriteFile_def d_close_def fileSize_def switchFiles_def esc_gz_def

lemma sample_dir_calls:
  "DirBuffer_Write esc_gz c sample_dir = (None, sample_open (esc c))"
  "DirBuffer_Write esc_gz c (sample_open x) = (None, sample_open (x @ esc c))"
  "DirBuffer_Close esc_gz (sample_open x) = (None, (sample_open (x @ [0x1f, 0x8b, 8, 0]))\<lparr>writeFile := None\<rparr>)"
  "HasData esc_gz sample_dir = (False, None, sample_dir)"
  by (simp_all add: DirBuffer_Write_def DirBuffer_Close_def HasData_def sample_open_def sample_dir_def esc_def dir_defs)

lemma sample_restart_calls:
  assumes "x \<noteq> []"
  shows "HasData esc_gz (NewDirBuffer (sample_files x) []) = (True, None, NewDirBuffer (sample_files x) [])"
    and "\<exists>d. DirBuffer_Reader esc_gz cli_WriteBatch (NewDirBuffer (sample_files x) []) idle_client = (None, d, idle_client\<lparr>cli_batches := [x]\<rparr>)"
  using assms by (simp_all add: HasData_def DirBuffer_Reader_def dir_defs cli_WriteBatch_def cli_next_def idle_client_def)

definition sample_file :: bytes where
  "sample_file = (esc [0x92] @ esc (drop 3 sample_entry)) @ [0x1f, 0x8b, 8, 0]"

lemma sample_run:
  obtains s s2 where "(close_step esc_gz sample_fallback True True)\<^sup>*\<^sup>* (Before, NewInstance (idle_client\<lparr>cli_results := [False]\<rparr>) sample_dir) (Returned None, s)"
    "accepted s = [sample_entry]" "queue s = []" "cli_written (cli s) = []" "cli_batches (cli s) = []"
    "restarted esc_gz sample_fallback idle_client [] (d_os (fallback s)) s2" "cli_batches (cli s2) = [sample_file]"
proof -
  let ?R = "close_step esc_gz sample_fallback True True" and ?b = sample_entry
  let ?s0 = "NewInstance (idle_client\<lparr>cli_results := [False]\<rparr>) sample_dir"
  let ?s1 = "?s0\<lparr>passed := [?b]\<rparr>"
  let ?s2 = "?s1\<lparr>passed := [], queue := [?b], accepted := [?b]\<rparr>"
  let ?s3 = "?s2\<lparr>worker_pc := Poll\<rparr>"
  let ?s4 = "?s3\<lparr>queue := [], cli := idle_client, fb := True, fallback := sample_open (esc [0x92] @ esc (drop 3 ?b)), handled := [(?b, ToFallback)]\<rparr>"
  let ?s5 = "?s4\<lparr>closed := True\<rparr>"
  let ?s6 = "?s5\<lparr>worker_pc := Wait\<rparr>"
  let ?s7 = "?s6\<lparr>worker_pc := Drain\<rparr>"
  let ?s8 = "?s7\<lparr>worker_pc := Stopped\<rparr>"
  let ?s9 = "?s8\<lparr>fallback := (sample_open sample_file)\<lparr>writeFile := None\<rparr>\<rparr>"
  note defs = NewInstance_def queueMessage_def enqueue_def
  have "step esc_gz sample_fallback ?s0 ?s1" using log_passes [of ?s0 esc_gz sample_fallback ?b] by (simp add: defs)
  then have 1: "?R (Before, ?s0) (Before, ?s1)" by (rule close_step.others) simp
  have "step esc_gz sample_fallback ?s1 ?s2" using log_queues [of ?b ?s1 esc_gz sample_fallback] by (simp add: defs)
  then have 2: "?R (Before, ?s1) (Before, ?s2)" by (rule close_step.others) simp
  have "step esc_gz sample_fallback ?s2 ?s3"
    using worker_starts [of ?s2 esc_gz sample_fallback] by (simp add: defs maybeSetFb_def flushFallbackToCli_def sample_dir_calls)
  then have 3: "?R (Before, ?s2) (Before, ?s3)" by (rule close_step.others) simp
  have l: "3 \<le> len ?b" by (simp add: sample_entry_def)
  have "sendToCli esc_gz sample_fallback ?b (?s3\<lparr>queue := []\<rparr>) = Ret ?s4"
    using l by (simp add: sendToCli_def sendToFallbackCli_def cli_Write_def cli_next_def defs idle_client_def sample_dir_calls strSize_def go_slice_def)
  then have "step esc_gz sample_fallback ?s3 ?s4" by (intro poll_receives [of ?s3 ?b "[]"]) simp_all
  then have 4: "?R (Before, ?s3) (Before, ?s4)" by (rule close_step.others) simp
  have 5: "?R (Before, ?s4) (Waiting, ?s5)" by (rule close_step.calls) (simp add: Close_call_def NewInstance_def)
  have "step esc_gz sample_fallback ?s5 ?s6" using poll_empty [of ?s5 esc_gz sample_fallback] by simp
  then have 6: "?R (Waiting, ?s5) (Waiting, ?s6)" by (rule close_step.others) simp
  have "step esc_gz sample_fallback ?s6 ?s7" using wait_closed [of ?s6 esc_gz sample_fallback] by simp
  then have 7: "?R (Waiting, ?s6) (Waiting, ?s7)" by (rule close_step.others) simp
  have "step esc_gz sample_fallback ?s7 ?s8" using drain_ends [of ?s7 esc_gz sample_fallback] by simp
  then have 8: "?R (Waiting, ?s7) (Waiting, ?s8)" by (rule close_step.others) simp
  have 9: "?R (Waiting, ?s8) (Returned None, ?s9)"
    by (rule close_step.returns) (simp_all add: Close_rest_def sample_dir_calls sample_file_def cli_Close_def cli_next_def idle_client_def)
  from 1 2 3 4 5 6 7 8 9 have r: "?R\<^sup>*\<^sup>* (Before, ?s0) (Returned None, ?s9)" by (meson converse_rtranclp_into_rtranclp rtranclp.rtrancl_refl)
  have f: "d_os (fallback ?s9) = sample_files sample_file" by (simp add: sample_open_def)
  have ne: "sample_file \<noteq> []" by (simp add: sample_file_def)
  let ?i = "NewInstance idle_client (NewDirBuffer (sample_files sample_file) []) :: unit Instance"
  obtain d where d: "DirBuffer_Reader esc_gz cli_WriteBatch (NewDirBuffer (sample_files sample_file) []) idle_client = (None, d, idle_client\<lparr>cli_batches := [sample_file]\<rparr>)"
    using sample_restart_calls(2) [OF ne] by blast
  let ?t = "?i\<lparr>fallback := d, cli := idle_client\<lparr>cli_batches := [sample_file]\<rparr>, worker_pc := Poll\<rparr>"
  have "step esc_gz sample_fallback ?i ?t"
    using worker_starts [of ?i esc_gz sample_fallback] d
    by (simp add: NewInstance_def maybeSetFb_def flushFallbackToCli_def fallback_Reader_def sample_restart_calls(1) [OF ne])
  then have "restarted esc_gz sample_fallback idle_client [] (d_os (fallback ?s9)) ?t" unfolding f restarted_def by simp
  from that [OF r _ _ _ _ this] show thesis by (simp add: idle_client_def NewInstance_def)
qed

lemma sample_entry_logs:
  "logs \<lparr>env_Appendf = \<lambda>dst _ _. dst, env_json = \<lambda>_ _. None, env_frames = []\<rparr> sample_fallback sample_entry (time_Unix 1000 5, base_fields 77 INFO [0x68, 0x69])"
proof -
  let ?F = "\<lparr>env_Appendf = \<lambda>dst _ _. dst, env_json = \<lambda>_ _. None, env_frames = []\<rparr> :: env" and ?i = "\<lparr>id_Time = time_Unix 1000 5, id_Uint64 = 77\<rparr>"
  have f: "ts_valid [TsFluentd] (id_Time ?i)" "message_text ?F [0x68, 0x69] 0 [] [0x68, 0x69]" "args_add (env_json ?F) [] (drop (nat 0) []) []" "stack_fields sample_fallback INFO [] = []"
    by (simp_all add: ts_valid_def ts_format_def time_Unix_def time_ok_def message_text_def args_add_def stack_fields_def less_eq_Severity_def sample_fallback_def block_opt_def)
  show ?thesis
    unfolding logs_def using sample_entry_logged f pairs_wire_Nil
    by (intro exI [of _ ?i] exI [of _ INFO] exI [of _ "[0x68, 0x69]"] exI [of _ "[]"] exI [of _ False] exI [of _ 0] conjI) (assumption | simp)+
qed

lemma logged_events_survive_failures_witness:
  "\<exists>s s2 s'. (close_step esc_gz sample_fallback True True)\<^sup>*\<^sup>* (Before, NewInstance (idle_client\<lparr>cli_results := [False]\<rparr>) sample_dir) (Returned None, s) \<and>
    accepted s = [sample_entry] \<and> cli_written (cli s) = [] \<and> cli_batches (cli s) = [] \<and>
    restarted esc_gz sample_fallback idle_client [] (d_os (fallback s)) s2 \<and> cli_batches (cli s2) = [sample_file] \<and>
    read_entries (t_Next (list_ring 64) (pair_ring 64) (list_sub (\<lambda>z. Some (esc_unzip z))) (length (encode (batch_msg [0x74] sample_file))) 4)
      (skip_record (list_ring 64) (\<lambda>r. r)) (skip_record (pair_ring 64) fst) 2 (NewIterator (encode (batch_msg [0x74] sample_file)), Init []) empty_Entry =
      Ret ([([0x74], time_Unix 1000 5, ())], Some T_EOF, s')"
proof -
  let ?F = "\<lparr>env_Appendf = \<lambda>dst _ _. dst, env_json = \<lambda>_ _. None, env_frames = []\<rparr> :: env" and ?E = "list_env 64 (\<lambda>z. Some (esc_unzip z))"
  let ?ev = "(time_Unix 1000 5, base_fields 77 INFO [0x68, 0x69])" and ?m = "encode (batch_msg [0x74] sample_file)"
  obtain s s2 where s: "(close_step esc_gz sample_fallback True True)\<^sup>*\<^sup>* (Before, NewInstance (idle_client\<lparr>cli_results := [False]\<rparr>) sample_dir) (Returned None, s)"
    "accepted s = [sample_entry]" "queue s = []" "cli_written (cli s) = []" "cli_batches (cli s) = []"
    "restarted esc_gz sample_fallback idle_client [] (d_os (fallback s)) s2" "cli_batches (cli s2) = [sample_file]" by (rule sample_run)
  have h: "holds esc_gz (NewDirBuffer \<lparr>files = Map.empty, faults = []\<rparr> []) [] []" by (rule new_buffers_hold) simp_all
  have n: "gz_nonempty esc_gz" by (simp add: gz_nonempty_def esc_member)
  have c: "cli_batches (idle_client\<lparr>cli_results := [False]\<rparr>) = []" "cli_written (idle_client\<lparr>cli_results := [False]\<rparr>) = []" "cli_results idle_client = []" "cli_batches idle_client = []"
    by (simp_all add: idle_client_def)
  have a: "list_all2 (logs ?F (setDefaults sample_fallback)) (accepted s) [?ev]" using sample_entry_logs s(2) by simp
  have u: "gzip_magic z \<and> unzip ?E z = Some (concat cs)" if "gz_file esc_gz cs z" "z \<noteq> []" for cs z
    using esc_start [OF that] esc_file [OF that(1), of "[]"] by simp
  have z: "\<forall>z \<in> set (cli_batches (cli s) @ cli_batches (cli s2)). len z < 2 ^ 32"
    unfolding s(5,7) by (simp add: sample_file_def esc_def sample_entry_def)
  have b: "mset (concat [[?m]]) = mset (cli_written (cli s) @ map (\<lambda>z. encode (batch_msg [0x74] z)) (cli_batches (cli s) @ cli_batches (cli s2)))" unfolding s(4,5,7) by simp
  have x: "\<exists>p r'. Peek3 (readers ?E) r 0 = ((p, Some EOF), r')" for r by (simp add: list_sub_def)
  have E: "tenv_ok ?E" by (rule list_env_ok) simp
  have i: "intact [0x74] [?m] = 1"
    using batch_not_empty [of sample_file "[0x74]" 64] z unfolding s(5,7) by (simp add: intact_def sample_file_def del: encode.simps)
  have r0: "(close_step esc_gz (setDefaults sample_fallback) True True)\<^sup>*\<^sup>* (Before, NewInstance (idle_client\<lparr>cli_results := [False]\<rparr>) (NewDirBuffer \<lparr>files = Map.empty, faults = []\<rparr> [])) (Returned None, s)"
    using s(1) by (simp add: sample_dir_def)
  from logged_events_survive_failures [where E = ?E and g = "\<lambda>_. ()" and cR = "skip_record (list_ring 64) (\<lambda>r. r)" and cQ = "skip_record (pair_ring 64) fst" and e = empty_Entry
      and opt = sample_fallback and dir = "[]" and fs = "\<lparr>files = Map.empty, faults = []\<rparr>" and err = None and bsss = "[[?m]]" and rds = "[?m]" and x = EOF,
      OF r0 _ c(1,2) h n _ c(3,4) a _ _ _ _ u z E _ _ x b] s(3,6) list_consumes [of 64]
  obtain esss s' where r: "list_all2 (list_all2 (carries 64 (unzip ?E) [0x74])) [[?m]] esss" "mset (concat (concat esss)) = mset [?ev]"
    "read_entries (t_Next (list_ring 64) (pair_ring 64) (list_sub (\<lambda>z. Some (esc_unzip z))) (length ?m) 4)
      (skip_record (list_ring 64) (\<lambda>r. r)) (skip_record (pair_ring 64) fst) 2 (NewIterator ?m, Init []) empty_Entry =
      Ret (map (\<lambda>(t, kvs). ([0x74], t, ())) (concat (take 1 (esss ! 0))), Some T_EOF, s')"
    unfolding i by (auto simp: i numeral_2_eq_2 eval_nat_numeral simp del: t_Next.simps read_entries.simps encode.simps)
  from r(1) obtain es where es: "esss = [[es]]" by (auto simp: list_all2_Cons1)
  with r(2) have "es = [?ev]" by simp
  with s r(3) es show ?thesis by auto
qed

end
